(* ===== verification/Prelude.thy ===== *)
theory Prelude
  imports Main "HOL-Library.Sublist"
begin

text \<open>
  The shared layer of the development: the named theorem collections the component
  proofs draw on, generic facts on lists and on folds, and the contract of a state
  machine whose step preserves an invariant (\<open>step_invariant\<close>), which the tokenizer,
  the parser and the policy evaluator instantiate.
\<close>

named_theorems go_string_simps \<open>evaluation of the model of package strings\<close>
named_theorems re_defs \<open>the regular expressions of core/parser/grammar.go\<close>
named_theorems tok_frame \<open>fields of a token that classification leaves alone\<close>
named_theorems forest_intro \<open>preservation of the block forest invariant by heap operations\<close>

section \<open>Runs of a state machine\<close>

text \<open>
  A loop \<open>for _, x := range xs { s = step(s, x) }\<close> is \<open>foldl step s xs\<close>. A provider
  discharges the two laws once; the client reads off what holds after a whole run.
\<close>

locale step_invariant =
  fixes step :: "'s \<Rightarrow> 'x \<Rightarrow> 's"
    and inv :: "'s \<Rightarrow> bool"
    and ok :: "'x \<Rightarrow> bool"
  assumes step_inv: "inv s \<Longrightarrow> ok x \<Longrightarrow> inv (step s x)"
begin

lemma run_inv: "inv s \<Longrightarrow> \<forall>x\<in>set xs. ok x \<Longrightarrow> inv (foldl step s xs)"
  by (induction xs arbitrary: s) (auto intro: step_inv)

end

text \<open>
  A machine with an output log that only grows: the log after a run extends the log
  before it, so what was recorded once is never lost.
\<close>

locale growing_log =
  fixes step :: "'s \<Rightarrow> 'x \<Rightarrow> 's"
    and log :: "'s \<Rightarrow> 'e list"
  assumes step_grows: "prefix (log s) (log (step s x))"
begin

lemma run_grows: "prefix (log s) (log (foldl step s xs))"
proof (induction xs arbitrary: s)
  case Nil
  show ?case by simp
next
  case (Cons x xs)
  from step_grows Cons.IH have "prefix (log s) (log (foldl step (step s x) xs))"
    by (rule prefix_order.trans)
  then show ?case by simp
qed

lemma run_keeps: "e \<in> set (log s) \<Longrightarrow> e \<in> set (log (foldl step s xs))"
  using run_grows [of s xs] by (auto dest: set_mono_prefix)

end

text \<open>
  A stage that only removes elements from a list, keeping their order: the analyzer's
  suppression, deduplication and gating passes all have this contract.
\<close>

locale filtering_stage =
  fixes stage :: "'a list \<Rightarrow> 'a list"
    and keep :: "'a list \<Rightarrow> nat \<Rightarrow> bool"
  assumes stage_nths: "stage xs = nths xs {i. keep xs i}"
begin

lemma stage_subseq: "subseq (stage xs) xs"
  unfolding stage_nths by (auto simp: subseq_conv_nths)

lemma stage_set: "set (stage xs) \<subseteq> set xs"
  unfolding stage_nths by (rule set_nths_subset)

lemma stage_length: "length (stage xs) \<le> length xs"
  using stage_subseq by (rule list_emb_length)

end

section \<open>Lists\<close>

lemma set_dropWhile_subset: "set (dropWhile P xs) \<subseteq> set xs"
  by (auto dest: set_dropWhileD)

lemma length_dropWhile_less: "xs \<noteq> [] \<Longrightarrow> P (hd xs) \<Longrightarrow> length (dropWhile P xs) < length xs"
  by (cases xs) (auto simp: le_imp_less_Suc length_dropWhile_le)

lemma length_dropWhile_bound [simp, termination_simp]:
  "length (dropWhile P xs) - n \<le> Suc (length xs)"
  "length (dropWhile P xs) - n \<le> length xs"
  "length (dropWhile P xs) < Suc (length xs)"
  using length_dropWhile_le [of P xs] by linarith+

lemma dropWhile_Cons_length [termination_simp]:
  assumes "dropWhile P xs = y # ys"
  shows "length ys < length xs" "length ys < Suc (length xs)"
  using length_dropWhile_le [of P xs] unfolding assms by simp_all

lemma dropWhile_neq_Nil_iff: "dropWhile (\<lambda>x. \<not> P x) xs \<noteq> [] \<longleftrightarrow> (\<exists>x\<in>set xs. P x)"
  by simp

lemma upt_snoc: "i \<le> j \<Longrightarrow> [i..<j] @ [j] = [i..<Suc j]"
  by simp

lemma foldl_map_append: "foldl (\<lambda>acc x. acc @ f x) acc xs = acc @ concat (map f xs)"
  by (induction xs arbitrary: acc) auto

lemma nths_filter_all: "nths xs {i. P (xs ! i)} = filter P xs"
proof (induction xs)
  case Nil
  show ?case by simp
next
  case (Cons x xs)
  have "{j. Suc j \<in> {i. P ((x # xs) ! i)}} = {i. P (xs ! i)}" by auto
  with Cons.IH show ?case by (simp add: nths_Cons)
qed

end
