(* ===== verification/Go_Regexp.thy ===== *)
theory Go_Regexp
  imports Go_Strings
begin

text \<open>
  The part of Go's package \<open>regexp\<close> that the program uses, with its leftmost-first
  semantics: \<open>outs r st\<close> lists the ways \<open>r\<close> can match from \<open>st\<close> in order of
  preference, as a backtracking matcher would try them, and a search takes the first
  outcome at the leftmost position that has one. Subjects are byte strings; every class
  in use is either a set of ASCII bytes or the complement of one, for which matching
  bytes and matching runes give the same extents. The exceptions under \<open>(?i)\<close>, U+017F
  and U+212A, are alternatives of \<open>ci\<close> and \<open>word_ci\<close>.
\<close>

section \<open>Patterns\<close>

datatype rx =
    Eps
  | Cls "char \<Rightarrow> bool"
  | Seq rx rx
  | Alt rx rx
  | Star rx
  | StarLazy rx
  | Grp nat rx
  | Bot
  | Eot
  | WordB

record mstate =
  mpos :: nat
  mprev :: "char option"
  mrest :: string
  mcaps :: "(nat \<times> nat \<times> nat) list"

definition word_char :: "char \<Rightarrow> bool" where
  "word_char c \<longleftrightarrow> is_upper c \<or> is_lower c \<or> is_digit c \<or> c = CHR ''_''"

definition at_word_boundary :: "mstate \<Rightarrow> bool" where
  "at_word_boundary st \<longleftrightarrow>
     (case mprev st of None \<Rightarrow> False | Some c \<Rightarrow> word_char c) \<noteq>
     (case mrest st of [] \<Rightarrow> False | c # _ \<Rightarrow> word_char c)"

definition advance :: "mstate \<Rightarrow> mstate" where
  "advance st = (case mrest st of
     [] \<Rightarrow> st
   | c # s \<Rightarrow> st\<lparr>mpos := Suc (mpos st), mprev := Some c, mrest := s\<rparr>)"

text \<open>
  Repetition: greedy tries another round before stopping, lazy stops before trying one.
  Only rounds that consume something are repeated, so \<open>length (mrest st)\<close> rounds are
  enough.
\<close>

fun star_outs :: "nat \<Rightarrow> (mstate \<Rightarrow> mstate list) \<Rightarrow> mstate \<Rightarrow> mstate list" where
  "star_outs 0 f st = [st]"
| "star_outs (Suc n) f st =
     concat (map (star_outs n f) (filter (\<lambda>st'. length (mrest st') < length (mrest st)) (f st)))
     @ [st]"

fun star_lazy_outs :: "nat \<Rightarrow> (mstate \<Rightarrow> mstate list) \<Rightarrow> mstate \<Rightarrow> mstate list" where
  "star_lazy_outs 0 f st = [st]"
| "star_lazy_outs (Suc n) f st =
     st # concat (map (star_lazy_outs n f)
            (filter (\<lambda>st'. length (mrest st') < length (mrest st)) (f st)))"

primrec outs :: "rx \<Rightarrow> mstate \<Rightarrow> mstate list" where
  "outs Eps st = [st]"
| "outs (Cls f) st = (case mrest st of [] \<Rightarrow> [] | c # _ \<Rightarrow> if f c then [advance st] else [])"
| "outs (Seq a b) st = concat (map (outs b) (outs a st))"
| "outs (Alt a b) st = outs a st @ outs b st"
| "outs (Star a) st = star_outs (length (mrest st)) (outs a) st"
| "outs (StarLazy a) st = star_lazy_outs (length (mrest st)) (outs a) st"
| "outs (Grp k a) st =
     map (\<lambda>st'. st'\<lparr>mcaps := (k, mpos st, mpos st') # mcaps st'\<rparr>) (outs a st)"
| "outs Bot st = (if mpos st = 0 then [st] else [])"
| "outs Eot st = (if mrest st = [] then [st] else [])"
| "outs WordB st = (if at_word_boundary st then [st] else [])"

section \<open>Searching\<close>

record rmatch =
  msubject :: string
  mstart :: nat
  mend :: nat
  mgroups :: "(nat \<times> nat \<times> nat) list"

definition start_state :: "string \<Rightarrow> mstate" where
  "start_state s = \<lparr>mpos = 0, mprev = None, mrest = s, mcaps = []\<rparr>"

text \<open>The leftmost match at or after a state; the subject is passed along for the groups.\<close>

function find_from :: "rx \<Rightarrow> string \<Rightarrow> mstate \<Rightarrow> (rmatch \<times> mstate) option" where
  "find_from r subj st =
     (case outs r (st\<lparr>mcaps := []\<rparr>) of
        st' # _ \<Rightarrow> Some (\<lparr>msubject = subj, mstart = mpos st, mend = mpos st',
                         mgroups = mcaps st'\<rparr>, st')
      | [] \<Rightarrow> if mrest st = [] then None else find_from r subj (advance st))"
  by pat_completeness auto
termination
  by (relation "measure (\<lambda>(r, subj, st). length (mrest st))")
     (auto simp: advance_def split: list.splits)

declare find_from.simps [simp del]

definition FindStringSubmatch :: "rx \<Rightarrow> string \<Rightarrow> rmatch option" where
  "FindStringSubmatch r s = map_option fst (find_from r s (start_state s))"

definition MatchString :: "rx \<Rightarrow> string \<Rightarrow> bool" where
  "MatchString r s \<longleftrightarrow> FindStringSubmatch r s \<noteq> None"

text \<open>Text of a slice and of a group; a group that took no part in the match is empty.\<close>

definition slice :: "string \<Rightarrow> nat \<Rightarrow> nat \<Rightarrow> string" where
  "slice s i j = drop i (take j s)"

definition group_at :: "rmatch \<Rightarrow> nat \<Rightarrow> (nat \<times> nat) option" where
  "group_at m k = (if k = 0 then Some (mstart m, mend m) else map_of (mgroups m) k)"

definition group_text :: "rmatch \<Rightarrow> nat \<Rightarrow> string" where
  "group_text m k = (case group_at m k of None \<Rightarrow> [] | Some (i, j) \<Rightarrow> slice (msubject m) i j)"

text \<open>
  \<open>FindAllStringSubmatchIndex(s, -1)\<close> for patterns that never match the empty string
  (the only ones it is called with): each search resumes where the last match ended.
\<close>

function find_all :: "rx \<Rightarrow> string \<Rightarrow> mstate \<Rightarrow> rmatch list" where
  "find_all r subj st =
     (case find_from r subj st of
        None \<Rightarrow> []
      | Some (m, st') \<Rightarrow>
          m # (if length (mrest st') < length (mrest st) then find_all r subj st' else []))"
  by pat_completeness auto
termination
  by (relation "measure (\<lambda>(r, subj, st). length (mrest st))") auto

declare find_all.simps [simp del]

definition FindAllStringSubmatchIndex :: "rx \<Rightarrow> string \<Rightarrow> rmatch list" where
  "FindAllStringSubmatchIndex r s = find_all r s (start_state s)"

text \<open>\<open>ReplaceAllString(s, "")\<close>: the text outside every match.\<close>

fun cut_matches :: "string \<Rightarrow> nat \<Rightarrow> rmatch list \<Rightarrow> string" where
  "cut_matches s i [] = drop i s"
| "cut_matches s i (m # ms) = slice s i (mstart m) @ cut_matches s (mend m) ms"

definition DeleteAllString :: "rx \<Rightarrow> string \<Rightarrow> string" where
  "DeleteAllString r s = cut_matches s 0 (FindAllStringSubmatchIndex r s)"

section \<open>Pattern syntax\<close>

fun seqs :: "rx list \<Rightarrow> rx" where
  "seqs [] = Eps"
| "seqs [r] = r"
| "seqs (r # rs) = Seq r (seqs rs)"

fun alts :: "rx list \<Rightarrow> rx" where
  "alts [] = Cls (\<lambda>_. False)"
| "alts [r] = r"
| "alts (r # rs) = Alt r (alts rs)"

definition Plus :: "rx \<Rightarrow> rx" where
  "Plus r = Seq r (Star r)"

definition Opt :: "rx \<Rightarrow> rx" where
  "Opt r = Alt r Eps"

definition chr :: "char \<Rightarrow> rx" where
  "chr c = Cls (\<lambda>d. d = c)"

definition lit :: "string \<Rightarrow> rx" where
  "lit s = seqs (map chr s)"

text \<open>A literal character and a literal under \<open>(?i)\<close>.\<close>

definition ci :: "char \<Rightarrow> rx" where
  "ci c = (let base = Cls (\<lambda>d. lower d = lower c) in
     if lower c = CHR ''s'' then Alt base (lit [CHR 0xC5, CHR 0xBF])
     else if lower c = CHR ''k'' then Alt base (lit [CHR 0xE2, CHR 0x84, CHR 0xAA])
     else base)"

definition lit_ci :: "string \<Rightarrow> rx" where
  "lit_ci s = seqs (map ci s)"

definition space_char :: "char \<Rightarrow> bool" where
  "space_char c \<longleftrightarrow> c \<in> {tab, nl, CHR 0x0C, cr, sp}"

definition ws :: rx where
  "ws = Cls space_char"

definition non_ws :: rx where
  "non_ws = Cls (\<lambda>c. \<not> space_char c)"

definition digit :: rx where
  "digit = Cls is_digit"

definition word :: rx where
  "word = Cls word_char"

definition word_ci :: rx where
  "word_ci = alts [Cls word_char, lit [CHR 0xC5, CHR 0xBF], lit [CHR 0xE2, CHR 0x84, CHR 0xAA]]"

definition dot :: rx where
  "dot = Cls (\<lambda>c. c \<noteq> nl)"

section \<open>Facts\<close>

lemma advance_simps [simp]:
  "mrest st = c # s \<Longrightarrow> advance st = st\<lparr>mpos := Suc (mpos st), mprev := Some c, mrest := s\<rparr>"
  "mcaps (advance st) = mcaps st"
  "mrest (advance st) = tl (mrest st)"
  by (auto simp: advance_def split: list.splits)

lemma start_state_simps [simp]:
  "mpos (start_state s) = 0" "mprev (start_state s) = None"
  "mrest (start_state s) = s" "mcaps (start_state s) = []"
  by (simp_all add: start_state_def)

text \<open>What an outcome can be: the state moves forward and consumes a prefix of the rest.\<close>

definition consumes :: "mstate \<Rightarrow> mstate \<Rightarrow> bool" where
  "consumes st st' \<longleftrightarrow>
     (\<exists>w. mrest st = w @ mrest st' \<and> mpos st' = mpos st + length w)"

lemma consumes_refl [simp]: "consumes st st"
  by (simp add: consumes_def)

lemma consumes_trans: "consumes a b \<Longrightarrow> consumes b c \<Longrightarrow> consumes a c"
  unfolding consumes_def by (metis append.assoc add.assoc length_append)

lemma consumes_advance: "mrest st = c # s \<Longrightarrow> consumes st (advance st)"
  unfolding consumes_def by (intro exI [of _ "[c]"]) simp

lemma consumes_caps [simp]: "consumes st (st'\<lparr>mcaps := cs\<rparr>) = consumes st st'"
  by (simp add: consumes_def)

lemma consumes_mono:
  "consumes st st' \<Longrightarrow> length (mrest st') \<le> length (mrest st)"
  "consumes st st' \<Longrightarrow> mpos st \<le> mpos st'"
  "consumes st st' \<Longrightarrow> mpos st + length (mrest st) = mpos st' + length (mrest st')"
  by (auto simp: consumes_def)

lemma star_outs_consumes:
  assumes "\<And>st st'. st' \<in> set (f st) \<Longrightarrow> consumes st st'"
  shows "st' \<in> set (star_outs n f st) \<Longrightarrow> consumes st st'"
proof (induction n arbitrary: st)
  case 0
  then show ?case by simp
next
  case (Suc n)
  then show ?case using assms by (auto intro: consumes_trans)
qed

lemma star_lazy_outs_consumes:
  assumes "\<And>st st'. st' \<in> set (f st) \<Longrightarrow> consumes st st'"
  shows "st' \<in> set (star_lazy_outs n f st) \<Longrightarrow> consumes st st'"
proof (induction n arbitrary: st)
  case 0
  then show ?case by simp
next
  case (Suc n)
  then show ?case using assms by (auto intro: consumes_trans)
qed

lemma outs_consumes: "st' \<in> set (outs r st) \<Longrightarrow> consumes st st'"
proof (induction r arbitrary: st st')
  case (Cls f)
  then show ?case by (auto intro: consumes_advance [OF sym] split: list.splits if_splits)
next
  case (Seq a b)
  then show ?case by (fastforce intro: consumes_trans)
next
  case (Star a)
  then show ?case using star_outs_consumes [of "outs a"] by auto
next
  case (StarLazy a)
  then show ?case using star_lazy_outs_consumes [of "outs a"] by auto
qed (auto split: if_splits)

text \<open>
  A pattern that begins with \<open>^\<close> is decided at the first position, which turns the
  search into a single evaluation of \<open>outs\<close>.
\<close>

lemma outs_seqs_Bot: "outs (seqs (Bot # rs)) st = (if mpos st = 0 then outs (seqs rs) st else [])"
  by (cases rs) auto

lemma find_from_Bot_late: "0 < mpos st \<Longrightarrow> find_from (seqs (Bot # rs)) subj st = None"
proof (induction "seqs (Bot # rs)" subj st rule: find_from.induct)
  case (1 subj st)
  have o: "outs (seqs (Bot # rs)) (st\<lparr>mcaps := []\<rparr>) = []"
    using 1(2) by (subst outs_seqs_Bot) simp
  have "0 < mpos (advance st)" using 1(2) by (auto simp: advance_def split: list.splits)
  with o 1(1) have "mrest st \<noteq> [] \<Longrightarrow> find_from (seqs (Bot # rs)) subj (advance st) = None"
    by blast
  then show ?case by (subst find_from.simps) (simp only: o list.case if_split, simp)
qed

definition anchored_match :: "rx list \<Rightarrow> string \<Rightarrow> rmatch option" where
  "anchored_match rs s = (case outs (seqs rs) (start_state s) of
     [] \<Rightarrow> None
   | st' # _ \<Rightarrow> Some \<lparr>msubject = s, mstart = 0, mend = mpos st', mgroups = mcaps st'\<rparr>)"

lemma FindStringSubmatch_Bot:
  "FindStringSubmatch (seqs (Bot # rs)) s = anchored_match rs s"
proof -
  have o: "outs (seqs (Bot # rs)) ((start_state s)\<lparr>mcaps := []\<rparr>) = outs (seqs rs) (start_state s)"
    by (subst outs_seqs_Bot) (simp add: start_state_def)
  have late: "s \<noteq> [] \<Longrightarrow> find_from (seqs (Bot # rs)) s (advance (start_state s)) = None"
    by (rule find_from_Bot_late) (auto simp: advance_def split: list.splits)
  show ?thesis
  proof (cases "outs (seqs rs) (start_state s)")
    case Nil
    then show ?thesis
      unfolding FindStringSubmatch_def anchored_match_def
      by (subst find_from.simps, simp only: o list.case) (use late in auto)
  next
    case (Cons st' sts)
    then show ?thesis
      unfolding FindStringSubmatch_def anchored_match_def
      by (subst find_from.simps, simp only: o list.case) simp
  qed
qed

lemma MatchString_Bot:
  "MatchString (seqs (Bot # rs)) s \<longleftrightarrow> outs (seqs rs) (start_state s) \<noteq> []"
  by (simp add: MatchString_def FindStringSubmatch_Bot anchored_match_def split: list.split)

lemma find_from_pos:
  "find_from r subj st = Some (m, st') \<Longrightarrow>
     mpos st \<le> mstart m \<and> mstart m \<le> mend m \<and> mpos st' = mend m
     \<and> mpos st + length (mrest st) = mend m + length (mrest st') \<and> msubject m = subj"
proof (induction r subj st rule: find_from.induct)
  case (1 r subj st)
  show ?case
  proof (cases "outs r (st\<lparr>mcaps := []\<rparr>)")
    case Nil
    with "1.prems" have "mrest st \<noteq> []" and rec: "find_from r subj (advance st) = Some (m, st')"
      by (auto simp: find_from.simps [of r subj st] split: if_splits)
    with "1.IH" [OF Nil] show ?thesis
      by (auto simp: advance_def split: list.splits)
  next
    case (Cons a as)
    then have "consumes (st\<lparr>mcaps := []\<rparr>) a" using outs_consumes [of a r "st\<lparr>mcaps := []\<rparr>"] by simp
    with Cons "1.prems" show ?thesis
      using consumes_mono(2,3) by (fastforce simp: find_from.simps [of r subj st])
  qed
qed

end
