(* ===== verification/Grammar.thy ===== *)
theory Grammar
  imports Go_Regexp
begin

text \<open>
  core/parser/grammar.go: the regular expressions the tokenizer and the extractors share,
  the expression keywords, and the masking of string literals. Each pattern is a list of
  factors, written in the order of the Go source; the ones that start with \<open>^\<close> start
  with \<open>Bot\<close>.
\<close>

section \<open>Patterns of the line classifier\<close>

definition reRegionStart :: rx where [re_defs]:
  "reRegionStart = seqs [Bot, chr (CHR ''#''), Star ws, lit ''Region'', Plus ws, chr dquote,
     Grp 1 (Plus (Cls (\<lambda>c. c \<noteq> dquote))), chr dquote]"

definition reRegionEnd :: rx where [re_defs]:
  "reRegionEnd = seqs [Bot, chr (CHR ''#''), Star ws, lit ''End'', Star ws, lit ''Region'']"

definition reSubflowStart :: rx where [re_defs]:
  "reSubflowStart = seqs [Bot, lit_ci ''SUBFLOW'', Plus ws, Grp 1 (Plus non_ws)]"

definition reLoopStart :: rx where [re_defs]:
  "reLoopStart = seqs [Bot, Grp 1 (alts [
     seqs [lit_ci ''LOOP'', Plus ws, Plus dot],
     seqs [lit_ci ''Loop.'', Plus word_ci]])]"

definition reIfStart :: rx where [re_defs]:
  "reIfStart = seqs [Bot, Grp 1 (alts [
     seqs [lit_ci ''IF'', Plus ws, Plus dot],
     seqs [lit_ci ''If.'', Plus word_ci],
     seqs [lit_ci ''Text.If'', WordB],
     seqs [lit_ci ''Variables.If'', WordB],
     seqs [lit_ci ''Display.If'', WordB]])]"

definition reElse :: rx where [re_defs]:
  "reElse = seqs [Bot, Grp 1 (alts [
     lit_ci ''ELSE'',
     seqs [lit_ci ''Else'', WordB],
     seqs [lit_ci ''Text.Else'', WordB],
     seqs [lit_ci ''Variables.Else'', WordB],
     seqs [lit_ci ''Display.Else'', WordB]]), Star ws, Eot]"

definition reElseIf :: rx where [re_defs]:
  "reElseIf = seqs [Bot, lit_ci ''ELSE'', Plus ws, lit_ci ''IF'', Plus ws, Plus dot]"

definition reOnErrorStart :: rx where [re_defs]:
  "reOnErrorStart = seqs [Bot, lit_ci ''ON'', Plus ws,
     Opt (Grp 1 (seqs [lit_ci ''BLOCK'', Plus ws])), lit_ci ''ERROR'', WordB]"

definition reOnErrorInline :: rx where [re_defs]:
  "reOnErrorInline = seqs [Bot, lit_ci ''ON'', Plus ws, lit_ci ''ERROR'', Plus ws,
     lit_ci ''REPEAT'', Plus ws, Plus digit, Plus ws, lit_ci ''TIMES'', Plus ws, lit_ci ''WAIT'']"

definition reOnErrorInlineParams :: rx where [re_defs]:
  "reOnErrorInlineParams = seqs [Bot, lit_ci ''ON'', Plus ws, lit_ci ''ERROR'', Plus ws,
     lit_ci ''REPEAT'', Plus ws, Grp 1 (Plus digit), Plus ws, lit_ci ''TIMES'', Plus ws,
     lit_ci ''WAIT'', Plus ws, Grp 2 (Plus non_ws),
     Opt (seqs [Plus ws, lit_ci ''RetryType:'', Plus ws, Grp 3 (Plus non_ws)]),
     Opt (seqs [Plus ws, lit_ci ''MinInterval:'', Plus ws, Grp 4 (Plus non_ws)]),
     Opt (seqs [Plus ws, lit_ci ''MaxInterval:'', Plus ws, Grp 5 (Plus non_ws)])]"

definition reComment :: rx where [re_defs]:
  "reComment = seqs [Bot, Grp 1 (alts [
     seqs [lit_ci ''COMMENT'', Plus ws, Star dot],
     seqs [chr (CHR ''#''), Plus ws, Star dot],
     seqs [lit ''//'', Plus ws, Star dot]])]"

definition reBlockStart :: rx where [re_defs]:
  "reBlockStart = seqs [Bot, lit_ci ''BLOCK'', Opt (Grp 1 (seqs [Plus ws, Plus dot])), Eot]"

definition reSwitchStart :: rx where [re_defs]:
  "reSwitchStart = seqs [Bot, lit_ci ''SWITCH'', Plus ws, Grp 1 (Star dot)]"

definition reCase :: rx where [re_defs]:
  "reCase = seqs [Bot, lit_ci ''CASE'', Plus ws, Grp 1 (Star dot)]"

definition reDefault :: rx where [re_defs]:
  "reDefault = seqs [Bot, lit_ci ''DEFAULT'', Star ws, Eot]"

definition reDisableCall :: rx where [re_defs]:
  "reDisableCall = seqs [Bot, lit_ci ''DISABLE'', Plus ws, lit_ci ''CALL'', Plus ws,
     Grp 1 (Plus non_ws)]"

definition reCall :: rx where [re_defs]:
  "reCall = seqs [Bot, lit_ci ''CALL'', Plus ws, Grp 1 (Plus non_ws)]"

definition bare_name :: rx where [re_defs]:
  "bare_name = Plus (Cls (\<lambda>c. c \<noteq> quote \<and> \<not> space_char c))"

definition reGoto :: rx where [re_defs]:
  "reGoto = seqs [Bot, lit_ci ''GOTO'', Plus ws, Opt (chr quote), Grp 1 bare_name,
     Opt (chr quote)]"

definition reLabel :: rx where [re_defs]:
  "reLabel = seqs [Bot, lit_ci ''LABEL'', Plus ws, Opt (chr quote), Grp 1 bare_name,
     Opt (chr quote)]"

definition reExit :: rx where [re_defs]:
  "reExit = seqs [Bot, lit_ci ''EXIT'', Opt (Grp 1 (alts [
     seqs [Plus ws, lit_ci ''FUNCTION''],
     seqs [Plus ws, lit_ci ''LOOP''],
     seqs [Plus ws, lit_ci ''Code:'', Star dot]])), Star ws, Eot]"

definition reErrorCapture :: rx where [re_defs]:
  "reErrorCapture = seqs [Bot, lit_ci ''ERROR'', Plus ws, lit ''=>'', Star ws,
     Grp 1 (Plus word_ci)]"

definition reSetVariable :: rx where [re_defs]:
  "reSetVariable = seqs [Bot, lit_ci ''SET'', Plus ws, Grp 1 (Plus non_ws), Plus ws,
     lit_ci ''TO'', Plus ws, Grp 2 (Star dot)]"

definition reWait :: rx where [re_defs]:
  "reWait = seqs [Bot, lit_ci ''WAIT'', Plus ws, Grp 1 (Plus digit)]"

definition reWaitExpression :: rx where [re_defs]:
  "reWaitExpression = seqs [Bot, lit_ci ''WAIT'', Plus ws, chr (CHR ''('')]"

definition dotted_part :: rx where [re_defs]:
  "dotted_part = seqs [Cls is_upper, Star (Cls (\<lambda>c. is_upper c \<or> is_lower c \<or> is_digit c))]"

definition reDottedAction :: rx where [re_defs]:
  "reDottedAction = seqs [Bot,
     Grp 1 (seqs [dotted_part, Plus (seqs [chr (CHR ''.''), dotted_part])]),
     Plus ws, Grp 2 (Star dot)]"

definition reStarRegionStart :: rx where [re_defs]:
  "reStarRegionStart = seqs [Bot, lit ''**'', lit_ci ''REGION'', Star ws, Grp 1 (Star dot)]"

definition reStarRegionEnd :: rx where [re_defs]:
  "reStarRegionEnd = seqs [Bot, lit ''**'', lit_ci ''ENDREGION'']"

definition reNextLoop :: rx where [re_defs]:
  "reNextLoop = seqs [Bot, lit_ci ''NEXT'', Plus ws, lit_ci ''LOOP'', Eot]"

definition reExitLoop :: rx where [re_defs]:
  "reExitLoop = seqs [Bot, lit_ci ''EXIT'', Plus ws, lit_ci ''LOOP'', Eot]"

section \<open>Patterns of the extractors\<close>

definition reOutputVar :: rx where [re_defs]:
  "reOutputVar = seqs [lit ''=>'', Star ws, Grp 1 (Plus word), Star ws, Eot]"

definition reVariableRef :: rx where [re_defs]:
  "reVariableRef = seqs [chr (CHR ''%''), Grp 1 (Plus (Cls (\<lambda>c. c \<noteq> CHR ''%''))), chr (CHR ''%'')]"

definition triple :: string where
  "triple = [quote, quote, quote]"

definition reStringLiteral :: rx where [re_defs]:
  "reStringLiteral = alts [
     seqs [Opt (chr (CHR ''$'')), lit triple, StarLazy (Cls (\<lambda>_. True)), lit triple],
     seqs [chr quote, Star (Cls (\<lambda>c. c \<noteq> quote)), chr quote],
     seqs [chr dquote, Star (Cls (\<lambda>c. c \<noteq> dquote)), chr dquote]]"

definition reIdentifier :: rx where [re_defs]:
  "reIdentifier = seqs [Cls (\<lambda>c. is_upper c \<or> is_lower c \<or> c = CHR ''_''), Star word]"

definition reLoopForEach :: rx where [re_defs]:
  "reLoopForEach = seqs [Bot, lit_ci ''LOOP'', Plus ws, lit_ci ''FOREACH'', Plus ws,
     Grp 1 (Plus word_ci), Plus ws, lit_ci ''IN'', Plus ws,
     Grp 2 (seqs [Opt (chr (CHR ''%'')), Grp 3 (Plus word_ci), Opt (chr (CHR ''%''))])]"

definition reLoopWhile :: rx where [re_defs]:
  "reLoopWhile = seqs [Bot, lit_ci ''LOOP'', Plus ws, lit_ci ''WHILE'', WordB]"

definition reLoopRangeAnon :: rx where [re_defs]:
  "reLoopRangeAnon = seqs [Bot, lit_ci ''LOOP'', Plus ws, lit_ci ''FROM'', Plus ws]"

definition range_bound :: rx where [re_defs]:
  "range_bound = seqs [Opt (chr (CHR ''-'')), Opt (chr (CHR ''%'')),
     Plus (alts [word_ci, chr (CHR ''.'')]), Opt (chr (CHR ''%''))]"

definition reLoopRange :: rx where [re_defs]:
  "reLoopRange = seqs [Bot, lit_ci ''LOOP'', Plus ws, Grp 1 (Plus word_ci), Plus ws,
     lit_ci ''FROM'', Plus ws, Grp 2 range_bound, Plus ws, lit_ci ''TO'', Plus ws,
     Grp 3 range_bound, Opt (seqs [Plus ws, lit_ci ''STEP'', Plus ws, Grp 4 range_bound])]"

section \<open>Keywords\<close>

definition isExpressionKeyword :: "string \<Rightarrow> bool" where
  "isExpressionKeyword vname \<longleftrightarrow>
     EqualFold vname ''AND'' \<or> EqualFold vname ''OR'' \<or> EqualFold vname ''NOT'' \<or>
     EqualFold vname ''TRUE'' \<or> EqualFold vname ''FALSE'' \<or> EqualFold vname ''NULL'' \<or>
     EqualFold vname ''BLANK''"

definition hasPrefixFold :: "string \<Rightarrow> string \<Rightarrow> bool" where
  "hasPrefixFold s p \<longleftrightarrow> length p \<le> length s \<and> EqualFold (take (length p) s) p"

section \<open>Masking of string literals\<close>

text \<open>
  The scanners of the source run an index over the bytes; here the index is the suffix
  that starts at it. \<open>indexTripleQuote\<close> counts from the suffix's start to just past the
  next triple quote, or to the end.
\<close>

fun indexTripleQuote :: "string \<Rightarrow> nat" where
  "indexTripleQuote [] = 0"
| "indexTripleQuote (c # s) =
     (if HasPrefix (c # s) triple then 3 else Suc (indexTripleQuote s))"

fun mask_loop :: "string \<Rightarrow> string" where
  "mask_loop [] = []"
| "mask_loop (c # s) =
     (if c = CHR ''$'' \<and> HasPrefix s triple
        then sp # mask_loop (drop (indexTripleQuote (drop 3 s)) (drop 3 s))
      else if c = quote \<and> HasPrefix s [quote, quote]
        then sp # mask_loop (drop (indexTripleQuote (drop 2 s)) (drop 2 s))
      else if c = quote \<or> c = dquote
        then sp # mask_loop (drop 1 (dropWhile (\<lambda>d. d \<noteq> c) s))
      else c # mask_loop s)"

definition maskStrings :: "string \<Rightarrow> string" where
  "maskStrings s = (if \<not> ContainsAny s [quote, dquote] then s else mask_loop s)"

section \<open>Facts\<close>

lemma indexTripleQuote_bound: "indexTripleQuote s \<le> length s"
  by (induction s) (auto simp: triple_def HasPrefix_iff_prefix prefix_Cons dest: prefix_length_le)

lemma mask_loop_no_quotes: "quote \<notin> set (mask_loop s) \<and> dquote \<notin> set (mask_loop s)"
proof (induction s rule: mask_loop.induct)
  case 1
  show ?case by simp
next
  case (2 c s)
  then show ?case by auto
qed

lemma mask_loop_length: "length (mask_loop s) \<le> length s"
proof (induction s rule: mask_loop.induct)
  case 1
  show ?case by simp
next
  case (2 c s)
  then show ?case by (auto intro: order_trans [OF _ length_dropWhile_bound(2)])
qed

lemma mask_loop_unquoted: "quote \<notin> set s \<Longrightarrow> dquote \<notin> set s \<Longrightarrow> mask_loop s = s"
proof (induction s)
  case Nil
  show ?case by simp
next
  case (Cons c s)
  then have "\<not> HasPrefix s triple" by (cases s) (auto simp: triple_def)
  with Cons show ?case by auto
qed

text \<open>The early return of \<open>maskStrings\<close> is only a shortcut: the scan leaves such text alone.\<close>

lemma maskStrings_eq_loop: "maskStrings s = mask_loop s"
proof (cases "ContainsAny s [quote, dquote]")
  case True
  then show ?thesis by (simp add: maskStrings_def)
next
  case False
  then have "quote \<notin> set s" "dquote \<notin> set s"
    unfolding ContainsAny_def list_ex_iff by auto
  with False show ?thesis by (simp only: maskStrings_def mask_loop_unquoted if_True not_False_eq_True)
qed

end
