(* ===== verification/Tokenizer.thy ===== *)
theory Tokenizer
  imports Grammar
begin

text \<open>
  core/parser/token_types.go and tokenizer.go: the line classifier and the tokenizer's
  line loop with its two multi-line spans, block comments and triple-quoted literals.
  The loop's local variables are the record \<open>tzstate\<close>; one iteration is \<open>tz_line\<close>.
\<close>

section \<open>Tokens\<close>

datatype TokenKind =
    TokSubflowStart | TokSubflowEnd | TokAction | TokLoopStart | TokEnd | TokConditionStart
  | TokConditionElse | TokComment | TokErrorHandlerStart | TokBlockStart | TokSwitchStart
  | TokCase | TokDefault | TokEmpty | TokError

record Token =
  tkKind :: TokenKind
  tkLine :: nat
  tkColumn :: nat
  tkEndLine :: nat
  tkIndent :: nat
  tkRaw :: string
  tkContent :: string
  tkName :: string
  tkRawType :: string
  tkSetVarName :: string
  tkSetVarValue :: string

definition zero_token :: Token where
  "zero_token = \<lparr>tkKind = TokSubflowStart, tkLine = 0, tkColumn = 0, tkEndLine = 0, tkIndent = 0,
     tkRaw = [], tkContent = [], tkName = [], tkRawType = [], tkSetVarName = [],
     tkSetVarValue = []\<rparr>"

section \<open>Line helpers\<close>

fun computeIndent :: "string \<Rightarrow> nat" where
  "computeIndent [] = 0"
| "computeIndent (c # s) =
     (if c = sp then Suc (computeIndent s)
      else if c = tab then 4 + computeIndent s
      else 0)"

fun countTripleQuotes :: "string \<Rightarrow> nat" where
  "countTripleQuotes [] = 0"
| "countTripleQuotes (c # s) =
     (if HasPrefix (c # s) triple then Suc (countTripleQuotes (drop 2 s))
      else countTripleQuotes s)"

text \<open>The byte before the current one is passed along, \<open>None\<close> at the start.\<close>

fun split_camel :: "char option \<Rightarrow> string \<Rightarrow> string" where
  "split_camel p [] = []"
| "split_camel p (c # s) =
     (case p of
        None \<Rightarrow> []
      | Some prev \<Rightarrow>
          if is_upper c \<and> is_lower prev then [sp]
          else if is_upper c \<and> is_upper prev \<and> s \<noteq> [] \<and> is_lower (hd s) then [sp]
          else [])
     @ c # split_camel (Some c) s"

definition splitCamelCase :: "string \<Rightarrow> string" where
  "splitCamelCase s = split_camel None s"

definition extractActionName :: "string \<Rightarrow> string \<Rightarrow> string" where
  "extractActionName moduleAction params =
     (let parts = SplitByte moduleAction (CHR ''.'') in
      if 2 \<le> length parts then splitCamelCase (last parts) else moduleAction)"

definition unterminatedToken :: "nat \<Rightarrow> nat \<Rightarrow> string \<Rightarrow> Token" where
  "unterminatedToken line indent msg = zero_token\<lparr>tkKind := TokError, tkLine := line,
     tkColumn := indent + 1, tkIndent := indent, tkName := msg, tkRawType := ''UNTERMINATED''\<rparr>"

section \<open>The line classifier\<close>

record tokenBase =
  lbLineNum :: nat
  lbIndent :: nat
  lbColumn :: nat
  lbRaw :: string
  lbContent :: string

text \<open>The composite literal every classifier returns; \<open>Column\<close> is stamped by \<open>classifyLine\<close>.\<close>

definition line_token :: "tokenBase \<Rightarrow> TokenKind \<Rightarrow> string \<Rightarrow> string \<Rightarrow> Token" where
  "line_token b k name rawType = zero_token\<lparr>tkKind := k, tkLine := lbLineNum b,
     tkIndent := lbIndent b, tkRaw := lbRaw b, tkContent := lbContent b, tkName := name,
     tkRawType := rawType\<rparr>"

definition classifyComment :: "tokenBase \<Rightarrow> Token option" where
  "classifyComment b = (let content = lbContent b in
     if MatchString reRegionStart content \<or> MatchString reRegionEnd content then None
     else if MatchString reComment content then
       (let name =
          (if hasPrefixFold content ''COMMENT'' then TrimSpace (drop 7 content)
           else if HasPrefix content ''#'' \<and> \<not> MatchString reRegionStart content
             then TrimSpace (drop 1 content)
           else if HasPrefix content ''//'' then TrimSpace (drop 2 content)
           else content)
        in Some (line_token b TokComment name ''COMMENT''))
     else if HasSuffix content ''#/'' \<and> HasPrefix (TrimSpace content) ''#/''
       then Some (line_token b TokComment (TrimSpace content) ''COMMENT'')
     else None)"

definition classifyRegion :: "tokenBase \<Rightarrow> Token option" where
  "classifyRegion b = (let content = lbContent b in
     case FindStringSubmatch reStarRegionStart content of
       Some m \<Rightarrow>
         (let name = TrimSpace (group_text m 1) in
          Some (line_token b TokBlockStart (if name = [] then ''Region'' else name) ''REGION''))
     | None \<Rightarrow>
       if MatchString reStarRegionEnd content then Some (line_token b TokEnd [] ''ENDREGION'')
       else (case FindStringSubmatch reRegionStart content of
         Some m \<Rightarrow> Some (line_token b TokSubflowStart (group_text m 1) ''Region'')
       | None \<Rightarrow>
         if MatchString reRegionEnd content then Some (line_token b TokSubflowEnd [] ''EndRegion'')
         else (case FindStringSubmatch reSubflowStart content of
           Some m \<Rightarrow> Some (line_token b TokSubflowStart (group_text m 1) ''SUBFLOW'')
         | None \<Rightarrow> None)))"

definition classifyBlockControl :: "tokenBase \<Rightarrow> Token option" where
  "classifyBlockControl b = (let content = lbContent b; trimmed = TrimSpace content in
     if EqualFold trimmed ''END'' \<or> EqualFold trimmed ''END SUBFLOW''
       then Some (line_token b TokEnd ''End'' ''END'')
     else (case FindStringSubmatch reBlockStart content of
       Some m \<Rightarrow>
         (let name = (if group_text m 1 \<noteq> [] then Trim (TrimSpace (group_text m 1)) [quote] else [])
          in Some (line_token b TokBlockStart name ''BLOCK''))
     | None \<Rightarrow>
       if MatchString reSwitchStart content
         then Some (line_token b TokSwitchStart content ''SWITCH'')
       else if MatchString reCase content then Some (line_token b TokCase content ''CASE'')
       else if MatchString reDefault content
         then Some (line_token b TokDefault ''Default'' ''DEFAULT'')
       else None))"

definition classifyErrorHandler :: "tokenBase \<Rightarrow> Token option" where
  "classifyErrorHandler b = (let content = lbContent b in
     if MatchString reOnErrorInline content
       then Some (line_token b TokComment content ''ON_ERROR_INLINE'')
     else if MatchString reOnErrorStart content
       then Some (line_token b TokErrorHandlerStart ''On Block Error'' ''OnBlockError'')
     else None)"

definition dotted_raw_type :: "string \<Rightarrow> string \<Rightarrow> string" where
  "dotted_raw_type content dflt =
     (case FindStringSubmatch reDottedAction content of
        Some m \<Rightarrow> group_text m 1
      | None \<Rightarrow> dflt)"

definition classifyLoopStart :: "tokenBase \<Rightarrow> Token option" where
  "classifyLoopStart b = (let content = lbContent b in
     if \<not> MatchString reLoopStart content then None
     else Some (line_token b TokLoopStart content (dotted_raw_type content ''LOOP'')))"

definition ends_with_then :: "string \<Rightarrow> bool" where
  "ends_with_then s \<longleftrightarrow> 5 \<le> length s \<and> EqualFold (drop (length s - 5) s) '' THEN''"

definition classifyCondition :: "tokenBase \<Rightarrow> Token option" where
  "classifyCondition b = (let content = lbContent b in
     if MatchString reIfStart content then
       (let name = (if ends_with_then (TrimSpace content)
                    then TrimSpace (take (length content - 5) content) else content)
        in Some (line_token b TokConditionStart name (dotted_raw_type content ''IF'')))
     else if MatchString reElseIf content then
       (let name = (if ends_with_then content
                    then TrimSpace (take (length content - 5) content) else content)
        in Some (line_token b TokConditionElse name ''ELSE IF''))
     else if MatchString reElse content then Some (line_token b TokConditionElse ''Else'' ''ELSE'')
     else None)"

definition classifyCallOrLabel :: "tokenBase \<Rightarrow> Token option" where
  "classifyCallOrLabel b = (let content = lbContent b in
     case FindStringSubmatch reDisableCall content of
       Some m \<Rightarrow> Some (line_token b TokAction (''Call '' @ group_text m 1 @ '' (disabled)'')
                   ''DISABLED_CALL'')
     | None \<Rightarrow> (case FindStringSubmatch reCall content of
         Some m \<Rightarrow> Some (line_token b TokAction (''Call '' @ group_text m 1) ''CALL'')
       | None \<Rightarrow> (case FindStringSubmatch reGoto content of
           Some m \<Rightarrow> Some (line_token b TokAction (group_text m 1) ''GOTO'')
         | None \<Rightarrow> (case FindStringSubmatch reLabel content of
             Some m \<Rightarrow> Some (line_token b TokAction (group_text m 1) ''LABEL'')
           | None \<Rightarrow> None))))"

definition classifyLoopControl :: "tokenBase \<Rightarrow> Token option" where
  "classifyLoopControl b = (let content = lbContent b in
     if MatchString reExitLoop content then Some (line_token b TokAction ''Exit Loop'' ''EXIT_LOOP'')
     else if MatchString reNextLoop content
       then Some (line_token b TokAction ''Next Loop'' ''NEXT_LOOP'')
     else if MatchString reExit content then Some (line_token b TokAction content ''EXIT'')
     else None)"

definition classifyStatement :: "tokenBase \<Rightarrow> Token option" where
  "classifyStatement b = (let content = lbContent b in
     case FindStringSubmatch reErrorCapture content of
       Some m \<Rightarrow> Some (line_token b TokAction (''Error => '' @ group_text m 1) ''ERROR_CAPTURE'')
     | None \<Rightarrow> (case FindStringSubmatch reSetVariable content of
         Some m \<Rightarrow> Some ((line_token b TokAction (''Set '' @ group_text m 1) ''SET'')
                     \<lparr>tkSetVarName := group_text m 1,
                      tkSetVarValue := TrimSpace (group_text m 2)\<rparr>)
       | None \<Rightarrow>
         if MatchString reWait content \<or> MatchString reWaitExpression content then
           (let name = (case FindStringSubmatch reDottedAction content of
                          Some m \<Rightarrow> ''Wait '' @ group_text m 1
                        | None \<Rightarrow> content)
            in Some (line_token b TokAction name ''WAIT''))
         else None))"

definition classifyGenericAction :: "tokenBase \<Rightarrow> Token option" where
  "classifyGenericAction b = (let content = lbContent b in
     case FindStringSubmatch reDottedAction content of
       None \<Rightarrow> None
     | Some m \<Rightarrow> Some (line_token b TokAction (extractActionName (group_text m 1) (group_text m 2))
                   (group_text m 1)))"

definition classifiers :: "(tokenBase \<Rightarrow> Token option) list" where
  "classifiers = [classifyComment, classifyRegion, classifyBlockControl, classifyErrorHandler,
     classifyLoopStart, classifyCondition, classifyCallOrLabel, classifyLoopControl,
     classifyStatement, classifyGenericAction]"

fun first_match :: "(tokenBase \<Rightarrow> Token option) list \<Rightarrow> tokenBase \<Rightarrow> Token option" where
  "first_match [] b = None"
| "first_match (f # fs) b = (case f b of Some tok \<Rightarrow> Some tok | None \<Rightarrow> first_match fs b)"

definition classifyLine :: "nat \<Rightarrow> nat \<Rightarrow> nat \<Rightarrow> string \<Rightarrow> string \<Rightarrow> Token" where
  "classifyLine lineNum indent column raw content =
     (let base = \<lparr>lbLineNum = lineNum, lbIndent = indent, lbColumn = column, lbRaw = raw,
                  lbContent = content\<rparr> in
      case first_match classifiers base of
        Some tok \<Rightarrow> tok\<lparr>tkColumn := lbColumn base\<rparr>
      | None \<Rightarrow> line_token base TokError content ''UNKNOWN'')"

section \<open>The line loop\<close>

record tzstate =
  tokens :: "Token list"
  lineNum :: nat
  inBlockComment :: bool
  commentStartLine :: nat
  commentIndent :: nat
  commentRaw :: string
  inTripleQuote :: bool
  tripleStartLine :: nat
  tripleRaw :: string

definition tz_init :: tzstate where
  "tz_init = \<lparr>tokens = [], lineNum = 1, inBlockComment = False, commentStartLine = 0,
     commentIndent = 0, commentRaw = [], inTripleQuote = False, tripleStartLine = 0,
     tripleRaw = []\<rparr>"

definition blanks :: string where
  "blanks = [sp, tab, cr]"

definition emit :: "tzstate \<Rightarrow> Token \<Rightarrow> tzstate" where
  "emit st tok = st\<lparr>tokens := tokens st @ [tok]\<rparr>"

definition comment_token :: "nat \<Rightarrow> nat \<Rightarrow> nat \<Rightarrow> string \<Rightarrow> string \<Rightarrow> Token" where
  "comment_token line endLine indent raw content = zero_token\<lparr>tkKind := TokComment,
     tkLine := line, tkEndLine := endLine, tkIndent := indent, tkRaw := raw,
     tkContent := content, tkName := TrimSpace content, tkRawType := ''COMMENT''\<rparr>"

text \<open>The token of an accumulated triple-quoted action, with its physical end.\<close>

definition triple_token :: "nat \<Rightarrow> nat \<Rightarrow> string \<Rightarrow> Token" where
  "triple_token start endLine combined =
     (let trimmed = TrimRight combined blanks;
          indent = computeIndent trimmed;
          content = TrimLeft trimmed [sp, tab]
      in (classifyLine start indent (indent + 1) combined content)\<lparr>tkEndLine := endLine\<rparr>)"

definition tz_body :: "tzstate \<Rightarrow> string \<Rightarrow> tzstate" where
  "tz_body st raw =
     (let trimmed = TrimRight raw blanks;
          indent = computeIndent trimmed;
          content = TrimLeft trimmed [sp, tab];
          column = indent + 1
      in
      if inBlockComment st then
        (let st = st\<lparr>commentRaw := commentRaw st @ raw @ [nl]\<rparr> in
         if HasSuffix content ''#/'' then
           emit (st\<lparr>inBlockComment := False\<rparr>)
             (comment_token (commentStartLine st) (lineNum st) (commentIndent st)
                (commentRaw st) (commentRaw st))
         else st)
      else if inTripleQuote st then
        (let st = st\<lparr>tripleRaw := tripleRaw st @ [nl] @ raw\<rparr>;
             st = (if countTripleQuotes raw mod 2 = 1
                   then st\<lparr>inTripleQuote := \<not> inTripleQuote st\<rparr> else st)
         in if \<not> inTripleQuote st
            then emit st (triple_token (tripleStartLine st) (lineNum st) (tripleRaw st))
            else st)
      else if content = [] then
        emit st (zero_token\<lparr>tkKind := TokEmpty, tkLine := lineNum st, tkIndent := indent,
                   tkRaw := raw\<rparr>)
      else if HasPrefix content ''/#'' \<and> HasSuffix content ''#/'' then
        emit st (comment_token (lineNum st) 0 indent raw content)
      else if HasPrefix content ''/#'' \<and> \<not> HasSuffix content ''#/'' then
        st\<lparr>inBlockComment := True, commentStartLine := lineNum st, commentIndent := indent,
           commentRaw := raw @ [nl]\<rparr>
      else
        (let tok = classifyLine (lineNum st) indent column raw content in
         if tkKind tok = TokAction \<and> countTripleQuotes raw mod 2 = 1
           then st\<lparr>inTripleQuote := True, tripleStartLine := lineNum st, tripleRaw := raw\<rparr>
         else emit st tok))"

definition bom :: string where
  "bom = [CHR 0xEF, CHR 0xBB, CHR 0xBF]"

definition tz_line :: "tzstate \<Rightarrow> string \<Rightarrow> tzstate" where
  "tz_line st raw0 =
     (let raw = (if lineNum st = 1 \<and> HasPrefix raw0 bom then drop 3 raw0 else raw0);
          st' = tz_body st (TrimSuffix raw [cr])
      in st'\<lparr>lineNum := Suc (lineNum st')\<rparr>)"

fun tz_loop :: "tzstate \<Rightarrow> string \<Rightarrow> tzstate" where
  "tz_loop st [] = st"
| "tz_loop st (c # rest) =
     tz_loop (tz_line st (takeWhile (\<lambda>d. d \<noteq> nl) (c # rest)))
       (drop 1 (dropWhile (\<lambda>d. d \<noteq> nl) (c # rest)))"

definition tz_flush :: "tzstate \<Rightarrow> Token list" where
  "tz_flush st =
     (if inBlockComment st then
        [comment_token (commentStartLine st) (lineNum st - 1) (commentIndent st)
           (commentRaw st) (commentRaw st),
         unterminatedToken (commentStartLine st) (commentIndent st)
           ''unterminated block comment: /# was never closed by #/'']
      else [])
     @ (if inTripleQuote st then
        [triple_token (tripleStartLine st) (lineNum st - 1) (tripleRaw st),
         unterminatedToken (tripleStartLine st)
           (computeIndent (TrimRight (tripleRaw st) blanks))
           (''unterminated triple-quoted string: '' @ triple @ '' was never closed'')]
      else [])"

definition Tokenize :: "string \<Rightarrow> Token list" where
  "Tokenize src =
     (if src = [] then []
      else (let st = tz_loop tz_init src in tokens st @ tz_flush st))"

definition lineCount :: "string \<Rightarrow> nat" where
  "lineCount src =
     (if src = [] then 0
      else let n = CountByte src nl in if \<not> HasSuffix src [nl] then n + 1 else n)"

section \<open>The contract of a line classifier\<close>

text \<open>
  What \<open>classifyLine\<close> relies on: a classifier that accepts a line returns a token of that
  line, single-line and never an error token. The chain of classifiers keeps the contract.
\<close>

definition token_of_line :: "tokenBase \<Rightarrow> Token \<Rightarrow> bool" where
  "token_of_line b tok \<longleftrightarrow> tkLine tok = lbLineNum b \<and> tkEndLine tok = 0 \<and>
     tkIndent tok = lbIndent b \<and> tkRaw tok = lbRaw b \<and> tkContent tok = lbContent b \<and>
     tkKind tok \<noteq> TokError \<and> tkKind tok \<noteq> TokEmpty"

locale classifier_chain =
  fixes chain :: "(tokenBase \<Rightarrow> Token option) list"
  assumes accepts: "f \<in> set chain \<Longrightarrow> f b = Some tok \<Longrightarrow> token_of_line b tok"
begin

lemma suffix_accepts:
  "set fs \<subseteq> set chain \<Longrightarrow> first_match fs b = Some tok \<Longrightarrow> token_of_line b tok"
  by (induction fs) (auto split: option.splits dest: accepts)

lemma chain_accepts: "first_match chain b = Some tok \<Longrightarrow> token_of_line b tok"
  by (rule suffix_accepts) simp_all

end

lemma token_of_line_token [simp]:
  "k \<noteq> TokError \<Longrightarrow> k \<noteq> TokEmpty \<Longrightarrow> token_of_line b (line_token b k name rawType)"
  by (simp add: token_of_line_def line_token_def zero_token_def)

lemma token_of_line_setvar [simp]:
  "token_of_line b (tok\<lparr>tkSetVarName := v, tkSetVarValue := w\<rparr>) = token_of_line b tok"
  by (simp add: token_of_line_def)

lemma classifyComment_accepts: "classifyComment b = Some tok \<Longrightarrow> token_of_line b tok"
  by (auto simp: classifyComment_def Let_def split: if_splits)

lemma classifyRegion_accepts: "classifyRegion b = Some tok \<Longrightarrow> token_of_line b tok"
  by (auto simp: classifyRegion_def Let_def split: if_splits option.splits)

lemma classifyBlockControl_accepts: "classifyBlockControl b = Some tok \<Longrightarrow> token_of_line b tok"
  by (auto simp: classifyBlockControl_def Let_def split: if_splits option.splits)

lemma classifyErrorHandler_accepts: "classifyErrorHandler b = Some tok \<Longrightarrow> token_of_line b tok"
  by (auto simp: classifyErrorHandler_def Let_def split: if_splits)

lemma classifyLoopStart_accepts: "classifyLoopStart b = Some tok \<Longrightarrow> token_of_line b tok"
  by (auto simp: classifyLoopStart_def Let_def split: if_splits)

lemma classifyCondition_accepts: "classifyCondition b = Some tok \<Longrightarrow> token_of_line b tok"
  by (auto simp: classifyCondition_def Let_def split: if_splits)

lemma classifyCallOrLabel_accepts: "classifyCallOrLabel b = Some tok \<Longrightarrow> token_of_line b tok"
  by (auto simp: classifyCallOrLabel_def Let_def split: option.splits)

lemma classifyLoopControl_accepts: "classifyLoopControl b = Some tok \<Longrightarrow> token_of_line b tok"
  by (auto simp: classifyLoopControl_def Let_def split: if_splits)

lemma classifyStatement_accepts: "classifyStatement b = Some tok \<Longrightarrow> token_of_line b tok"
  by (auto simp: classifyStatement_def Let_def split: if_splits option.splits)

lemma classifyGenericAction_accepts: "classifyGenericAction b = Some tok \<Longrightarrow> token_of_line b tok"
  by (auto simp: classifyGenericAction_def Let_def split: option.splits)

lemmas classifier_accepts = classifyComment_accepts classifyRegion_accepts
  classifyBlockControl_accepts classifyErrorHandler_accepts classifyLoopStart_accepts
  classifyCondition_accepts classifyCallOrLabel_accepts classifyLoopControl_accepts
  classifyStatement_accepts classifyGenericAction_accepts

interpretation line_chain: classifier_chain classifiers
proof
  fix f b tok
  assume "f \<in> set classifiers" and "f b = Some tok"
  then show "token_of_line b tok"
    unfolding classifiers_def by (auto intro: classifier_accepts)
qed

lemma classifyLine_cases:
  obtains tok where "first_match classifiers \<lparr>lbLineNum = n, lbIndent = i, lbColumn = col,
        lbRaw = raw, lbContent = content\<rparr> = Some tok"
      and "classifyLine n i col raw content = tok\<lparr>tkColumn := col\<rparr>"
      and "token_of_line \<lparr>lbLineNum = n, lbIndent = i, lbColumn = col,
        lbRaw = raw, lbContent = content\<rparr> tok"
    | "classifyLine n i col raw content = line_token \<lparr>lbLineNum = n, lbIndent = i,
        lbColumn = col, lbRaw = raw, lbContent = content\<rparr> TokError content ''UNKNOWN''"
proof (cases "first_match classifiers \<lparr>lbLineNum = n, lbIndent = i, lbColumn = col,
        lbRaw = raw, lbContent = content\<rparr>")
  case None
  then show ?thesis using that(2) by (simp add: classifyLine_def)
next
  case (Some tok)
  show ?thesis
    by (rule that(1) [OF Some]) (simp_all add: classifyLine_def Some line_chain.chain_accepts)
qed

lemma classifyLine_frame [tok_frame]:
  "tkLine (classifyLine n i col raw content) = n"
  "tkEndLine (classifyLine n i col raw content) = 0"
  "tkIndent (classifyLine n i col raw content) = i"
  "tkRaw (classifyLine n i col raw content) = raw"
  "tkContent (classifyLine n i col raw content) = content"
  "tkKind (classifyLine n i col raw content) \<noteq> TokEmpty"
  "tkKind (classifyLine n i col raw content) = TokError \<Longrightarrow>
     tkRawType (classifyLine n i col raw content) = ''UNKNOWN''"
  by (rule classifyLine_cases [of n i col raw content],
      simp_all add: token_of_line_def line_token_def zero_token_def)+

section \<open>Every line is accounted for\<close>

text \<open>The lines a token stands for, and the lines an open span has consumed so far.\<close>

definition tok_span :: "Token \<Rightarrow> nat list" where
  "tok_span tok = [tkLine tok ..< Suc (if tkEndLine tok = 0 then tkLine tok else tkEndLine tok)]"

definition is_unterminated :: "Token \<Rightarrow> bool" where
  "is_unterminated tok \<longleftrightarrow> tkKind tok = TokError \<and> tkRawType tok = ''UNTERMINATED''"

definition tok_lines :: "Token list \<Rightarrow> nat list" where
  "tok_lines toks = concat (map tok_span (filter (\<lambda>t. \<not> is_unterminated t) toks))"

definition open_lines :: "tzstate \<Rightarrow> nat list" where
  "open_lines st = (if inBlockComment st then [commentStartLine st ..< lineNum st]
     else if inTripleQuote st then [tripleStartLine st ..< lineNum st] else [])"

definition span_ok :: "Token \<Rightarrow> bool" where
  "span_ok tok \<longleftrightarrow> tkEndLine tok = 0 \<or> tkLine tok \<le> tkEndLine tok"

lemma tok_span_Cons: "span_ok t \<Longrightarrow> \<exists>ls. tok_span t = tkLine t # ls"
  by (auto simp: tok_span_def span_ok_def upt_conv_Cons simp del: upt_Suc)

definition tz_ok :: "tzstate \<Rightarrow> bool" where
  "tz_ok st \<longleftrightarrow> 1 \<le> lineNum st \<and> \<not> (inBlockComment st \<and> inTripleQuote st) \<and>
     (inBlockComment st \<longrightarrow> 1 \<le> commentStartLine st \<and> commentStartLine st < lineNum st) \<and>
     (inTripleQuote st \<longrightarrow> 1 \<le> tripleStartLine st \<and> tripleStartLine st < lineNum st) \<and>
     tok_lines (tokens st) @ open_lines st = [1 ..< lineNum st] \<and> list_all span_ok (tokens st)"

lemma not_unterminated_kind [simp]: "tkKind t \<noteq> TokError \<Longrightarrow> \<not> is_unterminated t"
  by (simp add: is_unterminated_def)

lemma tok_lines_simps [simp]:
  "tok_lines [] = []"
  "tok_lines (ts @ us) = tok_lines ts @ tok_lines us"
  "tok_lines (t # ts) = (if is_unterminated t then [] else tok_span t) @ tok_lines ts"
  by (simp_all add: tok_lines_def)

lemma emit_simps [simp]:
  "tokens (emit st t) = tokens st @ [t]" "lineNum (emit st t) = lineNum st"
  "inBlockComment (emit st t) = inBlockComment st" "inTripleQuote (emit st t) = inTripleQuote st"
  "commentStartLine (emit st t) = commentStartLine st"
  "tripleStartLine (emit st t) = tripleStartLine st"
  by (simp_all add: emit_def)

lemma comment_token_simps [simp]:
  "tkLine (comment_token l e i r c) = l" "tkEndLine (comment_token l e i r c) = e"
  "tkKind (comment_token l e i r c) = TokComment"
  "\<not> is_unterminated (comment_token l e i r c)"
  by (simp_all add: comment_token_def is_unterminated_def)

lemma triple_token_simps [simp]:
  "tkLine (triple_token l e s) = l" "tkEndLine (triple_token l e s) = e"
  "\<not> is_unterminated (triple_token l e s)"
  using classifyLine_frame(7) [of l "computeIndent (TrimRight s blanks)"
      "Suc (computeIndent (TrimRight s blanks))" s "TrimLeft (TrimRight s blanks) [sp, tab]"]
  by (auto simp: triple_token_def Let_def tok_frame is_unterminated_def)

lemma classifyLine_not_unterminated [simp]: "\<not> is_unterminated (classifyLine n i col raw content)"
  using classifyLine_frame(7) [of n i col raw content] by (auto simp: is_unterminated_def)

lemma unterminatedToken_is [simp]: "is_unterminated (unterminatedToken l i msg)"
  by (simp add: is_unterminated_def unterminatedToken_def)

lemma tz_body_lineNum [simp]: "lineNum (tz_body st raw) = lineNum st"
  by (simp add: tz_body_def Let_def)

text \<open>
  One iteration adds exactly the line it reads to what is emitted or open. The five ways
  an iteration can end: emit a token of the line, open a span, extend it, close it.
\<close>

lemma tz_ok_emit:
  assumes "tz_ok st" "\<not> inBlockComment st" "\<not> inTripleQuote st"
    and "tokens st' = tokens st @ [tok]" "lineNum st' = Suc (lineNum st)"
    and "\<not> is_unterminated tok" "tkLine tok = lineNum st" "tkEndLine tok = 0"
    and "\<not> inBlockComment st'" "\<not> inTripleQuote st'"
  shows "tz_ok st'"
  using assms by (simp add: tz_ok_def open_lines_def tok_span_def span_ok_def)

lemma tz_ok_open:
  assumes "tz_ok st" "\<not> inBlockComment st" "\<not> inTripleQuote st"
    and "tokens st' = tokens st" "lineNum st' = Suc (lineNum st)"
    and "inBlockComment st' \<and> \<not> inTripleQuote st' \<and> commentStartLine st' = lineNum st \<or>
         inTripleQuote st' \<and> \<not> inBlockComment st' \<and> tripleStartLine st' = lineNum st"
  shows "tz_ok st'"
  using assms by (auto simp: tz_ok_def open_lines_def)

lemma tz_ok_extend:
  assumes "tz_ok st" "inBlockComment st \<or> inTripleQuote st"
    and "tokens st' = tokens st" "lineNum st' = Suc (lineNum st)"
    and "inBlockComment st' = inBlockComment st" "inTripleQuote st' = inTripleQuote st"
    and "commentStartLine st' = commentStartLine st" "tripleStartLine st' = tripleStartLine st"
  shows "tz_ok st'"
proof -
  have "open_lines st' = open_lines st @ [lineNum st]"
    using assms by (auto simp: tz_ok_def open_lines_def)
  with assms show ?thesis by (auto simp: tz_ok_def simp flip: append_assoc)
qed

lemma tz_ok_close:
  assumes "tz_ok st" "inBlockComment st \<or> inTripleQuote st"
    and "tokens st' = tokens st @ [tok]" "lineNum st' = Suc (lineNum st)"
    and "\<not> is_unterminated tok" "tkLine tok = (if inBlockComment st then commentStartLine st else tripleStartLine st)"
    and "tkEndLine tok = lineNum st"
    and "\<not> inBlockComment st'" "\<not> inTripleQuote st'"
  shows "tz_ok st'"
proof -
  have "tok_span tok = open_lines st @ [lineNum st]"
    using assms by (auto simp: tz_ok_def open_lines_def tok_span_def)
  with assms show ?thesis by (auto simp: tz_ok_def open_lines_def span_ok_def simp flip: append_assoc)
qed

lemma tz_body_accounts:
  assumes ok: "tz_ok st"
  shows "tz_ok ((tz_body st raw)\<lparr>lineNum := Suc (lineNum st)\<rparr>)"
proof -
  consider (comment) "inBlockComment st" "\<not> inTripleQuote st"
    | (quoted) "\<not> inBlockComment st" "inTripleQuote st"
    | (plain) "\<not> inBlockComment st" "\<not> inTripleQuote st"
    using ok by (auto simp: tz_ok_def)
  then show ?thesis
  proof cases
    case comment
    then show ?thesis
      by (auto simp: tz_body_def Let_def intro: tz_ok_extend [OF ok] tz_ok_close [OF ok])
  next
    case quoted
    then show ?thesis
      by (auto simp: tz_body_def Let_def intro: tz_ok_extend [OF ok] tz_ok_close [OF ok])
  next
    case plain
    then show ?thesis
      by (auto simp: tz_body_def Let_def tok_frame zero_token_def
          intro: tz_ok_open [OF ok] tz_ok_emit [OF ok])
  qed
qed

lemma tz_line_ok: "tz_ok st \<Longrightarrow> tz_ok (tz_line st raw)"
  unfolding tz_line_def Let_def by (simp add: tz_body_accounts)

lemma tz_init_ok: "tz_ok tz_init"
  by (simp add: tz_ok_def tz_init_def open_lines_def)

text \<open>The lines of a text, as the loop cuts them; the loop is a fold over them.\<close>

fun text_lines :: "string \<Rightarrow> string list" where
  "text_lines [] = []"
| "text_lines (c # s) =
     takeWhile (\<lambda>d. d \<noteq> nl) (c # s) # text_lines (drop 1 (dropWhile (\<lambda>d. d \<noteq> nl) (c # s)))"

lemma tz_loop_foldl: "tz_loop st src = foldl tz_line st (text_lines src)"
  by (induction st src rule: tz_loop.induct) simp_all

lemma tz_line_lineNum [simp]: "lineNum (tz_line st raw) = Suc (lineNum st)"
  by (simp add: tz_line_def Let_def)

lemma foldl_tz_line_lineNum: "lineNum (foldl tz_line st ls) = lineNum st + length ls"
  by (induction ls arbitrary: st) simp_all

lemma text_lines_length: "length (text_lines src) = lineCount src"
proof (induction src rule: text_lines.induct)
  case 1
  show ?case by (simp add: lineCount_def)
next
  case (2 c s)
  let ?t = "c # s" and ?rest = "drop 1 (dropWhile (\<lambda>d. d \<noteq> nl) (c # s))"
  show ?case
  proof (cases "nl \<in> set ?t")
    case False
    then have "\<forall>d\<in>set ?t. d \<noteq> nl" by metis
    then have "dropWhile (\<lambda>d. d \<noteq> nl) ?t = []" "filter (\<lambda>d. d = nl) ?t = []"
      by (simp_all only: dropWhile_eq_Nil_conv filter_empty_conv not_not)
    moreover have "\<not> HasSuffix ?t [nl]"
      using False by (metis HasSuffix_iff_suffix set_mono_suffix list.set_intros(1) subsetD)
    ultimately show ?thesis by (simp add: lineCount_def CountByte_def del: filter.simps)
  next
    case True
    then obtain w r where t: "?t = w @ nl # r" and w: "nl \<notin> set w" by (meson split_list_first)
    from w have dw: "dropWhile (\<lambda>d. d \<noteq> nl) ?t = nl # r"
      unfolding t by (subst dropWhile_append2) auto
    from w have fw: "filter (\<lambda>d. d = nl) w = []" by (auto simp: filter_empty_conv)
    have suf: "HasSuffix ?t [nl] \<longleftrightarrow> r = [] \<or> HasSuffix r [nl]"
      unfolding t HasSuffix_iff_suffix by (cases r rule: rev_cases) (auto simp: suffix_def)
    from 2 dw have "length (text_lines ?t) = Suc (lineCount r)" by simp
    also have "\<dots> = lineCount ?t"
      using suf fw unfolding lineCount_def CountByte_def t by (simp add: Let_def)
    finally show ?thesis .
  qed
qed

interpretation tz_machine: step_invariant tz_line tz_ok "\<lambda>_. True"
  by unfold_locales (rule tz_line_ok)

lemma tz_loop_ok: "tz_ok (tz_loop tz_init src)"
  unfolding tz_loop_foldl by (rule tz_machine.run_inv) (simp_all add: tz_init_ok)

lemma tz_loop_lineNum: "lineNum (tz_loop tz_init src) = Suc (lineCount src)"
  by (simp add: tz_loop_foldl foldl_tz_line_lineNum text_lines_length tz_init_def)

lemma tok_span_to_last:
  "tkLine t = l \<Longrightarrow> tkEndLine t = n - Suc 0 \<Longrightarrow> Suc 0 \<le> l \<Longrightarrow> l < n \<Longrightarrow> tok_span t = [l ..< n]"
  by (simp add: tok_span_def del: upt_Suc)

lemma tz_flush_lines: "tz_ok st \<Longrightarrow> tok_lines (tz_flush st) = open_lines st"
  by (auto simp: tz_flush_def tz_ok_def open_lines_def intro: tok_span_to_last)

lemma tz_flush_spans: "tz_ok st \<Longrightarrow> list_all span_ok (tz_flush st)"
  by (auto simp: tz_flush_def tz_ok_def span_ok_def unterminatedToken_def zero_token_def)

lemma tokenize_lines: "tok_lines (Tokenize src) = [1 ..< Suc (lineCount src)]"
proof (cases "src = []")
  case True
  then show ?thesis by (simp add: Tokenize_def lineCount_def)
next
  case False
  let ?st = "tz_loop tz_init src"
  have "tok_lines (Tokenize src) = tok_lines (tokens ?st) @ open_lines ?st"
    using False tz_flush_lines [OF tz_loop_ok] by (simp add: Tokenize_def Let_def)
  also have "\<dots> = [1 ..< lineNum ?st]" using tz_loop_ok by (simp add: tz_ok_def)
  finally show ?thesis by (simp add: tz_loop_lineNum)
qed

lemma tokenize_spans: "list_all span_ok (Tokenize src)"
  using tz_loop_ok [of src] tz_flush_spans [OF tz_loop_ok, of src]
  by (simp add: Tokenize_def Let_def tz_ok_def)

section \<open>Spans that are never closed\<close>

text \<open>
  A reading of the text that builds no token: a span is open after some lines when a block
  comment was begun on line \<open>n\<close> and no later line ends with \<open>#/\<close>, or when an action on line \<open>n\<close>
  left a triple-quoted literal open and no later line has an odd number of triple quotes.
\<close>

datatype span = Outside | InComment nat | InLiteral nat

definition opens_literal :: "nat \<Rightarrow> string \<Rightarrow> bool" where
  "opens_literal n raw \<longleftrightarrow>
     (let trimmed = TrimRight raw blanks; ind = computeIndent trimmed; content = TrimLeft trimmed [sp, tab] in
      content \<noteq> [] \<and> odd (countTripleQuotes raw) \<and>
      tkKind (classifyLine n ind (Suc ind) raw content) = TokAction)"

definition span_step :: "nat \<Rightarrow> span \<Rightarrow> string \<Rightarrow> span" where
  "span_step n cur raw =
     (let content = TrimLeft (TrimRight raw blanks) [sp, tab] in
      case cur of
        InComment k \<Rightarrow> if HasSuffix content ''#/'' then Outside else cur
      | InLiteral k \<Rightarrow> if odd (countTripleQuotes raw) then Outside else cur
      | Outside \<Rightarrow>
          if HasPrefix content ''/#'' then (if HasSuffix content ''#/'' then Outside else InComment n)
          else if opens_literal n raw then InLiteral n else Outside)"

fun span_after :: "nat \<Rightarrow> span \<Rightarrow> string list \<Rightarrow> span" where
  "span_after n cur [] = cur"
| "span_after n cur (l # ls) =
     span_after (Suc n)
       (span_step n cur (TrimSuffix (if n = 1 \<and> HasPrefix l bom then drop 3 l else l) [cr])) ls"

definition open_span :: "string \<Rightarrow> span" where
  "open_span src = span_after 1 Outside (text_lines src)"

definition state_span :: "tzstate \<Rightarrow> span" where
  "state_span st = (if inBlockComment st then InComment (commentStartLine st)
     else if inTripleQuote st then InLiteral (tripleStartLine st) else Outside)"

lemma HasPrefix_Nil_Cons [simp]: "\<not> HasPrefix [] (c # cs)"
  by (simp add: HasPrefix_def)

lemma tz_body_span:
  "tz_ok st \<Longrightarrow> state_span (tz_body st raw) = span_step (lineNum st) (state_span st) raw"
  by (auto simp: tz_ok_def tz_body_def state_span_def span_step_def opens_literal_def Let_def emit_def
      odd_iff_mod_2_eq_one)

lemma tz_line_span:
  assumes "tz_ok st"
  shows "state_span (tz_line st raw) = span_step (lineNum st) (state_span st)
    (TrimSuffix (if lineNum st = 1 \<and> HasPrefix raw bom then drop 3 raw else raw) [cr])"
proof -
  have "state_span (st'\<lparr>lineNum := k\<rparr>) = state_span st'" for st' k by (simp add: state_span_def)
  then show ?thesis unfolding tz_line_def Let_def by (simp add: tz_body_span [OF assms])
qed

lemma run_span: "tz_ok st \<Longrightarrow> state_span (foldl tz_line st ls) = span_after (lineNum st) (state_span st) ls"
  by (induction ls arbitrary: st) (simp_all add: tz_line_ok tz_line_span del: One_nat_def)

lemma tz_loop_span: "state_span (tz_loop tz_init src) = open_span src"
  by (simp add: tz_loop_foldl run_span [OF tz_init_ok] open_span_def)
    (simp add: tz_init_def state_span_def)

lemma tz_line_complete:
  "list_all (\<lambda>t. \<not> is_unterminated t) (tokens st) \<Longrightarrow> list_all (\<lambda>t. \<not> is_unterminated t) (tokens (tz_line st raw))"
  by (simp add: tz_line_def tz_body_def Let_def emit_def zero_token_def)

interpretation complete_machine: step_invariant tz_line "\<lambda>st. list_all (\<lambda>t. \<not> is_unterminated t) (tokens st)" "\<lambda>_. True"
  by unfold_locales (rule tz_line_complete)

lemma tz_loop_complete: "filter is_unterminated (tokens (tz_loop tz_init src)) = []"
  using complete_machine.run_inv [of tz_init "text_lines src"]
  by (simp add: tz_loop_foldl tz_init_def list_all_iff filter_empty_conv)

definition span_report :: "span \<Rightarrow> (nat \<times> string) list" where
  "span_report cur = (case cur of
     Outside \<Rightarrow> []
   | InComment n \<Rightarrow> [(n, ''unterminated block comment: /# was never closed by #/'')]
   | InLiteral n \<Rightarrow> [(n, ''unterminated triple-quoted string: '' @ triple @ '' was never closed'')])"

lemma unterminatedToken_simps [simp]:
  "tkLine (unterminatedToken l i msg) = l" "tkName (unterminatedToken l i msg) = msg"
  by (simp_all add: unterminatedToken_def)

lemma tokenize_unterminated:
  "map (\<lambda>t. (tkLine t, tkName t)) (filter is_unterminated (Tokenize src)) = span_report (open_span src)"
proof (cases "src = []")
  case True
  then show ?thesis by (simp add: Tokenize_def open_span_def span_report_def)
next
  case False
  have "\<not> (inBlockComment (tz_loop tz_init src) \<and> inTripleQuote (tz_loop tz_init src))"
    using tz_loop_ok by (simp add: tz_ok_def)
  with False show ?thesis
    by (auto simp: Tokenize_def Let_def tz_loop_complete tz_flush_def span_report_def state_span_def
        simp flip: tz_loop_span)
qed

section \<open>Properties\<close>

text \<open>
  C7: the tokenizer loses no line and reads none twice: every token stands for at least its own
  line, and the lines the tokens span, in order, are 1, 2, ..., up to the number of lines of the
  text (the diagnostic of an unterminated span stands for no line of its own).
\<close>

theorem tokenize_covers_every_line:
  "tok_lines (Tokenize src) = [1 ..< Suc (lineCount src)] \<and>
   list_all (\<lambda>t. tok_span t \<noteq> [] \<and> hd (tok_span t) = tkLine t) (Tokenize src)"
  using tokenize_lines tokenize_spans [of src] tok_span_Cons by (fastforce simp: list_all_iff)

end
