(* ===== verification/Models.thy ===== *)
theory Models
  imports Go_Strings "HOL-Library.AList"
begin

text \<open>
  core/models: the parsed flow. A \<open>map[string]string\<close> is an association list with
  distinct keys, written with \<open>AList.update\<close>; reading a missing key gives the empty
  string (\<open>getprop\<close>), as Go's map index does. Parse times are not modelled.
\<close>

datatype BlockType =
    BlockTypeAction | BlockTypeLoop | BlockTypeCondition | BlockTypeSubflow
  | BlockTypeErrorHandler | BlockTypeComment | BlockTypeVariable | BlockTypeWait
  | BlockTypeElse | BlockTypeCase | BlockTypeDefault | BlockTypeBlock | BlockTypeSwitch
  | BlockTypeEnd | BlockTypeUnknown

text \<open>The string behind each constant of the Go type.\<close>

fun BlockType_string :: "BlockType \<Rightarrow> string" where
  "BlockType_string BlockTypeAction = ''ACTION''"
| "BlockType_string BlockTypeLoop = ''LOOP''"
| "BlockType_string BlockTypeCondition = ''CONDITION''"
| "BlockType_string BlockTypeSubflow = ''SUBFLOW''"
| "BlockType_string BlockTypeErrorHandler = ''ERROR_HANDLER''"
| "BlockType_string BlockTypeComment = ''COMMENT''"
| "BlockType_string BlockTypeVariable = ''VARIABLE''"
| "BlockType_string BlockTypeWait = ''WAIT''"
| "BlockType_string BlockTypeElse = ''ELSE''"
| "BlockType_string BlockTypeCase = ''CASE''"
| "BlockType_string BlockTypeDefault = ''DEFAULT''"
| "BlockType_string BlockTypeBlock = ''BLOCK''"
| "BlockType_string BlockTypeSwitch = ''SWITCH''"
| "BlockType_string BlockTypeEnd = ''END''"
| "BlockType_string BlockTypeUnknown = ''UNKNOWN''"

record BlockToken =
  btType :: string
  btValue :: string
  btTarget :: string

type_synonym properties = "(string \<times> string) list"

definition getprop :: "properties \<Rightarrow> string \<Rightarrow> string" where
  "getprop ps k = (case map_of ps k of None \<Rightarrow> [] | Some v \<Rightarrow> v)"

text \<open>The fields of a block other than its children.\<close>

record block_info =
  bID :: string
  bName :: string
  bType :: BlockType
  bRawType :: string
  bIndent :: nat
  bLineNumber :: nat
  bEndLineNumber :: nat
  bProperties :: properties
  bVariables :: "string list"
  bTokens :: "BlockToken list"
  bParentID :: string
  bSubflowID :: string

text \<open>The value tree (\<open>Children []Block\<close>) that a finished document holds.\<close>

datatype Block = Block (binfo: block_info) (Children: "Block list")

record VariableDecl =
  vdName :: string
  vdType :: string
  vdInitialValue :: string
  vdScope :: string

record Subflow =
  sfID :: string
  sfName :: string
  sfSourceFile :: string
  sfBlocks :: "Block list"
  sfVariables :: "VariableDecl list"

record ParseError =
  peLine :: nat
  peColumn :: nat
  peMessage :: string
  peSeverity :: string
  peSnippet :: string

record FlowMetadata =
  BlockCount :: nat
  SubflowCount :: nat
  MaxDepth :: nat
  FileSize :: nat
  RawLineCount :: nat

record FlowFileInfo =
  ffPath :: string
  ffName :: string
  ffSize :: nat

text \<open>
  \<open>BlocksByID\<close> and \<open>BlockSubflow\<close> hold pointers into the tree; here they hold the
  blocks and the subflows.
\<close>

record FlowDocument =
  docID :: string
  docName :: string
  StableID :: string
  FilePath :: string
  Subflows :: "Subflow list"
  ParseErrors :: "ParseError list"
  Metadata :: FlowMetadata
  Files :: "FlowFileInfo list"
  IsFolder :: bool
  BlocksByID :: "(string \<times> Block) list"
  BlockSubflow :: "(string \<times> Subflow) list"
  SubflowsByID :: "(string \<times> Subflow) list"

section \<open>Walking a tree\<close>

text \<open>The blocks of a forest in the order a depth-first walk meets them.\<close>

primrec preorder :: "Block \<Rightarrow> Block list" where
  "preorder (Block b cs) = Block b cs # concat (map preorder cs)"

definition forest_blocks :: "Block list \<Rightarrow> Block list" where
  "forest_blocks bs = concat (map preorder bs)"

lemma forest_blocks_simps [simp]:
  "forest_blocks [] = []"
  "forest_blocks (b # bs) = preorder b @ forest_blocks bs"
  "forest_blocks (bs @ cs) = forest_blocks bs @ forest_blocks cs"
  by (simp_all add: forest_blocks_def)

lemma preorder_eq: "preorder b = b # forest_blocks (Children b)"
  by (cases b) (simp add: forest_blocks_def)

lemma getprop_update [simp]: "getprop (AList.update k v ps) k' = (if k' = k then v else getprop ps k')"
  by (simp add: getprop_def update_conv')

end
