(* ===== verification/Extractors.thy ===== *)
theory Extractors
  imports Grammar Models
begin

text \<open>
  core/parser/extractors.go: the \<open>Key: Value\<close> properties, the output variable and the
  variables of an action line. As in \<open>Grammar\<close>, a scanning position is the suffix of
  the text that starts at it.
\<close>

section \<open>Scanners\<close>

definition isKeyChar :: "char \<Rightarrow> bool" where
  "isKeyChar ch \<longleftrightarrow> is_lower ch \<or> is_upper ch \<or> is_digit ch \<or> ch = CHR ''_'' \<or> ch = CHR ''.''"

text \<open>What must follow a run of key characters for it to be a key: a colon, then a blank or the end.\<close>

fun key_boundary :: "string \<Rightarrow> bool" where
  "key_boundary [] = False"
| "key_boundary (d # s) = (d = CHR '':'' \<and> (s = [] \<or> hd s = sp \<or> hd s = tab))"

text \<open>The key and the text just past its colon; the empty key when there is none.\<close>

fun findNextKey :: "string \<Rightarrow> string \<times> string" where
  "findNextKey [] = ([], [])"
| "findNextKey (c # s) =
     (if \<not> isKeyChar c then findNextKey s
      else (case dropWhile isKeyChar s of
          [] \<Rightarrow> ([], [])
        | d # rest \<Rightarrow>
            if d \<noteq> CHR '':'' then findNextKey (d # rest)
            else if rest = [] \<or> hd rest = sp \<or> hd rest = tab
              then (c # takeWhile isKeyChar s, rest)
            else findNextKey rest))"

fun findTripleQuoteEnd :: "string \<Rightarrow> nat option" where
  "findTripleQuoteEnd [] = None"
| "findTripleQuoteEnd (c # s) =
     (if HasPrefix (c # s) triple then Some 3 else map_option Suc (findTripleQuoteEnd s))"

text \<open>Length of a value, up to the next key or the end; quoted sections are skipped whole.\<close>

fun scan_value :: "string \<Rightarrow> nat" where
  "scan_value [] = 0"
| "scan_value (ch # s) =
     (if ch = CHR ''$'' \<and> HasPrefix s triple then
        (case findTripleQuoteEnd (drop 3 s) of
           None \<Rightarrow> Suc (length s)
         | Some e \<Rightarrow> 4 + e + scan_value (drop (3 + e) s))
      else if ch = quote \<and> HasPrefix s [quote, quote] then
        (case findTripleQuoteEnd (drop 2 s) of
           None \<Rightarrow> Suc (length s)
         | Some e \<Rightarrow> 3 + e + scan_value (drop (2 + e) s))
      else if isKeyChar ch then
        (if key_boundary (dropWhile isKeyChar s) then 0
         else Suc (length (takeWhile isKeyChar s)) + scan_value (dropWhile isKeyChar s))
      else Suc (scan_value s))"

definition findValueEnd :: "string \<Rightarrow> nat" where
  "findValueEnd s =
     (let blank = (\<lambda>c. c = sp \<or> c = tab) in
      length (takeWhile blank s) + scan_value (dropWhile blank s))"

definition stripQuotes :: "string \<Rightarrow> string" where
  "stripQuotes s =
     (if HasPrefix s (CHR ''$'' # triple) \<and> HasSuffix s triple \<and> length s > 6
        then slice s 4 (length s - 3)
      else if HasPrefix s triple \<and> HasSuffix s triple \<and> length s > 5
        then slice s 3 (length s - 3)
      else if 2 \<le> length s \<and> hd s = quote \<and> last s = quote then slice s 1 (length s - 1)
      else if 2 \<le> length s \<and> hd s = dquote \<and> last s = dquote then slice s 1 (length s - 1)
      else s)"

lemma findNextKey_shorter: "findNextKey s = (k, r) \<Longrightarrow> k \<noteq> [] \<Longrightarrow> length r < length s"
proof (induction s arbitrary: k r rule: findNextKey.induct)
  case 1
  then show ?case by simp
next
  case (2 c s)
  show ?case
  proof (cases "isKeyChar c")
    case False
    with "2.IH"(1) "2.prems" show ?thesis by (auto intro: less_SucI)
  next
    case True
    show ?thesis
    proof (cases "dropWhile isKeyChar s")
      case Nil
      with True "2.prems" show ?thesis by (simp del: dropWhile_eq_Nil_conv)
    next
      case (Cons d rest)
      have "length (d # rest) \<le> length s"
        unfolding Cons [symmetric] by (rule length_dropWhile_le)
      with True Cons "2.IH"(2,3) "2.prems" show ?thesis by (fastforce split: if_splits)
    qed
  qed
qed

function extractKeyValuePairs :: "string \<Rightarrow> properties \<Rightarrow> properties" where
  "extractKeyValuePairs src props =
     (if src = [] then props
      else (case findNextKey src of (key, rest) \<Rightarrow>
        if key = [] then props
        else (let n = findValueEnd rest;
                  value = stripQuotes (TrimSpace (take n rest))
              in extractKeyValuePairs (drop n rest) (AList.update key value props))))"
  by pat_completeness auto
termination
  by (relation "measure (\<lambda>(src, props). length src)")
     (auto dest!: findNextKey_shorter [OF sym] intro: less_imp_diff_less)

declare extractKeyValuePairs.simps [simp del]

section \<open>Properties and variables of a line\<close>

definition parseProperties :: "string \<Rightarrow> properties" where
  "parseProperties raw =
     (let props = (case FindStringSubmatch reOutputVar raw of
                     Some m \<Rightarrow> AList.update ''_output'' (group_text m 1) []
                   | None \<Rightarrow> []);
          cleaned = TrimSpace (DeleteAllString reOutputVar raw)
      in if \<not> Contains cleaned '':'' then props else extractKeyValuePairs cleaned props)"

text \<open>\<open>strings.ReplaceAll(raw, "%%", "\x00\x00")\<close>.\<close>

fun mask_percent :: "string \<Rightarrow> string" where
  "mask_percent [] = []"
| "mask_percent (c # s) =
     (if c = CHR ''%'' \<and> s \<noteq> [] \<and> hd s = CHR ''%'' then CHR 0x00 # CHR 0x00 # mask_percent (drop 1 s)
      else c # mask_percent s)"

text \<open>
  An identifier of a masked expression is a variable unless a dot precedes it (a property),
  a parenthesis follows it (a function) or it is an operator or constant.
\<close>

definition is_property_at :: "string \<Rightarrow> nat \<Rightarrow> bool" where
  "is_property_at masked start \<longleftrightarrow> 0 < start \<and> masked ! (start - 1) = CHR ''.''"

definition is_call_at :: "string \<Rightarrow> nat \<Rightarrow> bool" where
  "is_call_at masked end' =
     (case dropWhile (\<lambda>c. c = sp \<or> c = tab) (drop end' masked) of
        [] \<Rightarrow> False
      | c # _ \<Rightarrow> c = CHR ''('')"

definition is_variable_match :: "string \<Rightarrow> rmatch \<Rightarrow> bool" where
  "is_variable_match masked m \<longleftrightarrow> \<not> is_property_at masked (mstart m) \<and>
     \<not> is_call_at masked (mend m) \<and> \<not> isExpressionKeyword (group_text m 0)"

definition expression_variables :: "string \<Rightarrow> string list" where
  "expression_variables expression =
     (let masked = maskStrings expression in
      map (\<lambda>m. group_text m 0)
        (filter (is_variable_match masked) (FindAllStringSubmatchIndex reIdentifier masked)))"

definition add_var :: "string list \<Rightarrow> string \<Rightarrow> string list" where
  "add_var vars v = (if v \<in> set vars then vars else vars @ [v])"

definition extractVariables :: "string \<Rightarrow> string list" where
  "extractVariables raw =
     foldl add_var []
       (concat (map (\<lambda>m. expression_variables (group_text m 1))
          (FindAllStringSubmatchIndex reVariableRef (mask_percent raw))))"

definition output_writers :: "string list" where
  "output_writers =
     [''Variables.SetVariable'', ''Variables.IncreaseVariable'', ''Variables.DecreaseVariable'',
      ''Variables.AddItemToList'', ''Variables.RemoveItemFromList'', ''Variables.SortList'',
      ''Variables.ShuffleList'', ''Variables.MergeLists'', ''Variables.ReverseList'',
      ''Variables.RemoveDuplicateItemsFromList'', ''Variables.FindCommonListItems'',
      ''Variables.SubtractLists'', ''Variables.ClearList'']"

definition normalizeVariableOutput :: "block_info \<Rightarrow> block_info" where
  "normalizeVariableOutput blk =
     (if bRawType blk \<in> set output_writers then
        (case map_of (bProperties blk) ''Name'' of
           None \<Rightarrow> blk
         | Some name \<Rightarrow>
             if name = [] then blk
             else (let bare = (if HasPrefix name ''%'' \<and> HasSuffix name ''%'' \<and> 2 < length name
                               then slice name 1 (length name - 1) else name)
                   in if \<not> Contains bare ''%'' \<and> bare \<noteq> []
                      then blk\<lparr>bProperties := AList.update ''_output'' bare (bProperties blk)\<rparr>
                      else blk))
      else blk)"

section \<open>The key scan is the naive scan\<close>

text \<open>
  The reference scan: on a failed match, try again one byte further. The code resumes at
  the end of the run instead; both find the same key, since every shorter run ends where
  the whole run does.
\<close>

fun naiveNextKey :: "string \<Rightarrow> string \<times> string" where
  "naiveNextKey [] = ([], [])"
| "naiveNextKey (c # s) =
     (if isKeyChar c \<and> key_boundary (dropWhile isKeyChar s)
      then (c # takeWhile isKeyChar s, tl (dropWhile isKeyChar s))
      else naiveNextKey s)"

lemma colon_not_key [simp]: "\<not> isKeyChar (CHR '':'')"
  by code_simp

lemma naive_skips_run:
  "\<not> key_boundary (dropWhile isKeyChar s) \<Longrightarrow> naiveNextKey s = naiveNextKey (dropWhile isKeyChar s)"
  by (induction s) auto

text \<open>
  the key scanner, which jumps over a whole run of key characters when no boundary follows
  it, finds the same key and the same rest as the scan that retries at every position.
\<close>

theorem findNextKey_eq_naive: "findNextKey s = naiveNextKey s"
proof (induction s rule: findNextKey.induct)
  case 1
  show ?case by simp
next
  case (2 c s)
  show ?case
  proof (cases "isKeyChar c")
    case False
    with 2(1) show ?thesis by simp
  next
    case True
    show ?thesis
    proof (cases "dropWhile isKeyChar s")
      case Nil
      with True naive_skips_run [of s] show ?thesis by (simp del: dropWhile_eq_Nil_conv)
    next
      case (Cons d rest)
      show ?thesis
      proof (cases "key_boundary (d # rest)")
        case True': True
        with True Cons show ?thesis by auto
      next
        case False
        have "naiveNextKey s = naiveNextKey (d # rest)"
          using naive_skips_run [of s] False by (simp add: Cons)
        with True Cons False 2(2,3) show ?thesis by (cases "d = CHR '':''") auto
      qed
    qed
  qed
qed

end
