(* ===== verification/Block_Tokens.thy ===== *)
theory Block_Tokens
  imports Tokenizer Extractors
begin

text \<open>
  core/parser/parser.go, from a token to a block: the display tokens of a block
  (\<open>tokenizeBlock\<close> and its helpers) and \<open>newBlock\<close>. The identifier of a new block
  comes from a third-party package and is an argument.
\<close>

section \<open>Case-insensitive trimming\<close>

definition trimPrefixFold :: "string \<Rightarrow> string \<Rightarrow> string" where
  "trimPrefixFold s p =
     (if length p \<le> length s \<and> EqualFold (take (length p) s) p then drop (length p) s else s)"

definition trimSuffixFold :: "string \<Rightarrow> string \<Rightarrow> string" where
  "trimSuffixFold s p =
     (if length p \<le> length s \<and> EqualFold (drop (length s - length p) s) p
      then take (length s - length p) s else s)"

section \<open>Display tokens\<close>

definition text_tok :: "string \<Rightarrow> BlockToken" where
  "text_tok v = \<lparr>btType = ''text'', btValue = v, btTarget = []\<rparr>"

definition string_tok :: "string \<Rightarrow> BlockToken" where
  "string_tok v = \<lparr>btType = ''string'', btValue = v, btTarget = []\<rparr>"

definition variable_tok :: "string \<Rightarrow> string \<Rightarrow> BlockToken" where
  "variable_tok v target = \<lparr>btType = ''variable'', btValue = v, btTarget = target\<rparr>"

text \<open>A literal as the user interface shows it, between double quotes.\<close>

definition display_literal :: "string \<Rightarrow> string" where
  "display_literal val =
     (if HasPrefix val (CHR ''$'' # triple) \<and> HasSuffix val triple
        then [dquote] @ slice val 4 (length val - 3) @ [dquote]
      else if HasPrefix val triple \<and> HasSuffix val triple
        then [dquote] @ slice val 3 (length val - 3) @ [dquote]
      else if HasPrefix val [quote] \<and> HasSuffix val [quote] \<or>
              HasPrefix val [dquote] \<and> HasSuffix val [dquote]
        then [dquote] @ slice val 1 (length val - 1) @ [dquote]
      else val)"

fun string_tokens :: "string \<Rightarrow> nat \<Rightarrow> rmatch list \<Rightarrow> BlockToken list" where
  "string_tokens src lastPos [] =
     (if lastPos < length src then [text_tok (drop lastPos src)] else [])"
| "string_tokens src lastPos (m # ms) =
     (if lastPos < mstart m then [text_tok (slice src lastPos (mstart m))] else [])
     @ string_tok (display_literal (group_text m 0)) # string_tokens src (mend m) ms"

definition tokenizeStrings :: "string \<Rightarrow> BlockToken list" where
  "tokenizeStrings src =
     (let matches = FindAllStringSubmatchIndex reStringLiteral src in
      if matches = [] then [text_tok src] else string_tokens src 0 matches)"

text \<open>The first variable of an expression is its target, the empty string when it has none.\<close>

definition expression_target :: "string \<Rightarrow> string" where
  "expression_target e = (case expression_variables e of [] \<Rightarrow> [] | v # _ \<Rightarrow> v)"

fun variable_tokens :: "string \<Rightarrow> nat \<Rightarrow> rmatch list \<Rightarrow> BlockToken list" where
  "variable_tokens src lastPos [] =
     (if lastPos < length src then tokenizeStrings (drop lastPos src) else [])"
| "variable_tokens src lastPos (m # ms) =
     (if lastPos < mstart m then tokenizeStrings (slice src lastPos (mstart m)) else [])
     @ variable_tok (group_text m 0) (expression_target (group_text m 1))
       # variable_tokens src (mend m) ms"

definition tokenizeVariables :: "string \<Rightarrow> BlockToken list" where
  "tokenizeVariables src =
     (if src = [] then []
      else variable_tokens src 0 (FindAllStringSubmatchIndex reVariableRef src))"

definition percent :: "string \<Rightarrow> string" where
  "percent v = ''%'' @ v @ ''%''"

definition opt_tokens :: "string \<Rightarrow> BlockToken list" where
  "opt_tokens v = (if v \<noteq> [] then tokenizeVariables v else [])"

text \<open>Target of a subflow call block, the empty string when it cannot be told.\<close>

definition call_target :: "block_info \<Rightarrow> string" where
  "call_target blk =
     (if bRawType blk = ''CALL'' \<or> bRawType blk = ''DISABLED_CALL'' then
        (if HasPrefix (bName blk) ''Call ''
         then TrimSuffix (TrimPrefix (bName blk) ''Call '') '' (disabled)'' else [])
      else if bRawType blk = ''FlowControl.RunSubflow''
        then getprop (bProperties blk) ''SubflowName''
      else if bRawType blk = ''FlowControl.RunDesktopFlow''
        then getprop (bProperties blk) ''DesktopFlow''
      else [])"

text \<open>Name and value of a variable block, with the fallbacks of the source.\<close>

definition var_name_of :: "block_info \<Rightarrow> string" where
  "var_name_of blk =
     (let n = getprop (bProperties blk) ''_var''
      in if n = [] then getprop (bProperties blk) ''Name'' else n)"

definition var_value_of :: "block_info \<Rightarrow> string" where
  "var_value_of blk =
     (let v = getprop (bProperties blk) ''_value''
      in if v = [] then getprop (bProperties blk) ''Value'' else v)"

definition list_name_types :: "block_info \<Rightarrow> bool" where
  "list_name_types blk \<longleftrightarrow> bRawType blk = ''Variables.ReverseList'' \<or>
     HasPrefix (bRawType blk) ''Variables.SortList''"

text \<open>The last part of \<open>tokenizeBlock\<close>: keywords stripped from the name, by block type.\<close>

definition tokenize_by_type :: "block_info \<Rightarrow> BlockToken list" where
  "tokenize_by_type blk =
     (let name = bName blk in
      case bType blk of
        BlockTypeCondition \<Rightarrow>
          tokenizeVariables (trimSuffixFold (trimPrefixFold name ''IF '') '' THEN'')
      | BlockTypeLoop \<Rightarrow>
          (case FindStringSubmatch reLoopForEach name of
             Some m \<Rightarrow>
               tokenizeVariables (percent (group_text m 1)) @ [text_tok '' IN '']
               @ (if group_text m 3 \<noteq> [] then tokenizeVariables (percent (group_text m 3)) else [])
           | None \<Rightarrow>
             (case FindStringSubmatch reLoopRange name of
                Some m \<Rightarrow>
                  tokenizeVariables (percent (group_text m 1)) @ [text_tok '' FROM '']
                  @ tokenizeVariables (group_text m 2) @ [text_tok '' TO '']
                  @ tokenizeVariables (group_text m 3)
                  @ (if group_text m 4 \<noteq> [] then text_tok '' STEP '' # tokenizeVariables (group_text m 4)
                     else [])
              | None \<Rightarrow>
                  tokenizeVariables
                    (trimPrefixFold (trimPrefixFold (trimPrefixFold name ''LOOP FOREACH '')
                       ''LOOP WHILE '') ''LOOP '')))
      | BlockTypeSwitch \<Rightarrow>
          (let n = trimPrefixFold name ''SWITCH '' in
           tokenizeVariables
             (if \<not> Contains n ''%'' \<and> \<not> Contains n [quote] \<and> \<not> Contains n [dquote]
              then percent n else n))
      | BlockTypeCase \<Rightarrow> tokenizeVariables (trimPrefixFold name ''CASE '')
      | _ \<Rightarrow> tokenizeVariables name)"

definition tokenizeBlock :: "block_info \<Rightarrow> BlockToken list" where
  "tokenizeBlock blk =
     (let ps = bProperties blk; rt = bRawType blk; list = getprop ps ''List'' in
      if bType blk = BlockTypeComment then [text_tok (bName blk)]
      else if rt = ''GOTO'' \<or> rt = ''LABEL'' then
        [text_tok (if rt = ''LABEL'' then ''LABEL '' else ''GOTO ''),
         \<lparr>btType = ''label'', btValue = bName blk, btTarget = bName blk\<rparr>]
      else if call_target blk \<noteq> [] then
        [\<lparr>btType = ''subflow'', btValue = call_target blk, btTarget = call_target blk\<rparr>]
      else if bType blk = BlockTypeVariable \<and> var_name_of blk \<noteq> [] then
        tokenizeVariables (percent (var_name_of blk)) @ [text_tok '' = '']
        @ (if var_value_of blk \<noteq> [] then tokenizeVariables (var_value_of blk)
           else [text_tok [quote, quote]])
      else if rt = ''Variables.IncreaseVariable'' \<and> getprop ps ''Value'' \<noteq> [] then
        tokenizeVariables (percent (getprop ps ''Value'')) @ [text_tok '' += '']
        @ opt_tokens (getprop ps ''IncrementValue'')
      else if rt = ''Variables.DecreaseVariable'' \<and> getprop ps ''Value'' \<noteq> [] then
        tokenizeVariables (percent (getprop ps ''Value'')) @ [text_tok '' -= '']
        @ opt_tokens (getprop ps ''DecrementValue'')
      else if rt = ''Variables.AddItemToList'' \<and> list \<noteq> [] then
        tokenizeVariables (percent list) @ [text_tok [sp, CHR 0xE2, CHR 0x86, CHR 0x90, sp]]
        @ opt_tokens (getprop ps ''Item'')
      else if list_name_types blk \<and> list \<noteq> [] then tokenizeVariables (percent list)
      else if rt = ''Variables.CreateNewList'' \<and> getprop ps ''_output'' \<noteq> [] then
        tokenizeVariables (percent (getprop ps ''_output''))
      else if rt = ''Variables.ClearList'' \<and> list \<noteq> [] then tokenizeVariables (percent list)
      else if HasPrefix rt ''Variables.RemoveItemFromList'' \<and> list \<noteq> [] then
        tokenizeVariables (percent list) @ [text_tok ''['']
        @ opt_tokens (getprop ps ''ItemIndex'') @ [text_tok '']'']
      else if HasPrefix rt ''Variables.RemoveDuplicateItemsFromList'' \<and> list \<noteq> []
        then tokenizeVariables (percent list)
      else tokenize_by_type blk)"

section \<open>New blocks\<close>

definition newBlock :: "string \<Rightarrow> Token \<Rightarrow> string \<Rightarrow> BlockType \<Rightarrow> block_info" where
  "newBlock nid tok subflowID blockType =
     (let props = parseProperties (tkRaw tok);
          props = (if tkSetVarName tok \<noteq> [] then
                     AList.update ''_output'' (tkSetVarName tok)
                       (AList.update ''_value'' (tkSetVarValue tok)
                          (AList.update ''_var'' (tkSetVarName tok) props))
                   else props);
          blk = normalizeVariableOutput
                  \<lparr>bID = nid, bName = tkName tok, bType = blockType, bRawType = tkRawType tok,
                   bIndent = tkIndent tok, bLineNumber = tkLine tok,
                   bEndLineNumber = tkEndLine tok, bProperties = props,
                   bVariables = extractVariables (tkRaw tok), bTokens = [], bParentID = [],
                   bSubflowID = subflowID\<rparr>
      in blk\<lparr>bTokens := tokenizeBlock blk\<rparr>)"

text \<open>The function \<open>truncate\<close>: it counts runes, but only when the bytes are already too many.\<close>

definition truncateRunes :: "string \<Rightarrow> nat \<Rightarrow> string" where
  "truncateRunes s maxLen =
     (if length s \<le> maxLen then s
      else if length (runes s) \<le> maxLen then s
      else concat (take maxLen (runes s)))"

section \<open>Facts\<close>

lemma normalizeVariableOutput_frame [simp]:
  "bID (normalizeVariableOutput b) = bID b"
  "bName (normalizeVariableOutput b) = bName b"
  "bType (normalizeVariableOutput b) = bType b"
  "bRawType (normalizeVariableOutput b) = bRawType b"
  "bIndent (normalizeVariableOutput b) = bIndent b"
  "bLineNumber (normalizeVariableOutput b) = bLineNumber b"
  "bEndLineNumber (normalizeVariableOutput b) = bEndLineNumber b"
  "bParentID (normalizeVariableOutput b) = bParentID b"
  "bSubflowID (normalizeVariableOutput b) = bSubflowID b"
  by (auto simp: normalizeVariableOutput_def Let_def split: option.split)

lemma newBlock_frame [simp]:
  "bID (newBlock nid tok sf t) = nid"
  "bName (newBlock nid tok sf t) = tkName tok"
  "bType (newBlock nid tok sf t) = t"
  "bRawType (newBlock nid tok sf t) = tkRawType tok"
  "bIndent (newBlock nid tok sf t) = tkIndent tok"
  "bLineNumber (newBlock nid tok sf t) = tkLine tok"
  "bEndLineNumber (newBlock nid tok sf t) = tkEndLine tok"
  "bParentID (newBlock nid tok sf t) = []"
  "bSubflowID (newBlock nid tok sf t) = sf"
  by (simp_all add: newBlock_def Let_def)

end
