(* ===== verification/Classifier.thy ===== *)
theory Classifier
  imports Models "HOL-Library.Multiset"
begin

text \<open>
  core/parser/classifier.go: from a raw action type to a block type, by exact keyword,
  by upper-cased keyword, then by the longest module prefix. The rules are sorted by
  \<open>sort.Slice\<close>, which is not stable: \<open>prefixRules\<close> is one order it may give, and the
  lookup is shown not to depend on which.
\<close>

section \<open>Tables\<close>

definition exactMap :: "(string \<times> BlockType) list" where
  "exactMap =
    [(''Loop'', BlockTypeLoop), (''LOOP'', BlockTypeLoop),
     (''If'', BlockTypeCondition), (''IF'', BlockTypeCondition),
     (''Else'', BlockTypeCondition), (''ELSE'', BlockTypeCondition),
     (''Subflow'', BlockTypeSubflow), (''Run subflow'', BlockTypeSubflow),
     (''Call subflow'', BlockTypeSubflow), (''Region'', BlockTypeSubflow),
     (''SUBFLOW'', BlockTypeSubflow), (''CALL'', BlockTypeSubflow),
     (''DISABLED_CALL'', BlockTypeSubflow),
     (''OnBlockError'', BlockTypeErrorHandler), (''On block error'', BlockTypeErrorHandler),
     (''Try'', BlockTypeErrorHandler), (''Catch'', BlockTypeErrorHandler),
     (''BLOCK'', BlockTypeBlock), (''SWITCH'', BlockTypeSwitch),
     (''COMMENT'', BlockTypeComment), (''Comment'', BlockTypeComment),
     (''SET'', BlockTypeVariable), (''Set variable'', BlockTypeVariable),
     (''WAIT'', BlockTypeWait), (''Wait'', BlockTypeWait),
     (''GOTO'', BlockTypeAction), (''LABEL'', BlockTypeAction), (''EXIT'', BlockTypeAction),
     (''EXIT_LOOP'', BlockTypeAction), (''NEXT_LOOP'', BlockTypeAction),
     (''ERROR_CAPTURE'', BlockTypeAction)]"

type_synonym prefixEntry = "string \<times> BlockType"

definition action_rules :: "string list \<Rightarrow> prefixEntry list" where
  "action_rules ps = map (\<lambda>p. (p, BlockTypeAction)) ps"

definition raw_rules :: "prefixEntry list" where
  "raw_rules =
    [(''UIAutomation.IfWindow'', BlockTypeCondition), (''UIAutomation.If'', BlockTypeCondition),
     (''System.IfProcess'', BlockTypeCondition), (''System.If'', BlockTypeCondition),
     (''Variables.If'', BlockTypeCondition), (''Display.If'', BlockTypeCondition),
     (''Text.If'', BlockTypeCondition), (''Variables.Else'', BlockTypeCondition),
     (''Display.Else'', BlockTypeCondition), (''Text.Else'', BlockTypeCondition),
     (''FlowControl.RunSubflow'', BlockTypeSubflow),
     (''FlowControl.RunDesktopFlow'', BlockTypeSubflow), (''FlowControl.Run'', BlockTypeSubflow),
     (''Loop.'', BlockTypeLoop)]
    @ action_rules
      [''Variables.CreateNewList'', ''Variables.ClearList'', ''Variables.AddItemToList'',
       ''Variables.RemoveItemFromList'', ''Variables.SortList'', ''Variables.ShuffleList'',
       ''Variables.MergeLists'', ''Variables.ReverseList'',
       ''Variables.RemoveDuplicateItemsFromList'', ''Variables.FindCommonListItems'',
       ''Variables.SubtractLists'', ''Variables.IncreaseVariable'', ''Variables.DecreaseVariable'',
       ''Variables.GenerateRandomNumber'', ''Variables.TruncateNumber'']
    @ [(''Variables.'', BlockTypeVariable), (''DataTable.'', BlockTypeVariable),
       (''Synchronization.'', BlockTypeWait)]
    @ action_rules
      [''ActiveDirectory.'', ''AWS.'', ''Azure.'', ''Clipboard.'', ''Cognitiveservices.'',
       ''Compression.'', ''Cryptography.'', ''CSV.'', ''CyberArk.'', ''Database.'', ''DateTime.'',
       ''Display.'', ''Email.'', ''Excel.'', ''Exchange.'', ''File.'', ''FlowControl.'',
       ''Folder.'', ''FTP.'', ''GoogleCognitive.'', ''HTTPClient.'', ''IMAP.'', ''Json.'',
       ''Keyboard.'', ''Mouse.'', ''OCR.'', ''Outlook.'', ''Pdf.'', ''PowerPoint.'', ''Runbook.'',
       ''SAP.'', ''Scripting.'', ''Services.'', ''Sharepoint.'', ''System.'', ''Terminal.'',
       ''Text.'', ''UIAutomation.'', ''Web.'', ''Word.'', ''WorkstationAutomation.'', ''Xml.'']"

definition prefix_weight :: "prefixEntry \<Rightarrow> int" where
  "prefix_weight e = - int (length (fst e))"

definition prefixRules :: "prefixEntry list" where
  "prefixRules = sort_key prefix_weight raw_rules"

section \<open>Classification\<close>

definition first_prefix :: "prefixEntry list \<Rightarrow> string \<Rightarrow> prefixEntry option" where
  "first_prefix rules rawType = find (\<lambda>e. HasPrefix rawType (fst e)) rules"

definition classify_with :: "prefixEntry list \<Rightarrow> string \<Rightarrow> BlockType" where
  "classify_with rules rawType =
     (case map_of exactMap rawType of
        Some bt \<Rightarrow> bt
      | None \<Rightarrow>
        (case (if \<not> Contains rawType ''.'' then map_of exactMap (ToUpper rawType) else None) of
           Some bt \<Rightarrow> bt
         | None \<Rightarrow>
           (case first_prefix rules rawType of
              Some e \<Rightarrow> snd e
            | None \<Rightarrow> if Contains rawType ''.'' then BlockTypeAction else BlockTypeAction)))"

definition ClassifyBlockType :: "string \<Rightarrow> BlockType" where
  "ClassifyBlockType rawType = classify_with prefixRules rawType"

section \<open>Longest prefix, whatever the order of ties\<close>

text \<open>What \<open>sort.Slice\<close> promises: the same entries, longer prefixes first.\<close>

definition longest_first :: "prefixEntry list \<Rightarrow> bool" where
  "longest_first rules \<longleftrightarrow> mset rules = mset raw_rules \<and> sorted (map prefix_weight rules)"

lemma prefixRules_longest_first: "longest_first prefixRules"
  by (simp add: longest_first_def prefixRules_def)

lemma raw_rules_distinct: "distinct (map fst raw_rules)"
  by code_simp

lemma first_prefix_longest:
  assumes "sorted (map prefix_weight rules)" "first_prefix rules r = Some e"
    and "e' \<in> set rules" "HasPrefix r (fst e')"
  shows "length (fst e') \<le> length (fst e)"
  using assms
proof (induction rules)
  case Nil
  then show ?case by simp
next
  case (Cons a rules)
  then show ?case
    by (auto simp: first_prefix_def prefix_weight_def split: if_splits)
qed

lemma first_prefix_mem:
  "first_prefix rules r = Some e \<Longrightarrow> e \<in> set rules \<and> HasPrefix r (fst e)"
  by (auto simp: first_prefix_def find_Some_iff)

lemma first_prefix_None: "first_prefix rules r = None \<longleftrightarrow> (\<forall>e\<in>set rules. \<not> HasPrefix r (fst e))"
  by (auto simp: first_prefix_def find_None_iff)

lemma HasPrefix_same_length:
  "HasPrefix r p \<Longrightarrow> HasPrefix r q \<Longrightarrow> length p = length q \<Longrightarrow> p = q"
  by (simp add: HasPrefix_def)

lemma first_prefix_determined:
  assumes "longest_first rules"
  shows "first_prefix rules r = first_prefix prefixRules r"
proof (cases "first_prefix rules r")
  case None
  have "set rules = set prefixRules"
    using assms prefixRules_longest_first unfolding longest_first_def by (metis set_mset_mset)
  with None have "first_prefix prefixRules r = None" by (simp only: first_prefix_None)
  with None show ?thesis by (simp only:)
next
  case (Some e)
  have sets: "set rules = set raw_rules" "set prefixRules = set raw_rules"
    using assms prefixRules_longest_first unfolding longest_first_def by (metis set_mset_mset)+
  from Some obtain e' where e': "first_prefix prefixRules r = Some e'"
    using first_prefix_None [of prefixRules r] first_prefix_mem [of rules r e] sets by force
  note m = first_prefix_mem [OF Some] and m' = first_prefix_mem [OF e']
  have "length (fst e) = length (fst e')"
  proof (rule antisym)
    show "length (fst e) \<le> length (fst e')"
      using first_prefix_longest [OF _ e'] prefixRules_longest_first m sets
      by (auto simp: longest_first_def)
    show "length (fst e') \<le> length (fst e)"
      using first_prefix_longest [OF _ Some] assms m' sets by (auto simp: longest_first_def)
  qed
  with m m' have "fst e = fst e'" by (metis HasPrefix_same_length)
  with m m' sets have "e = e'"
    using raw_rules_distinct eq_key_imp_eq_value [of raw_rules]
    by (metis prod.collapse)
  with Some e' show ?thesis by simp
qed

text \<open>
  the block type of an action does not depend on the unstable sort: with the module prefixes
  in any order that puts longer ones first, ties in any order, every raw type is classified the
  same.
\<close>

theorem classify_independent_of_tie_order:
  "longest_first rules \<Longrightarrow> classify_with rules rawType = ClassifyBlockType rawType"
  unfolding ClassifyBlockType_def classify_with_def by (simp only: first_prefix_determined)

theorem classify_independent_of_tie_order_witness:
  "longest_first (sort_key prefix_weight (rev raw_rules)) \<and>
   classify_with (sort_key prefix_weight (rev raw_rules)) ''Variables.SortListByProperty''
     = ClassifyBlockType ''Variables.SortListByProperty'' \<and>
   ClassifyBlockType ''Variables.SortListByProperty'' = BlockTypeAction"
proof -
  have l: "longest_first (sort_key prefix_weight (rev raw_rules))"
    by (simp add: longest_first_def)
  have "ClassifyBlockType ''Variables.SortListByProperty'' = BlockTypeAction" by code_simp
  with l classify_independent_of_tie_order [OF l] show ?thesis by blast
qed

text \<open>A chosen module rule is the most specific one that applies.\<close>

theorem classify_most_specific:
  assumes "map_of exactMap rawType = None" "Contains rawType ''.''"
    and "e \<in> set raw_rules" "HasPrefix rawType (fst e)"
    and "\<And>e'. e' \<in> set raw_rules \<Longrightarrow> HasPrefix rawType (fst e') \<Longrightarrow> length (fst e') \<le> length (fst e)"
  shows "ClassifyBlockType rawType = snd e"
proof -
  have set: "set prefixRules = set raw_rules" by (simp add: prefixRules_def)
  with assms(3,4) obtain e' where e': "first_prefix prefixRules rawType = Some e'"
    using first_prefix_None [of prefixRules rawType] by force
  have m': "e' \<in> set raw_rules" "HasPrefix rawType (fst e')"
    using first_prefix_mem [OF e'] set by auto
  have "length (fst e) \<le> length (fst e')"
    using first_prefix_longest [OF _ e'] prefixRules_longest_first assms(3,4) set
    by (auto simp: longest_first_def)
  with assms(5) [OF m'] have "length (fst e) = length (fst e')" by simp
  then have "fst e = fst e'" using HasPrefix_same_length assms(4) m'(2) by blast
  then have "e = e'"
    using raw_rules_distinct assms(3) m'(1) eq_key_imp_eq_value [of raw_rules]
    by (metis prod.collapse)
  with e' assms(1,2) show ?thesis by (simp add: ClassifyBlockType_def classify_with_def)
qed

text \<open>
  The upper-casing step is skipped for dotted types. That changes nothing: no keyword has
  a dot, and upper-casing keeps the dot.
\<close>

lemma exactMap_no_dot: "\<forall>k\<in>set (map fst exactMap). CHR ''.'' \<notin> set k"
  by code_simp

lemma upper_dot: "upper (CHR ''.'') = CHR ''.''"
  by code_simp

lemma ToUpper_keeps_dot: "CHR ''.'' \<in> set s \<Longrightarrow> CHR ''.'' \<in> set (ToUpper s)"
proof (induction s rule: ToUpper.induct)
  case 1
  then show ?case by simp
next
  case (2 c s)
  show ?case
  proof (cases "CHR ''.'' = c")
    case True
    then show ?thesis unfolding True [symmetric] by (subst ToUpper.simps) (simp add: upper_dot)
  next
    case False
    with "2.prems" have s: "CHR ''.'' \<in> set s" by simp
    have d: "HasPrefix s [d] \<Longrightarrow> d \<noteq> CHR ''.'' \<Longrightarrow> CHR ''.'' \<in> set (drop 1 s)" for d
      using s by (cases s) auto
    show ?thesis using 2 s d [of "CHR 0xBF"] d [of "CHR 0xB1"]
      by (auto simp: ToUpper.simps(2) [of c s])
  qed
qed

theorem classify_dotted_shortcut:
  "Contains rawType ''.'' \<Longrightarrow> map_of exactMap (ToUpper rawType) = None"
proof -
  assume "Contains rawType ''.''"
  then have "CHR ''.'' \<in> set (ToUpper rawType)"
    by (simp add: Contains_singleton ToUpper_keeps_dot)
  then have "ToUpper rawType \<notin> set (map fst exactMap)"
    using exactMap_no_dot by blast
  then show ?thesis by (simp add: map_of_eq_None_iff)
qed

end
