(* ===== verification/Parser_State.thy ===== *)
theory Parser_State
  imports Block_Tokens Classifier
begin

text \<open>
  core/parser/parser.go: the parser's state and its token handlers. The handlers build a
  tree through pointers: a block on the stack is also a node of the tree, and appending to
  its \<open>ChildPtrs\<close> changes both. The model keeps the blocks in an explicit heap, a list of
  cells indexed by address; the stack, the roots of the subflows and \<open>ChildPtrs\<close> hold
  addresses. \<open>current\<close> is the index of the open subflow in \<open>built\<close>. The stack is
  written with its top first. \<open>uuid k\<close> stands for the k-th result of \<open>uuid.NewString\<close>.
\<close>

section \<open>State\<close>

definition maxNestingDepth :: nat where
  "maxNestingDepth = 200"

type_synonym addr = nat

record cell =
  cInfo :: block_info
  ChildPtrs :: "addr list"

record stackEntry =
  seIndent :: nat
  seBlock :: addr

record builtSubflow =
  bsID :: string
  bsName :: string
  bsRoots :: "addr list"

record parseState =
  heap :: "cell list"
  built :: "builtSubflow list"
  current :: "nat option"
  parseErrors :: "ParseError list"
  stack :: "stackEntry list"
  skipNextEnd :: bool
  nextID :: nat

definition newParseState :: parseState where
  "newParseState = \<lparr>heap = [], built = [], current = None, parseErrors = [], stack = [],
     skipNextEnd = False, nextID = 0\<rparr>"

definition type_at :: "parseState \<Rightarrow> addr \<Rightarrow> BlockType" where
  "type_at s a = bType (cInfo (heap s ! a))"

definition entry_type :: "parseState \<Rightarrow> stackEntry \<Rightarrow> BlockType" where
  "entry_type s e = type_at s (seBlock e)"

text \<open>\<open>s.current.id\<close>; only read where \<open>s.current != nil\<close>.\<close>

definition current_id :: "parseState \<Rightarrow> string" where
  "current_id s = (case current s of None \<Rightarrow> [] | Some i \<Rightarrow> bsID (built s ! i))"

section \<open>Parse errors\<close>

definition add_error :: "parseState \<Rightarrow> ParseError \<Rightarrow> parseState" where
  "add_error s e = s\<lparr>parseErrors := parseErrors s @ [e]\<rparr>"

definition token_error :: "Token \<Rightarrow> string \<Rightarrow> string \<Rightarrow> ParseError" where
  "token_error tok msg sev = \<lparr>peLine = tkLine tok, peColumn = tkColumn tok, peMessage = msg,
     peSeverity = sev, peSnippet = truncateRunes (tkRaw tok) 200\<rparr>"

definition requireSubflow :: "parseState \<Rightarrow> Token \<Rightarrow> string \<Rightarrow> parseState \<times> bool" where
  "requireSubflow s tok kind =
     (if current s \<noteq> None then (s, True)
      else (add_error s (token_error tok (kind @ '' outside subflow'') ''warning''), False))"

definition stackHas :: "parseState \<Rightarrow> BlockType \<Rightarrow> bool" where
  "stackHas s t \<longleftrightarrow> list_ex (\<lambda>e. entry_type s e = t) (stack s)"

definition requireDepth :: "parseState \<Rightarrow> Token \<Rightarrow> parseState \<times> bool" where
  "requireDepth s tok =
     (if length (stack s) < maxNestingDepth then (s, True)
      else (add_error s (token_error tok ''nesting depth exceeds 200'' ''error''), False))"

definition recordMalformedLine :: "parseState \<Rightarrow> Token \<Rightarrow> parseState" where
  "recordMalformedLine s tok =
     (if tkRawType tok = ''UNTERMINATED'' then add_error s (token_error tok (tkName tok) ''error'')
      else add_error s (token_error tok ''malformed line'' ''warning''))"

definition closable :: "BlockType \<Rightarrow> bool" where
  "closable t \<longleftrightarrow> t \<in> {BlockTypeLoop, BlockTypeCondition, BlockTypeErrorHandler, BlockTypeBlock,
     BlockTypeSwitch}"

definition unclosed_error :: "parseState \<Rightarrow> stackEntry \<Rightarrow> ParseError" where
  "unclosed_error s e = (let b = cInfo (heap s ! seBlock e) in
     \<lparr>peLine = bLineNumber b, peColumn = 0, peMessage = ''unclosed block: '' @ bName b,
      peSeverity = ''error'', peSnippet = bRawType b\<rparr>)"

text \<open>The Go loop runs from the bottom of the stack to its top.\<close>

definition recordUnclosedBlocks :: "parseState \<Rightarrow> parseState" where
  "recordUnclosedBlocks s =
     s\<lparr>parseErrors := parseErrors s @
         map (unclosed_error s) (filter (\<lambda>e. closable (entry_type s e)) (rev (stack s)))\<rparr>"

section \<open>The tree\<close>

definition draw_id :: "parseState \<Rightarrow> parseState" where
  "draw_id s = s\<lparr>nextID := Suc (nextID s)\<rparr>"

text \<open>\<open>blk.ParentID = parent.ID; parent.ChildPtrs = append(parent.ChildPtrs, blk)\<close> for a new block.\<close>

definition attach_child :: "parseState \<Rightarrow> addr \<Rightarrow> block_info \<Rightarrow> parseState" where
  "attach_child s p blk =
     s\<lparr>heap := (heap s)[p := (heap s ! p)\<lparr>ChildPtrs := ChildPtrs (heap s ! p) @ [length (heap s)]\<rparr>]
         @ [\<lparr>cInfo = blk\<lparr>bParentID := bID (cInfo (heap s ! p))\<rparr>, ChildPtrs = []\<rparr>]\<rparr>"

text \<open>\<open>sf.roots = append(sf.roots, blk)\<close> for a new block.\<close>

definition attach_root :: "parseState \<Rightarrow> nat \<Rightarrow> block_info \<Rightarrow> parseState" where
  "attach_root s i blk =
     s\<lparr>heap := heap s @ [\<lparr>cInfo = blk, ChildPtrs = []\<rparr>],
       built := (built s)[i := (built s ! i)\<lparr>bsRoots := bsRoots (built s ! i) @ [length (heap s)]\<rparr>]\<rparr>"

definition push :: "parseState \<Rightarrow> nat \<Rightarrow> addr \<Rightarrow> parseState" where
  "push s ind a = s\<lparr>stack := \<lparr>seIndent = ind, seBlock = a\<rparr> # stack s\<rparr>"

definition popStack :: "stackEntry list \<Rightarrow> nat \<Rightarrow> stackEntry list" where
  "popStack st indent = dropWhile (\<lambda>e. indent \<le> seIndent e) st"

definition insertIntoTree :: "parseState \<Rightarrow> block_info \<Rightarrow> parseState" where
  "insertIntoTree s blk =
     (case stack s of
        [] \<Rightarrow> push (attach_root s (the (current s)) blk) (bIndent blk) (length (heap s))
      | e # _ \<Rightarrow> push (attach_child s (seBlock e) blk) (bIndent blk) (length (heap s)))"

text \<open>
  \<open>blk := newBlock(...); s.stack = popStack(s.stack, blk.Indent);
  s.stack = insertIntoTree(s.current, blk, s.stack)\<close>, the tail of every handler that
  opens a level.
\<close>

definition insert_popped :: "parseState \<Rightarrow> block_info \<Rightarrow> parseState" where
  "insert_popped s blk =
     insertIntoTree ((draw_id s)\<lparr>stack := popStack (stack s) (bIndent blk)\<rparr>) blk"

section \<open>Handlers\<close>

definition handleSubflowStart :: "(nat \<Rightarrow> string) \<Rightarrow> parseState \<Rightarrow> Token \<Rightarrow> parseState" where
  "handleSubflowStart uuid s tok =
     (let s = recordUnclosedBlocks s in
      (draw_id s)\<lparr>current := Some (length (built s)),
        built := built s @ [\<lparr>bsID = uuid (nextID s), bsName = tkName tok, bsRoots = []\<rparr>],
        stack := []\<rparr>)"

definition handleSubflowEnd :: "parseState \<Rightarrow> parseState" where
  "handleSubflowEnd s = (recordUnclosedBlocks s)\<lparr>current := None, stack := []\<rparr>"

text \<open>Promotion of an open BLOCK to an error handler, in place.\<close>

definition promote_top :: "parseState \<Rightarrow> addr \<Rightarrow> parseState" where
  "promote_top s a =
     s\<lparr>heap := (heap s)[a := (heap s ! a)\<lparr>cInfo := (cInfo (heap s ! a))
         \<lparr>bType := BlockTypeErrorHandler, bRawType := ''OnBlockError''\<rparr>\<rparr>]\<rparr>"

definition handleErrorHandlerStart :: "(nat \<Rightarrow> string) \<Rightarrow> parseState \<Rightarrow> Token \<Rightarrow> parseState" where
  "handleErrorHandlerStart uuid s tok =
     (case requireSubflow s tok ''error handler'' of
        (s, False) \<Rightarrow> s
      | (s, True) \<Rightarrow>
        if stack s \<noteq> [] \<and> entry_type s (hd (stack s)) = BlockTypeBlock then
          (let top = seBlock (hd (stack s));
               blk = newBlock (uuid (nextID s)) tok (current_id s) BlockTypeAction
           in (attach_child (draw_id (promote_top s top)) top blk)\<lparr>skipNextEnd := True\<rparr>)
        else (case requireDepth s tok of
            (s, False) \<Rightarrow> s
          | (s, True) \<Rightarrow>
              insert_popped s (newBlock (uuid (nextID s)) tok (current_id s) BlockTypeErrorHandler)))"

text \<open>The shared shape of the handlers that guard on subflow and depth, then insert.\<close>

definition guarded_insert ::
    "parseState \<Rightarrow> Token \<Rightarrow> string \<Rightarrow> (parseState \<Rightarrow> block_info) \<Rightarrow> parseState" where
  "guarded_insert s tok kind mk =
     (case requireSubflow s tok kind of
        (s, False) \<Rightarrow> s
      | (s, True) \<Rightarrow>
        (case requireDepth s tok of
           (s, False) \<Rightarrow> s
         | (s, True) \<Rightarrow> insert_popped s (mk s)))"

definition handleBlockStart :: "(nat \<Rightarrow> string) \<Rightarrow> parseState \<Rightarrow> Token \<Rightarrow> parseState" where
  "handleBlockStart uuid s tok = guarded_insert s tok ''block''
     (\<lambda>s. newBlock (uuid (nextID s)) tok (current_id s) BlockTypeBlock)"

definition handleSwitchStart :: "(nat \<Rightarrow> string) \<Rightarrow> parseState \<Rightarrow> Token \<Rightarrow> parseState" where
  "handleSwitchStart uuid s tok = guarded_insert s tok ''switch''
     (\<lambda>s. newBlock (uuid (nextID s)) tok (current_id s) BlockTypeSwitch)"

text \<open>
  CASE, DEFAULT and ELSE: pop to the enclosing construct and attach a branch to it. The Go
  loop would run off an empty stack; \<open>stackHas\<close> rules that out.
\<close>

definition open_branch ::
    "(nat \<Rightarrow> string) \<Rightarrow> parseState \<Rightarrow> Token \<Rightarrow> BlockType \<Rightarrow> BlockType \<Rightarrow> string \<Rightarrow> parseState" where
  "open_branch uuid s tok enclosing branch msg =
     (if current s = None then s
      else if \<not> stackHas s enclosing then add_error s (token_error tok msg ''warning'')
      else
        (let st = dropWhile (\<lambda>e. entry_type s e \<noteq> enclosing) (stack s);
             blk = newBlock (uuid (nextID s)) tok (current_id s) branch
         in push (attach_child ((draw_id s)\<lparr>stack := st\<rparr>) (seBlock (hd st)) blk)
              (tkIndent tok + 1) (length (heap s))))"

definition handleCase :: "(nat \<Rightarrow> string) \<Rightarrow> parseState \<Rightarrow> Token \<Rightarrow> parseState" where
  "handleCase uuid s tok =
     open_branch uuid s tok BlockTypeSwitch BlockTypeCase ''CASE outside SWITCH''"

definition handleDefault :: "(nat \<Rightarrow> string) \<Rightarrow> parseState \<Rightarrow> Token \<Rightarrow> parseState" where
  "handleDefault uuid s tok =
     open_branch uuid s tok BlockTypeSwitch BlockTypeDefault ''DEFAULT outside SWITCH''"

definition handleConditionElse :: "(nat \<Rightarrow> string) \<Rightarrow> parseState \<Rightarrow> Token \<Rightarrow> parseState" where
  "handleConditionElse uuid s tok =
     open_branch uuid s tok BlockTypeCondition BlockTypeElse ''ELSE outside IF''"

definition classifyLoopKind :: "string \<Rightarrow> string" where
  "classifyLoopKind content =
     (if MatchString reLoopForEach content then ''foreach''
      else if MatchString reLoopRange content \<or> MatchString reLoopRangeAnon content then ''counted''
      else if MatchString reLoopWhile content then ''while''
      else ''other'')"

text \<open>Variables a loop header declares or reads.\<close>

definition loop_variables :: "string \<Rightarrow> string list" where
  "loop_variables content =
     (case FindStringSubmatch reLoopForEach content of
        Some m \<Rightarrow> group_text m 1 # (if group_text m 3 \<noteq> [] then [group_text m 3] else [])
      | None \<Rightarrow>
        (case FindStringSubmatch reLoopRange content of
           Some m \<Rightarrow> [group_text m 1]
         | None \<Rightarrow> []))"

definition loop_block :: "string \<Rightarrow> Token \<Rightarrow> string \<Rightarrow> block_info" where
  "loop_block nid tok sf =
     (let blk = newBlock nid tok sf BlockTypeLoop in
      blk\<lparr>bProperties := AList.update ''_loopKind'' (classifyLoopKind (tkContent tok)) (bProperties blk),
          bVariables := bVariables blk @ loop_variables (tkContent tok)\<rparr>)"

definition handleLoopStart :: "(nat \<Rightarrow> string) \<Rightarrow> parseState \<Rightarrow> Token \<Rightarrow> parseState" where
  "handleLoopStart uuid s tok = guarded_insert s tok ''loop''
     (\<lambda>s. loop_block (uuid (nextID s)) tok (current_id s))"

definition end_name :: "BlockType \<Rightarrow> string" where
  "end_name t =
     (if t = BlockTypeLoop then ''End Loop''
      else if t = BlockTypeCondition then ''End If''
      else if t = BlockTypeSwitch then ''End Switch''
      else if t = BlockTypeErrorHandler then ''End On Block Error''
      else ''End'')"

definition end_block :: "string \<Rightarrow> string \<Rightarrow> BlockType \<Rightarrow> Token \<Rightarrow> string \<Rightarrow> block_info" where
  "end_block nid name parentType tok sf =
     (let blk = \<lparr>bID = nid, bName = name, bType = BlockTypeEnd, bRawType = ''END'',
                 bIndent = tkIndent tok, bLineNumber = tkLine tok, bEndLineNumber = 0,
                 bProperties = [(''_parentType'', BlockType_string parentType)],
                 bVariables = [], bTokens = [], bParentID = [], bSubflowID = sf\<rparr>
      in blk\<lparr>bTokens := tokenizeBlock blk\<rparr>)"

definition handleEnd :: "(nat \<Rightarrow> string) \<Rightarrow> parseState \<Rightarrow> Token \<Rightarrow> parseState" where
  "handleEnd uuid s tok =
     (if current s = None then s
      else if skipNextEnd s then
        (let st = dropWhile (\<lambda>e. entry_type s e \<noteq> BlockTypeErrorHandler) (stack s);
             s1 = s\<lparr>skipNextEnd := False, stack := st\<rparr>
         in if st = [] then s1
            else attach_child (draw_id s1) (seBlock (hd st))
                   (end_block (uuid (nextID s)) ''End On Block Error'' (entry_type s (hd st)) tok
                      (current_id s)))
      else
        (let st = dropWhile (\<lambda>e. \<not> closable (entry_type s e)) (stack s) in
         if st = [] then s\<lparr>stack := []\<rparr>
         else attach_child ((draw_id s)\<lparr>stack := tl st\<rparr>) (seBlock (hd st))
                (end_block (uuid (nextID s)) (end_name (entry_type s (hd st)))
                   (entry_type s (hd st)) tok (current_id s))))"

definition handleConditionStart :: "(nat \<Rightarrow> string) \<Rightarrow> parseState \<Rightarrow> Token \<Rightarrow> parseState" where
  "handleConditionStart uuid s tok = guarded_insert s tok ''condition''
     (\<lambda>s. newBlock (uuid (nextID s)) tok (current_id s) BlockTypeCondition)"

definition set_retry :: "rmatch \<Rightarrow> properties \<Rightarrow> properties" where
  "set_retry m ps =
     (let ps = AList.update ''_retryCount'' (group_text m 1) ps;
          ps = AList.update ''_retryWait'' (group_text m 2) ps;
          ps = (if group_text m 3 \<noteq> [] then AList.update ''_retryType'' (group_text m 3) ps else ps);
          ps = (if group_text m 4 \<noteq> [] then AList.update ''_retryMinInterval'' (group_text m 4) ps
                else ps)
      in if group_text m 5 \<noteq> [] then AList.update ''_retryMaxInterval'' (group_text m 5) ps else ps)"

definition set_properties :: "parseState \<Rightarrow> addr \<Rightarrow> properties \<Rightarrow> parseState" where
  "set_properties s a ps =
     s\<lparr>heap := (heap s)[a := (heap s ! a)\<lparr>cInfo := (cInfo (heap s ! a))\<lparr>bProperties := ps\<rparr>\<rparr>]\<rparr>"

definition comment_block :: "string \<Rightarrow> Token \<Rightarrow> string \<Rightarrow> block_info" where
  "comment_block nid tok sf =
     (let blk = \<lparr>bID = nid, bName = tkName tok, bType = BlockTypeComment, bRawType = ''COMMENT'',
                 bIndent = tkIndent tok, bLineNumber = tkLine tok, bEndLineNumber = 0,
                 bProperties = [], bVariables = [], bTokens = [], bParentID = [],
                 bSubflowID = sf\<rparr>
      in blk\<lparr>bTokens := tokenizeBlock blk\<rparr>)"

definition handleComment :: "(nat \<Rightarrow> string) \<Rightarrow> parseState \<Rightarrow> Token \<Rightarrow> parseState" where
  "handleComment uuid s tok =
     (if current s = None then s
      else if tkRawType tok = ''ON_ERROR_INLINE'' then
        (case stack s of
           [] \<Rightarrow> s
         | e # _ \<Rightarrow>
           (case FindStringSubmatch reOnErrorInlineParams (tkContent tok) of
              None \<Rightarrow> s
            | Some m \<Rightarrow> set_properties s (seBlock e)
                  (set_retry m (bProperties (cInfo (heap s ! seBlock e))))))
      else (case requireDepth s tok of
          (s, False) \<Rightarrow> s
        | (s, True) \<Rightarrow> insert_popped s (comment_block (uuid (nextID s)) tok (current_id s))))"

definition handleAction :: "(nat \<Rightarrow> string) \<Rightarrow> parseState \<Rightarrow> Token \<Rightarrow> parseState" where
  "handleAction uuid s tok = guarded_insert s tok ''action''
     (\<lambda>s. newBlock (uuid (nextID s)) tok (current_id s) (ClassifyBlockType (tkRawType tok)))"

definition processToken :: "(nat \<Rightarrow> string) \<Rightarrow> parseState \<Rightarrow> Token \<Rightarrow> parseState" where
  "processToken uuid s tok =
     (case tkKind tok of
        TokEmpty \<Rightarrow> s
      | TokError \<Rightarrow> recordMalformedLine s tok
      | TokSubflowStart \<Rightarrow> handleSubflowStart uuid s tok
      | TokSubflowEnd \<Rightarrow> handleSubflowEnd s
      | TokErrorHandlerStart \<Rightarrow> handleErrorHandlerStart uuid s tok
      | TokBlockStart \<Rightarrow> handleBlockStart uuid s tok
      | TokSwitchStart \<Rightarrow> handleSwitchStart uuid s tok
      | TokCase \<Rightarrow> handleCase uuid s tok
      | TokDefault \<Rightarrow> handleDefault uuid s tok
      | TokLoopStart \<Rightarrow> handleLoopStart uuid s tok
      | TokEnd \<Rightarrow> handleEnd uuid s tok
      | TokConditionStart \<Rightarrow> handleConditionStart uuid s tok
      | TokConditionElse \<Rightarrow> handleConditionElse uuid s tok
      | TokComment \<Rightarrow> handleComment uuid s tok
      | TokAction \<Rightarrow> handleAction uuid s tok)"

end
