(* ===== verification/Parser_Forest.thy ===== *)
theory Parser_Forest
  imports Parser_State "HOL-Library.Multiset"
begin

text \<open>
  The block forest the handlers of core/parser/parser.go build. Every handler is a
  sequence of primitive steps (\<open>tree_step\<close>: drop stack entries, relabel a block, attach a
  leaf to an open block, open a branch, nest, start a root, open or close a subflow). The
  invariants are proved once per primitive step and hold after every token by refinement.
\<close>

section \<open>Edges\<close>

definition info :: "parseState \<Rightarrow> addr \<Rightarrow> block_info" where
  "info s a = cInfo (heap s ! a)"

definition child :: "parseState \<Rightarrow> addr \<Rightarrow> addr \<Rightarrow> bool" where
  "child s a c \<longleftrightarrow> a < length (heap s) \<and> c \<in> set (ChildPtrs (heap s ! a))"

definition root :: "parseState \<Rightarrow> nat \<Rightarrow> addr \<Rightarrow> bool" where
  "root s i r \<longleftrightarrow> i < length (built s) \<and> r \<in> set (bsRoots (built s ! i))"

definition root_addrs :: "parseState \<Rightarrow> addr list" where
  "root_addrs s = concat (map bsRoots (built s))"

definition child_addrs :: "parseState \<Rightarrow> addr list" where
  "child_addrs s = concat (map ChildPtrs (heap s))"

definition all_ids :: "parseState \<Rightarrow> string list" where
  "all_ids s = map (bID \<circ> cInfo) (heap s) @ map bsID (built s)"

section \<open>Primitive steps\<close>

text \<open>A block that a handler has just made, in subflow \<open>sf\<close>.\<close>

definition fresh_block :: "(nat \<Rightarrow> string) \<Rightarrow> parseState \<Rightarrow> block_info \<Rightarrow> bool" where
  "fresh_block uuid s blk \<longleftrightarrow> bID blk = uuid (nextID s) \<and> bParentID blk = [] \<and>
     bSubflowID blk = current_id s"

definition same_place :: "block_info \<Rightarrow> block_info \<Rightarrow> bool" where
  "same_place b b' \<longleftrightarrow> bID b' = bID b \<and> bParentID b' = bParentID b \<and>
     bSubflowID b' = bSubflowID b \<and> closable (bType b') = closable (bType b)"

definition relabel :: "parseState \<Rightarrow> addr \<Rightarrow> block_info \<Rightarrow> parseState" where
  "relabel s a b = s\<lparr>heap := (heap s)[a := (heap s ! a)\<lparr>cInfo := b\<rparr>]\<rparr>"

definition grow_child :: "parseState \<Rightarrow> addr \<Rightarrow> block_info \<Rightarrow> parseState" where
  "grow_child s p blk = attach_child (draw_id s) p blk"

definition grow_root :: "parseState \<Rightarrow> nat \<Rightarrow> block_info \<Rightarrow> parseState" where
  "grow_root s i blk = attach_root (draw_id s) i blk"

definition open_subflow :: "parseState \<Rightarrow> string \<Rightarrow> string \<Rightarrow> parseState" where
  "open_subflow s sid name =
     (draw_id s)\<lparr>current := Some (length (built s)),
       built := built s @ [\<lparr>bsID = sid, bsName = name, bsRoots = []\<rparr>], stack := []\<rparr>"

inductive tree_step :: "(nat \<Rightarrow> string) \<Rightarrow> parseState \<Rightarrow> parseState \<Rightarrow> bool" for uuid where
  quiet: "tree_step uuid s (s\<lparr>parseErrors := es, skipNextEnd := f, stack := drop n (stack s)\<rparr>)"
| relabel: "same_place (info s a) b \<Longrightarrow> tree_step uuid s (relabel s a b)"
| leaf: "\<lbrakk>stack s = e # es; closable (entry_type s e); current s \<noteq> None; fresh_block uuid s blk\<rbrakk>
    \<Longrightarrow> tree_step uuid s (grow_child s (seBlock e) blk)"
| branch: "\<lbrakk>stack s = e # es; closable (entry_type s e); current s \<noteq> None; fresh_block uuid s blk;
      \<not> closable (bType blk)\<rbrakk>
    \<Longrightarrow> tree_step uuid s (push (grow_child s (seBlock e) blk) ind (length (heap s)))"
| nest: "\<lbrakk>stack s = e # es; length (stack s) < maxNestingDepth; current s \<noteq> None;
      fresh_block uuid s blk\<rbrakk>
    \<Longrightarrow> tree_step uuid s (push (grow_child s (seBlock e) blk) ind (length (heap s)))"
| start: "\<lbrakk>stack s = []; current s = Some i; fresh_block uuid s blk\<rbrakk>
    \<Longrightarrow> tree_step uuid s (push (grow_root s i blk) ind (length (heap s)))"
| open_sf: "tree_step uuid s (open_subflow s (uuid (nextID s)) name)"
| close_sf: "tree_step uuid s (s\<lparr>current := None, stack := []\<rparr>)"

abbreviation tree_steps :: "(nat \<Rightarrow> string) \<Rightarrow> parseState \<Rightarrow> parseState \<Rightarrow> bool" where
  "tree_steps uuid \<equiv> (tree_step uuid)\<^sup>*\<^sup>*"

lemma quiet_eq:
  assumes "s' = s\<lparr>parseErrors := es, skipNextEnd := f, stack := drop n (stack s)\<rparr>"
  shows "tree_steps uuid s s'"
  unfolding assms by (rule r_into_rtranclp) (rule quiet)

lemma quiet_errors: "tree_steps uuid s (s\<lparr>parseErrors := es\<rparr>)"
  by (rule quiet_eq [where n = 0 and f = "skipNextEnd s"]) simp

lemma quiet_add_error: "tree_steps uuid s (add_error s e)"
  unfolding add_error_def by (rule quiet_errors)

lemma quiet_unclosed: "tree_steps uuid s (recordUnclosedBlocks s)"
  unfolding recordUnclosedBlocks_def by (rule quiet_errors)

lemma quiet_stack: "suffix st (stack s) \<Longrightarrow> tree_steps uuid s (s\<lparr>stack := st\<rparr>)"
  by (rule quiet_eq [where n = "length (stack s) - length st" and f = "skipNextEnd s"
        and es = "parseErrors s"]) (auto simp: suffix_def)

lemma quiet_flag: "tree_steps uuid s (s\<lparr>skipNextEnd := f\<rparr>)"
  by (rule quiet_eq [where n = 0 and es = "parseErrors s"]) simp

section \<open>Every handler is a sequence of primitive steps\<close>

lemma current_id_frame [simp]:
  "current_id (s\<lparr>stack := st\<rparr>) = current_id s"
  "current_id (s\<lparr>parseErrors := es\<rparr>) = current_id s"
  "current_id (s\<lparr>skipNextEnd := f\<rparr>) = current_id s"
  "current_id (s\<lparr>heap := h\<rparr>) = current_id s"
  "current_id (s\<lparr>nextID := k\<rparr>) = current_id s"
  by (simp_all add: current_id_def split: option.split)

lemma draw_id_stack: "(draw_id s)\<lparr>stack := st\<rparr> = draw_id (s\<lparr>stack := st\<rparr>)"
  by (simp add: draw_id_def)

lemma fresh_block_frame [simp]:
  "fresh_block uuid (s\<lparr>stack := st\<rparr>) = fresh_block uuid s"
  "fresh_block uuid (s\<lparr>skipNextEnd := f\<rparr>) = fresh_block uuid s"
  "fresh_block uuid (s\<lparr>heap := h\<rparr>) = fresh_block uuid s"
  by (simp_all add: fresh_block_def fun_eq_iff)

lemma entry_type_frame [simp]:
  "entry_type (s\<lparr>stack := st\<rparr>) e = entry_type s e"
  "entry_type (s\<lparr>skipNextEnd := f\<rparr>) e = entry_type s e"
  "entry_type (s\<lparr>parseErrors := es\<rparr>) e = entry_type s e"
  by (simp_all add: entry_type_def type_at_def)

lemma fresh_newBlock [simp]: "fresh_block uuid s (newBlock (uuid (nextID s)) tok (current_id s) t)"
  by (simp add: fresh_block_def)

lemma fresh_loop_block [simp]: "fresh_block uuid s (loop_block (uuid (nextID s)) tok (current_id s))"
  by (simp add: fresh_block_def loop_block_def Let_def)

lemma fresh_end_block [simp]:
  "fresh_block uuid s (end_block (uuid (nextID s)) name t tok (current_id s))"
  by (simp add: fresh_block_def end_block_def Let_def)

lemma fresh_comment_block [simp]:
  "fresh_block uuid s (comment_block (uuid (nextID s)) tok (current_id s))"
  by (simp add: fresh_block_def comment_block_def Let_def)

lemma insert_popped_steps:
  assumes cur: "current s \<noteq> None" and room: "length (stack s) < maxNestingDepth"
    and fresh: "fresh_block uuid s blk"
  shows "tree_steps uuid s (insert_popped s blk)"
proof -
  define st where "st = popStack (stack s) (bIndent blk)"
  have suf: "suffix st (stack s)"
    unfolding st_def popStack_def by (rule suffix_dropWhile)
  then have len: "length st < maxNestingDepth"
    using room suffix_length_le by (metis order_le_less_trans)
  have "tree_step uuid (s\<lparr>stack := st\<rparr>) (insert_popped s blk)"
  proof (cases st)
    case Nil
    then have "insert_popped s blk =
        push (grow_root (s\<lparr>stack := st\<rparr>) (the (current s)) blk) (bIndent blk) (length (heap (s\<lparr>stack := st\<rparr>)))"
      by (simp add: insert_popped_def insertIntoTree_def grow_root_def draw_id_stack st_def [symmetric])
        (simp add: draw_id_def)
    moreover have "tree_step uuid (s\<lparr>stack := st\<rparr>) \<dots>"
      using cur fresh Nil by (intro start) auto
    ultimately show ?thesis by simp
  next
    case (Cons e es)
    then have "insert_popped s blk =
        push (grow_child (s\<lparr>stack := st\<rparr>) (seBlock e) blk) (bIndent blk) (length (heap (s\<lparr>stack := st\<rparr>)))"
      by (simp add: insert_popped_def insertIntoTree_def grow_child_def draw_id_stack st_def [symmetric])
        (simp add: draw_id_def)
    moreover have "tree_step uuid (s\<lparr>stack := st\<rparr>) \<dots>"
      using cur fresh Cons len by (intro nest [where es = es]) auto
    ultimately show ?thesis by simp
  qed
  with quiet_stack [OF suf] show ?thesis by (rule rtranclp.rtrancl_into_rtrancl)
qed

lemma depth_guarded_steps:
  assumes "current s \<noteq> None" "fresh_block uuid s blk"
  shows "tree_steps uuid s
    (case requireDepth s tok of (s', False) \<Rightarrow> s' | (s', True) \<Rightarrow> insert_popped s' blk)"
  using assms by (auto simp: requireDepth_def quiet_add_error insert_popped_steps)

lemma guarded_insert_steps:
  assumes "fresh_block uuid s (mk s)"
  shows "tree_steps uuid s (guarded_insert s tok kind mk)"
  using assms
  by (auto simp: guarded_insert_def requireSubflow_def requireDepth_def quiet_add_error
        insert_popped_steps)

lemma dropWhile_ConsD: "dropWhile (\<lambda>x. \<not> P x) xs = y # ys \<Longrightarrow> P y"
  by (simp add: dropWhile_eq_Cons_conv)

lemma open_branch_steps:
  assumes "closable enclosing" "\<not> closable b"
  shows "tree_steps uuid s (open_branch uuid s tok enclosing b msg)"
proof (cases "current s \<noteq> None \<and> stackHas s enclosing")
  case True
  define st where "st = dropWhile (\<lambda>e. entry_type s e \<noteq> enclosing) (stack s)"
  from True have "st \<noteq> []"
    by (auto simp: st_def stackHas_def list_ex_iff)
  then obtain e es where st: "st = e # es" by (cases st) auto
  then have ty: "entry_type s e = enclosing"
    unfolding st_def by (rule dropWhile_ConsD)
  have "open_branch uuid s tok enclosing b msg =
      push (grow_child (s\<lparr>stack := st\<rparr>) (seBlock e) (newBlock (uuid (nextID s)) tok (current_id s) b))
        (tkIndent tok + 1) (length (heap (s\<lparr>stack := st\<rparr>)))"
    using True by (auto simp: open_branch_def Let_def st_def [symmetric] st grow_child_def draw_id_stack)
  moreover have "tree_step uuid (s\<lparr>stack := st\<rparr>) \<dots>"
    using True ty st assms by (intro branch [where es = es]) simp_all
  ultimately have "tree_step uuid (s\<lparr>stack := st\<rparr>) (open_branch uuid s tok enclosing b msg)"
    by simp
  moreover have "tree_steps uuid s (s\<lparr>stack := st\<rparr>)"
    unfolding st_def by (rule quiet_stack) (rule suffix_dropWhile)
  ultimately show ?thesis by (rule rtranclp.rtrancl_into_rtrancl [rotated])
next
  case False
  then show ?thesis by (auto simp: open_branch_def quiet_add_error)
qed

lemma promote_as_relabel: "tree_steps uuid s (promote_top s a)" if "type_at s a = BlockTypeBlock"
proof -
  have "promote_top s a =
      relabel s a ((info s a)\<lparr>bType := BlockTypeErrorHandler, bRawType := ''OnBlockError''\<rparr>)"
    by (simp add: promote_top_def relabel_def info_def)
  moreover have "tree_step uuid s \<dots>"
    using that by (intro tree_step.relabel) (simp add: same_place_def closable_def info_def type_at_def)
  ultimately show ?thesis by auto
qed

lemma set_properties_as_relabel: "tree_steps uuid s (set_properties s a ps)"
proof -
  have "set_properties s a ps = relabel s a ((info s a)\<lparr>bProperties := ps\<rparr>)"
    by (simp add: set_properties_def relabel_def info_def)
  moreover have "tree_step uuid s \<dots>"
    by (intro tree_step.relabel) (simp add: same_place_def)
  ultimately show ?thesis by auto
qed

lemma promote_stack [simp]:
  "stack (promote_top s a) = stack s" "current (promote_top s a) = current s"
  "nextID (promote_top s a) = nextID s" "built (promote_top s a) = built s"
  "current_id (promote_top s a) = current_id s"
  by (simp_all add: promote_top_def)

lemma closable_promoted:
  assumes "type_at s a = BlockTypeBlock"
  shows "closable (type_at (promote_top s a) a)"
  using assms by (cases "a < length (heap s)")
    (simp_all add: promote_top_def type_at_def closable_def not_less list_update_beyond)

lemma handleErrorHandlerStart_steps: "tree_steps uuid s (handleErrorHandlerStart uuid s tok)"
proof (cases "current s \<noteq> None \<and> stack s \<noteq> [] \<and> entry_type s (hd (stack s)) = BlockTypeBlock")
  case True
  then obtain e es where st: "stack s = e # es" by (cases "stack s") auto
  define top where "top = seBlock e"
  define blk where "blk = newBlock (uuid (nextID s)) tok (current_id s) BlockTypeAction"
  from True st have ty: "type_at s top = BlockTypeBlock"
    by (simp add: top_def entry_type_def)
  have 1: "tree_steps uuid s (promote_top s top)"
    using ty by (rule promote_as_relabel)
  have fr: "fresh_block uuid (promote_top s top) blk"
    by (simp add: fresh_block_def blk_def)
  have 2: "tree_step uuid (promote_top s top) (grow_child (promote_top s top) (seBlock e) blk)"
    using True st closable_promoted [OF ty] fr
    by (intro leaf [where es = es]) (simp_all add: entry_type_def top_def)
  have "handleErrorHandlerStart uuid s tok =
      (grow_child (promote_top s top) (seBlock e) blk)\<lparr>skipNextEnd := True\<rparr>"
    using True by (auto simp: handleErrorHandlerStart_def requireSubflow_def Let_def st
        grow_child_def top_def blk_def)
  then show ?thesis
    using rtranclp_trans [OF rtranclp.rtrancl_into_rtrancl [OF 1 2] quiet_flag] by simp
next
  case False
  have *: "tree_steps uuid s (case requireDepth s tok of (s', False) \<Rightarrow> s'
     | (s', True) \<Rightarrow> insert_popped s' (newBlock (uuid (nextID s)) tok (current_id s) BlockTypeErrorHandler))"
    if "current s \<noteq> None"
    using that by (rule depth_guarded_steps) simp
  from False * show ?thesis
    by (auto simp: handleErrorHandlerStart_def requireSubflow_def quiet_add_error requireDepth_def)
qed

lemma close_top_steps:
  assumes st: "suffix (e # es) (stack s)" and cl: "closable (entry_type s e)"
    and cur: "current s \<noteq> None" and fr: "fresh_block uuid s blk"
  shows "tree_steps uuid s ((attach_child (draw_id s) (seBlock e) blk)\<lparr>skipNextEnd := f, stack := e # es\<rparr>)"
    and "tree_steps uuid s ((attach_child (draw_id s) (seBlock e) blk)\<lparr>skipNextEnd := f, stack := es\<rparr>)"
proof -
  let ?s1 = "s\<lparr>stack := e # es\<rparr>"
  let ?s2 = "grow_child ?s1 (seBlock e) blk"
  have 1: "tree_steps uuid s ?s1" using st by (rule quiet_stack)
  have 2: "tree_step uuid ?s1 ?s2"
    using cl cur fr by (intro leaf [where es = es]) simp_all
  from 1 2 have 12: "tree_steps uuid s ?s2" by (rule rtranclp.rtrancl_into_rtrancl)
  have eq: "?s2\<lparr>skipNextEnd := f, stack := st'\<rparr> =
      (attach_child (draw_id s) (seBlock e) blk)\<lparr>skipNextEnd := f, stack := st'\<rparr>" for st'
    by (simp add: grow_child_def draw_id_def attach_child_def)
  have "tree_steps uuid ?s2 (?s2\<lparr>skipNextEnd := f, stack := e # es\<rparr>)"
    by (rule quiet_eq [where n = 0 and f = f and es = "parseErrors ?s2"])
      (simp add: grow_child_def attach_child_def draw_id_def)
  with 12 show "tree_steps uuid s ((attach_child (draw_id s) (seBlock e) blk)\<lparr>skipNextEnd := f, stack := e # es\<rparr>)"
    unfolding eq by (rule rtranclp_trans)
  have "tree_steps uuid ?s2 (?s2\<lparr>skipNextEnd := f, stack := es\<rparr>)"
    by (rule quiet_eq [where n = 1 and f = f and es = "parseErrors ?s2"])
      (simp add: grow_child_def attach_child_def draw_id_def)
  with 12 show "tree_steps uuid s ((attach_child (draw_id s) (seBlock e) blk)\<lparr>skipNextEnd := f, stack := es\<rparr>)"
    unfolding eq by (rule rtranclp_trans)
qed

lemma attach_frame [simp]:
  "attach_child (draw_id (s\<lparr>skipNextEnd := f\<rparr>)) p blk =
     (attach_child (draw_id s) p blk)\<lparr>skipNextEnd := f\<rparr>"
  "attach_child (draw_id (s\<lparr>stack := st\<rparr>)) p blk =
     (attach_child (draw_id s) p blk)\<lparr>skipNextEnd := skipNextEnd s, stack := st\<rparr>"
  by (simp_all add: attach_child_def draw_id_def)

lemma handleEnd_steps: "tree_steps uuid s (handleEnd uuid s tok)"
proof (cases "current s")
  case None
  then show ?thesis by (simp add: handleEnd_def)
next
  case (Some i)
  then have cur: "current s \<noteq> None" by simp
  show ?thesis
  proof (cases "skipNextEnd s")
    case True
    define st where "st = dropWhile (\<lambda>e. entry_type s e \<noteq> BlockTypeErrorHandler) (stack s)"
    have suf: "suffix st (stack s)" unfolding st_def by (rule suffix_dropWhile)
    show ?thesis
    proof (cases st)
      case Nil
      have "handleEnd uuid s tok = s\<lparr>skipNextEnd := False, stack := []\<rparr>"
        using Some True Nil by (simp add: handleEnd_def st_def Let_def)
      then show ?thesis
        by (intro quiet_eq [where n = "length (stack s)" and es = "parseErrors s"]) simp
    next
      case (Cons e es)
      then have ty: "entry_type s e = BlockTypeErrorHandler"
        unfolding st_def by (rule dropWhile_ConsD)
      then have cl: "closable (entry_type s e)" by (simp add: closable_def)
      have "handleEnd uuid s tok = attach_child (draw_id (s\<lparr>skipNextEnd := False, stack := st\<rparr>))
          (seBlock e) (end_block (uuid (nextID s)) ''End On Block Error'' (entry_type s e) tok
            (current_id s))"
        unfolding handleEnd_def Let_def st_def [symmetric] using Some True Cons by simp
      with close_top_steps(1) [OF suf [unfolded Cons] cl cur fresh_end_block] Cons
      show ?thesis by simp
    qed
  next
    case False
    define st where "st = dropWhile (\<lambda>e. \<not> closable (entry_type s e)) (stack s)"
    have suf: "suffix st (stack s)" unfolding st_def by (rule suffix_dropWhile)
    show ?thesis
    proof (cases st)
      case Nil
      have "handleEnd uuid s tok = s\<lparr>stack := []\<rparr>"
        unfolding handleEnd_def Let_def st_def [symmetric] using Some False Nil by simp
      then show ?thesis by (simp add: quiet_stack)
    next
      case (Cons e es)
      then have cl: "closable (entry_type s e)"
        unfolding st_def by (rule dropWhile_ConsD)
      have "handleEnd uuid s tok = attach_child (draw_id (s\<lparr>stack := es\<rparr>))
          (seBlock e) (end_block (uuid (nextID s)) (end_name (entry_type s e)) (entry_type s e) tok
            (current_id s))"
        unfolding handleEnd_def Let_def st_def [symmetric]
        using Some False Cons by (simp add: draw_id_stack)
      with close_top_steps(2) [OF suf [unfolded Cons] cl cur fresh_end_block]
      show ?thesis by simp
    qed
  qed
qed

lemma handleComment_steps: "tree_steps uuid s (handleComment uuid s tok)"
proof -
  have "tree_steps uuid s (case requireDepth s tok of (s', False) \<Rightarrow> s'
     | (s', True) \<Rightarrow> insert_popped s' (comment_block (uuid (nextID s)) tok (current_id s)))"
    if "current s \<noteq> None"
    using that by (rule depth_guarded_steps) simp
  then show ?thesis
    by (auto simp: handleComment_def set_properties_as_relabel requireDepth_def
        split: list.split option.split)
qed

lemma handleSubflow_steps:
  "tree_steps uuid s (handleSubflowStart uuid s tok)"
  "tree_steps uuid s (handleSubflowEnd s)"
proof -
  let ?s = "recordUnclosedBlocks s"
  have "handleSubflowStart uuid s tok = open_subflow ?s (uuid (nextID ?s)) (tkName tok)"
    by (simp add: handleSubflowStart_def open_subflow_def Let_def)
  with quiet_unclosed [of uuid s] open_sf [of uuid ?s "tkName tok"]
  show "tree_steps uuid s (handleSubflowStart uuid s tok)"
    by (metis rtranclp.rtrancl_into_rtrancl)
  have "tree_step uuid ?s (handleSubflowEnd s)"
    unfolding handleSubflowEnd_def by (rule close_sf)
  with quiet_unclosed [of uuid s] show "tree_steps uuid s (handleSubflowEnd s)"
    by (rule rtranclp.rtrancl_into_rtrancl)
qed

lemma processToken_steps: "tree_steps uuid s (processToken uuid s tok)"
  by (cases "tkKind tok")
    (auto simp: processToken_def recordMalformedLine_def quiet_add_error handleSubflow_steps
      handleErrorHandlerStart_steps handleEnd_steps handleComment_steps
      handleBlockStart_def handleSwitchStart_def handleCase_def handleDefault_def
      handleLoopStart_def handleConditionStart_def handleConditionElse_def handleAction_def
      closable_def intro!: guarded_insert_steps open_branch_steps)

section \<open>The invariant\<close>

text \<open>
  \<open>links_ok\<close>: an edge goes from an older to a newer block and agrees with \<open>ParentID\<close> and
  \<open>SubflowID\<close>. \<open>partition_ok\<close>: every block hangs in exactly one place. \<open>ids_ok\<close>: no two
  blocks or subflows share an identifier. \<open>stack_ok\<close>: the open blocks belong to the
  current subflow. \<open>depth_ok\<close>: levels are counted by the stack and bounded.
\<close>

definition links_ok :: "parseState \<Rightarrow> bool" where
  "links_ok s \<longleftrightarrow>
     (\<forall>a c. child s a c \<longrightarrow> a < c \<and> c < length (heap s) \<and>
        bParentID (info s c) = bID (info s a) \<and> bSubflowID (info s c) = bSubflowID (info s a)) \<and>
     (\<forall>i r. root s i r \<longrightarrow> r < length (heap s) \<and> bParentID (info s r) = [] \<and>
        bSubflowID (info s r) = bsID (built s ! i))"

definition partition_ok :: "parseState \<Rightarrow> bool" where
  "partition_ok s \<longleftrightarrow> mset (root_addrs s @ child_addrs s) = mset [0..<length (heap s)]"

definition ids_ok :: "(nat \<Rightarrow> string) \<Rightarrow> parseState \<Rightarrow> bool" where
  "ids_ok uuid s \<longleftrightarrow> distinct (all_ids s) \<and> set (all_ids s) \<subseteq> uuid ` {..<nextID s}"

definition stack_ok :: "parseState \<Rightarrow> bool" where
  "stack_ok s \<longleftrightarrow>
     (current s = None \<longrightarrow> stack s = []) \<and>
     (\<forall>i. current s = Some i \<longrightarrow> i < length (built s)) \<and>
     (\<forall>e\<in>set (stack s). seBlock e < length (heap s) \<and>
        bSubflowID (info s (seBlock e)) = current_id s)"

definition levels :: "parseState \<Rightarrow> (addr \<Rightarrow> nat) \<Rightarrow> bool" where
  "levels s d \<longleftrightarrow> (\<forall>i r. root s i r \<longrightarrow> d r = 1) \<and> (\<forall>a c. child s a c \<longrightarrow> d c = Suc (d a)) \<and>
     (\<forall>a<length (heap s). d a \<le> Suc maxNestingDepth) \<and>
     (\<forall>j<length (stack s). d (seBlock (stack s ! j)) = length (stack s) - j)"

definition stack_bounded :: "parseState \<Rightarrow> bool" where
  "stack_bounded s \<longleftrightarrow> length (stack s) \<le> maxNestingDepth \<or>
     length (stack s) = Suc maxNestingDepth \<and> \<not> closable (entry_type s (hd (stack s)))"

definition depth_ok :: "parseState \<Rightarrow> bool" where
  "depth_ok s \<longleftrightarrow> (\<exists>d. levels s d) \<and> stack_bounded s"

subsection \<open>What the heap operations change\<close>

lemma child_source: "child s a c \<Longrightarrow> a < length (heap s)"
  by (simp add: child_def)

lemma links_childD:
  assumes "links_ok s" "child s a c"
  shows "a < c" "c < length (heap s)" "a < length (heap s)"
    "bParentID (info s c) = bID (info s a)" "bSubflowID (info s c) = bSubflowID (info s a)"
  using assms child_source unfolding links_ok_def by blast+

lemma links_rootD:
  assumes "links_ok s" "root s i r"
  shows "r < length (heap s)" "bParentID (info s r) = []" "bSubflowID (info s r) = bsID (built s ! i)"
  using assms unfolding links_ok_def by blast+

lemma heap_length [simp]:
  "length (heap (grow_child s p blk)) = Suc (length (heap s))"
  "length (heap (grow_root s i blk)) = Suc (length (heap s))"
  "length (heap (relabel s a b)) = length (heap s)"
  "length (heap (push s ind a)) = length (heap s)"
  "length (heap (open_subflow s sid nm)) = length (heap s)"
  by (simp_all add: grow_child_def grow_root_def attach_child_def attach_root_def draw_id_def
      relabel_def push_def open_subflow_def)

lemma info_grow_child:
  "p < length (heap s) \<Longrightarrow> a < length (heap s) \<Longrightarrow> info (grow_child s p blk) a = info s a"
  "p < length (heap s) \<Longrightarrow>
     info (grow_child s p blk) (length (heap s)) = blk\<lparr>bParentID := bID (info s p)\<rparr>"
  by (auto simp: info_def grow_child_def attach_child_def draw_id_def nth_append nth_list_update)

lemma info_grow_root:
  "a < length (heap s) \<Longrightarrow> info (grow_root s i blk) a = info s a"
  "info (grow_root s i blk) (length (heap s)) = blk"
  by (auto simp: info_def grow_root_def attach_root_def draw_id_def nth_append)

lemma info_relabel:
  "a < length (heap s) \<Longrightarrow> info (relabel s p b) a = (if a = p then b else info s a)"
  by (auto simp: info_def relabel_def nth_list_update)

lemma info_frame [simp]:
  "info (push s ind a) x = info s x"
  "info (open_subflow s sid nm) x = info s x"
  by (simp_all add: info_def push_def open_subflow_def draw_id_def)

lemma child_grow_child:
  "p < length (heap s) \<Longrightarrow> child (grow_child s p blk) a c \<longleftrightarrow>
     child s a c \<or> a = p \<and> c = length (heap s)"
  by (auto simp: child_def grow_child_def attach_child_def draw_id_def nth_append nth_list_update)

lemma child_grow_root: "child (grow_root s i blk) a c \<longleftrightarrow> child s a c"
  by (auto simp: child_def grow_root_def attach_root_def draw_id_def nth_append)

lemma child_relabel: "child (relabel s p b) a c \<longleftrightarrow> child s a c"
  by (cases "a = p") (auto simp: child_def relabel_def)

lemma child_frame [simp]:
  "child (push s ind x) a c = child s a c"
  "child (open_subflow s sid nm) a c = child s a c"
  by (simp_all add: child_def push_def open_subflow_def draw_id_def)

lemma root_grow_child: "root (grow_child s p blk) i r \<longleftrightarrow> root s i r"
  by (simp add: root_def grow_child_def attach_child_def draw_id_def)

lemma root_grow_root:
  "i < length (built s) \<Longrightarrow> root (grow_root s i blk) j r \<longleftrightarrow>
     root s j r \<or> j = i \<and> r = length (heap s)"
  by (auto simp: root_def grow_root_def attach_root_def draw_id_def nth_list_update)

lemma root_relabel: "root (relabel s p b) i r \<longleftrightarrow> root s i r"
  by (simp add: root_def relabel_def)

lemma root_push [simp]: "root (push s ind a) i r = root s i r"
  by (simp add: root_def push_def)

lemma root_open: "root (open_subflow s sid nm) i r \<longleftrightarrow> root s i r"
  by (auto simp: root_def open_subflow_def draw_id_def nth_append less_Suc_eq)

lemmas edge_simps = info_grow_child info_grow_root info_relabel child_grow_child child_grow_root
  child_relabel root_grow_child root_grow_root root_relabel root_open

subsection \<open>Links\<close>

lemma links_grow_child:
  assumes "links_ok s" "p < length (heap s)" "bSubflowID blk = bSubflowID (info s p)"
  shows "links_ok (grow_child s p blk)"
  unfolding links_ok_def
proof (intro conjI allI impI)
  fix a c
  assume "child (grow_child s p blk) a c"
  then consider "child s a c" | "a = p" "c = length (heap s)"
    using assms(2) by (auto simp: child_grow_child)
  note * = this
  show "a < c" "c < length (heap (grow_child s p blk))"
    "bParentID (info (grow_child s p blk) c) = bID (info (grow_child s p blk) a)"
    "bSubflowID (info (grow_child s p blk) c) = bSubflowID (info (grow_child s p blk) a)"
    using * links_childD [OF assms(1)] assms(2,3)
    by (cases; simp add: info_grow_child less_SucI)+
next
  fix i r
  assume "root (grow_child s p blk) i r"
  then have *: "root s i r" by (simp add: root_grow_child)
  have "built (grow_child s p blk) = built s"
    by (simp add: grow_child_def attach_child_def draw_id_def)
  with links_rootD [OF assms(1) *] assms(2)
  show "r < length (heap (grow_child s p blk))" "bParentID (info (grow_child s p blk) r) = []"
    "bSubflowID (info (grow_child s p blk) r) = bsID (built (grow_child s p blk) ! i)"
    by (simp_all add: info_grow_child)
qed

lemma links_grow_root:
  assumes "links_ok s" "i < length (built s)" "bSubflowID blk = bsID (built s ! i)"
    "bParentID blk = []"
  shows "links_ok (grow_root s i blk)"
  unfolding links_ok_def
proof (intro conjI allI impI)
  fix a c
  assume "child (grow_root s i blk) a c"
  then have *: "child s a c" by (simp add: child_grow_root)
  from links_childD [OF assms(1) *]
  show "a < c" "c < length (heap (grow_root s i blk))"
    "bParentID (info (grow_root s i blk) c) = bID (info (grow_root s i blk) a)"
    "bSubflowID (info (grow_root s i blk) c) = bSubflowID (info (grow_root s i blk) a)"
    by (simp_all add: info_grow_root less_SucI)
next
  fix j r
  assume "root (grow_root s i blk) j r"
  then consider "root s j r" | "j = i" "r = length (heap s)"
    using assms(2) by (auto simp: root_grow_root)
  note * = this
  have b: "bsID (built (grow_root s i blk) ! j) = bsID (built s ! j)"
    by (cases "j = i") (simp_all add: grow_root_def attach_root_def draw_id_def nth_list_update assms(2))
  show "r < length (heap (grow_root s i blk))" "bParentID (info (grow_root s i blk) r) = []"
    "bSubflowID (info (grow_root s i blk) r) = bsID (built (grow_root s i blk) ! j)"
    unfolding b using * links_rootD [OF assms(1)] assms(3,4)
    by (cases; simp add: info_grow_root less_SucI)+
qed

lemma relabel_place:
  assumes "same_place (info s p) b" "a < length (heap s)"
  shows "bID (info (relabel s p b) a) = bID (info s a)"
    "bParentID (info (relabel s p b) a) = bParentID (info s a)"
    "bSubflowID (info (relabel s p b) a) = bSubflowID (info s a)"
    "closable (bType (info (relabel s p b) a)) = closable (bType (info s a))"
  using assms by (simp_all add: info_relabel same_place_def)

lemma links_relabel:
  assumes "links_ok s" "same_place (info s p) b"
  shows "links_ok (relabel s p b)"
  unfolding links_ok_def child_relabel root_relabel
proof (intro conjI allI impI)
  fix a c
  assume "child s a c"
  from links_childD [OF assms(1) this]
  show "a < c" "c < length (heap (relabel s p b))"
    "bParentID (info (relabel s p b) c) = bID (info (relabel s p b) a)"
    "bSubflowID (info (relabel s p b) c) = bSubflowID (info (relabel s p b) a)"
    by (simp_all add: relabel_place [OF assms(2)])
next
  fix i r
  assume "root s i r"
  from links_rootD [OF assms(1) this]
  show "r < length (heap (relabel s p b))" "bParentID (info (relabel s p b) r) = []"
    "bSubflowID (info (relabel s p b) r) = bsID (built (relabel s p b) ! i)"
    by (simp_all add: relabel_place [OF assms(2)]) (simp add: relabel_def)
qed

lemma links_cong:
  assumes "heap s' = heap s" "built s' = built s"
  shows "links_ok s' = links_ok s"
  using assms by (simp add: links_ok_def child_def root_def info_def)

lemma links_open:
  assumes "links_ok s"
  shows "links_ok (open_subflow s sid nm)"
proof -
  have "bsID (built (open_subflow s sid nm) ! i) = bsID (built s ! i)" if "root s i r" for i r
    using that by (simp add: open_subflow_def draw_id_def root_def nth_append)
  then show ?thesis
    using assms unfolding links_ok_def root_open child_frame info_frame heap_length by simp
qed

subsection \<open>Every block in one place\<close>

lemma mset_concat_update:
  "p < length xs \<Longrightarrow> mset (concat (xs[p := xs ! p @ ys])) = mset (concat xs) + mset ys"
proof (induction xs arbitrary: p)
  case Nil
  then show ?case by simp
next
  case (Cons x xs)
  then show ?case by (cases p) auto
qed

lemma mset_concat_map_update:
  "p < length xs \<Longrightarrow>
     mset (concat ((map f xs)[p := f (xs ! p) @ ys])) = mset (concat (map f xs)) + mset ys"
  using mset_concat_update [of p "map f xs" ys] by simp

lemma map_update_same: "f y = f (xs ! p) \<Longrightarrow> map f (xs[p := y]) = map f xs"
  by (cases "p < length xs") (simp_all add: list_eq_iff_nth_eq nth_list_update list_update_beyond)

lemma partition_grow_child:
  assumes "partition_ok s" "p < length (heap s)"
  shows "partition_ok (grow_child s p blk)"
proof -
  have "map ChildPtrs (heap (grow_child s p blk)) =
      (map ChildPtrs (heap s))[p := map ChildPtrs (heap s) ! p @ [length (heap s)]] @ [[]]"
    using assms(2) by (simp add: grow_child_def attach_child_def draw_id_def map_update)
  then have "mset (child_addrs (grow_child s p blk)) = mset (child_addrs s) + {#length (heap s)#}"
    using assms(2) by (simp add: child_addrs_def mset_concat_map_update)
  moreover have "root_addrs (grow_child s p blk) = root_addrs s"
    by (simp add: root_addrs_def grow_child_def attach_child_def draw_id_def)
  ultimately show ?thesis
    using assms(1) by (simp add: partition_ok_def)
qed

lemma partition_grow_root:
  assumes "partition_ok s" "i < length (built s)"
  shows "partition_ok (grow_root s i blk)"
proof -
  have "map bsRoots (built (grow_root s i blk)) =
      (map bsRoots (built s))[i := map bsRoots (built s) ! i @ [length (heap s)]]"
    using assms(2) by (simp add: grow_root_def attach_root_def draw_id_def map_update)
  then have "mset (root_addrs (grow_root s i blk)) = mset (root_addrs s) + {#length (heap s)#}"
    using assms(2) by (simp add: root_addrs_def mset_concat_map_update)
  moreover have "child_addrs (grow_root s i blk) = child_addrs s"
    by (simp add: child_addrs_def grow_root_def attach_root_def draw_id_def)
  ultimately show ?thesis
    using assms(1) by (simp add: partition_ok_def)
qed

lemma partition_cong:
  assumes "map ChildPtrs (heap s') = map ChildPtrs (heap s)" "root_addrs s' = root_addrs s"
  shows "partition_ok s' = partition_ok s"
proof -
  have "length (heap s') = length (heap s)"
    using assms(1) by (metis length_map)
  with assms show ?thesis by (simp add: partition_ok_def child_addrs_def)
qed

lemma partition_relabel: "partition_ok (relabel s p b) = partition_ok s"
proof (rule partition_cong)
  show "map ChildPtrs (heap (relabel s p b)) = map ChildPtrs (heap s)"
    by (simp add: relabel_def map_update_same)
qed (simp add: root_addrs_def relabel_def)

lemma partition_open: "partition_ok (open_subflow s sid nm) = partition_ok s"
  by (rule partition_cong) (simp_all add: open_subflow_def draw_id_def root_addrs_def)

subsection \<open>Identifiers\<close>

lemma ids_grow:
  assumes ids: "ids_ok uuid s" and inj: "inj uuid"
    and new: "mset (all_ids s') = mset (all_ids s) + {#uuid (nextID s)#}"
    and nid: "nextID s' = Suc (nextID s)"
  shows "ids_ok uuid s'"
proof -
  have "uuid (nextID s) \<notin> uuid ` {..<nextID s}"
    using inj by (auto dest: injD)
  then have "uuid (nextID s) \<notin> set (all_ids s)"
    using ids by (auto simp: ids_ok_def)
  moreover have m: "mset (all_ids s') = mset (uuid (nextID s) # all_ids s)"
    using new by simp
  ultimately have "distinct (all_ids s')"
    using ids mset_eq_imp_distinct_iff [OF m] by (simp add: ids_ok_def)
  moreover have "set (all_ids s') \<subseteq> uuid ` {..<Suc (nextID s)}"
    using ids mset_eq_setD [OF m] by (auto simp: ids_ok_def lessThan_Suc)
  ultimately show ?thesis by (simp add: ids_ok_def nid)
qed

lemma all_ids_grow:
  "mset (all_ids (grow_child s p blk)) = mset (all_ids s) + {#bID blk#}"
  "mset (all_ids (grow_root s i blk)) = mset (all_ids s) + {#bID blk#}"
  "mset (all_ids (open_subflow s sid nm)) = mset (all_ids s) + {#sid#}"
proof -
  have "map (bID \<circ> cInfo) (heap (grow_child s p blk)) = map (bID \<circ> cInfo) (heap s) @ [bID blk]"
    by (simp add: grow_child_def attach_child_def draw_id_def map_update_same)
  then show "mset (all_ids (grow_child s p blk)) = mset (all_ids s) + {#bID blk#}"
    by (simp add: all_ids_def del: mset_map)
       (simp add: grow_child_def attach_child_def draw_id_def)
  have "map bsID (built (grow_root s i blk)) = map bsID (built s)"
    by (simp add: grow_root_def attach_root_def draw_id_def map_update_same)
  then show "mset (all_ids (grow_root s i blk)) = mset (all_ids s) + {#bID blk#}"
    by (simp add: all_ids_def del: mset_map)
       (simp add: grow_root_def attach_root_def draw_id_def)
  show "mset (all_ids (open_subflow s sid nm)) = mset (all_ids s) + {#sid#}"
    by (simp add: all_ids_def open_subflow_def draw_id_def)
qed

lemma next_id_grow [simp]:
  "nextID (grow_child s p blk) = Suc (nextID s)"
  "nextID (grow_root s i blk) = Suc (nextID s)"
  "nextID (open_subflow s sid nm) = Suc (nextID s)"
  "nextID (push s ind a) = nextID s"
  "nextID (relabel s a b) = nextID s"
  by (simp_all add: grow_child_def grow_root_def attach_child_def attach_root_def draw_id_def
      relabel_def push_def open_subflow_def)

lemma ids_push [simp]: "ids_ok uuid (push s ind a) = ids_ok uuid s"
  by (simp add: ids_ok_def all_ids_def push_def)

lemma ids_relabel: "same_place (info s a) b \<Longrightarrow> ids_ok uuid (relabel s a b) = ids_ok uuid s"
proof -
  assume "same_place (info s a) b"
  then have "map (bID \<circ> cInfo) (heap (relabel s a b)) = map (bID \<circ> cInfo) (heap s)"
    by (simp add: relabel_def same_place_def info_def map_update_same)
  then have "all_ids (relabel s a b) = all_ids s"
    by (simp add: all_ids_def) (simp add: relabel_def)
  then show ?thesis by (simp add: ids_ok_def)
qed

subsection \<open>The stack\<close>

lemma grow_frame [simp]:
  "current (grow_child s p blk) = current s" "stack (grow_child s p blk) = stack s"
  "built (grow_child s p blk) = built s" "current_id (grow_child s p blk) = current_id s"
  "current (grow_root s i blk) = current s" "stack (grow_root s i blk) = stack s"
  "length (built (grow_root s i blk)) = length (built s)"
  "current (relabel s a b) = current s" "stack (relabel s a b) = stack s"
  "built (relabel s a b) = built s" "current_id (relabel s a b) = current_id s"
  "current (push s ind a) = current s" "built (push s ind a) = built s"
  "stack (push s ind a) = \<lparr>seIndent = ind, seBlock = a\<rparr> # stack s"
  "heap (push s ind a) = heap s" "current_id (push s ind a) = current_id s"
  by (simp_all add: grow_child_def grow_root_def attach_child_def attach_root_def draw_id_def
      relabel_def push_def current_id_def split: option.split)

lemma current_id_grow_root [simp]:
  "i < length (built s) \<Longrightarrow> current_id (grow_root s i blk) = current_id s"
  by (auto simp: current_id_def grow_root_def attach_root_def draw_id_def nth_list_update
      split: option.split)

lemma stack_okD:
  assumes "stack_ok s" "e \<in> set (stack s)"
  shows "seBlock e < length (heap s)" "bSubflowID (info s (seBlock e)) = current_id s"
  using assms by (auto simp: stack_ok_def)

lemma stack_grow_child:
  assumes "stack_ok s" "p < length (heap s)"
  shows "stack_ok (grow_child s p blk)"
  using assms by (auto simp: stack_ok_def info_grow_child)

lemma stack_grow_root:
  assumes "stack_ok s" "i < length (built s)"
  shows "stack_ok (grow_root s i blk)"
  using assms by (auto simp: stack_ok_def info_grow_root)

lemma stack_push:
  assumes "stack_ok s" "current s \<noteq> None" "a < length (heap s)"
    "bSubflowID (info s a) = current_id s"
  shows "stack_ok (push s ind a)"
  using assms by (auto simp: stack_ok_def)

lemma stack_relabel:
  assumes "stack_ok s" "same_place (info s a) b"
  shows "stack_ok (relabel s a b)"
  using assms by (auto simp: stack_ok_def relabel_place)

subsection \<open>Depth\<close>

lemma levelsD:
  assumes "levels s d"
  shows "root s i r \<Longrightarrow> d r = 1" "child s a c \<Longrightarrow> d c = Suc (d a)"
    "a < length (heap s) \<Longrightarrow> d a \<le> Suc maxNestingDepth"
    "j < length (stack s) \<Longrightarrow> d (seBlock (stack s ! j)) = length (stack s) - j"
  using assms by (auto simp: levels_def)

lemma levels_hd: "levels s d \<Longrightarrow> stack s = e # es \<Longrightarrow> d (seBlock e) = length (stack s)"
  using levelsD(4) [of s d 0] by simp

lemma levels_drop:
  assumes "levels s d" "heap s' = heap s" "built s' = built s" "stack s' = drop n (stack s)"
  shows "levels s' d"
  unfolding levels_def
proof (intro conjI allI impI)
  fix j assume "j < length (stack s')"
  then show "d (seBlock (stack s' ! j)) = length (stack s') - j"
    using levelsD(4) [OF assms(1), of "n + j"] assms(4) by simp
qed (use assms(2,3) levelsD [OF assms(1)] in \<open>auto simp: root_def child_def\<close>)

lemma no_child_of_new [simp]: "\<not> child s (length (heap s)) c"
  by (simp add: child_def)

lemma levels_grow_child:
  assumes "levels s d" "links_ok s" "stack_ok s" "p < length (heap s)" "d p \<le> maxNestingDepth"
  shows "levels (grow_child s p blk) (d(length (heap s) := Suc (d p)))"
  unfolding levels_def
proof (intro conjI allI impI)
  fix i r assume "root (grow_child s p blk) i r"
  then have "root s i r" by (simp add: root_grow_child)
  with levelsD(1) [OF assms(1)] links_rootD(1) [OF assms(2)]
  show "(d(length (heap s) := Suc (d p))) r = 1" by (metis fun_upd_other less_irrefl)
next
  fix a c assume "child (grow_child s p blk) a c"
  then show "(d(length (heap s) := Suc (d p))) c = Suc ((d(length (heap s) := Suc (d p))) a)"
    using levelsD(2) [OF assms(1)] links_childD(2,3) [OF assms(2)] assms(4)
    by (auto simp: child_grow_child)
next
  fix a assume "a < length (heap (grow_child s p blk))"
  then show "(d(length (heap s) := Suc (d p))) a \<le> Suc maxNestingDepth"
    using levelsD(3) [OF assms(1)] assms(5) by (auto simp: less_Suc_eq)
next
  fix j assume "j < length (stack (grow_child s p blk))"
  then show "(d(length (heap s) := Suc (d p))) (seBlock (stack (grow_child s p blk) ! j)) =
      length (stack (grow_child s p blk)) - j"
    using levelsD(4) [OF assms(1)] stack_okD(1) [OF assms(3) nth_mem, of j] by simp
qed

lemma levels_grow_root:
  assumes "levels s d" "links_ok s" "stack_ok s" "i < length (built s)"
  shows "levels (grow_root s i blk) (d(length (heap s) := 1))"
  unfolding levels_def
proof (intro conjI allI impI)
  fix j r assume "root (grow_root s i blk) j r"
  then show "(d(length (heap s) := 1)) r = 1"
    using levelsD(1) [OF assms(1)] assms(4) by (auto simp: root_grow_root)
next
  fix a c assume "child (grow_root s i blk) a c"
  then show "(d(length (heap s) := 1)) c = Suc ((d(length (heap s) := 1)) a)"
    using levelsD(2) [OF assms(1)] links_childD(2,3) [OF assms(2)]
    by (auto simp: child_grow_root)
next
  fix a assume "a < length (heap (grow_root s i blk))"
  then show "(d(length (heap s) := 1)) a \<le> Suc maxNestingDepth"
    using levelsD(3) [OF assms(1)] by (auto simp: less_Suc_eq)
next
  fix j assume "j < length (stack (grow_root s i blk))"
  then show "(d(length (heap s) := 1)) (seBlock (stack (grow_root s i blk) ! j)) =
      length (stack (grow_root s i blk)) - j"
    using levelsD(4) [OF assms(1)] stack_okD(1) [OF assms(3) nth_mem, of j] by simp
qed

lemma levels_push:
  assumes "levels s d" "d a = Suc (length (stack s))"
  shows "levels (push s ind a) d"
  unfolding levels_def
proof (intro conjI allI impI)
  fix j assume "j < length (stack (push s ind a))"
  then show "d (seBlock (stack (push s ind a) ! j)) = length (stack (push s ind a)) - j"
    using assms levelsD(4) [OF assms(1), of "j - 1"] by (cases j) auto
qed (use levelsD [OF assms(1)] in auto)

lemma levels_relabel: "levels s d \<Longrightarrow> levels (relabel s a b) d"
  by (simp add: levels_def root_relabel child_relabel)

lemma levels_open:
  assumes "levels s d"
  shows "levels (open_subflow s sid nm) d"
  unfolding levels_def using levelsD [OF assms]
  by (auto simp: root_open) (simp add: open_subflow_def)

subsection \<open>The invariant is preserved\<close>

definition tree_inv :: "(nat \<Rightarrow> string) \<Rightarrow> parseState \<Rightarrow> bool" where
  "tree_inv uuid s \<longleftrightarrow>
     links_ok s \<and> partition_ok s \<and> (inj uuid \<longrightarrow> ids_ok uuid s) \<and> stack_ok s \<and> depth_ok s"

lemma stack_bounded_closable:
  assumes "stack_bounded s" "stack s = e # es" "closable (entry_type s e)"
  shows "length (stack s) \<le> maxNestingDepth"
  using assms by (auto simp: stack_bounded_def)

lemma entry_type_info: "entry_type s e = bType (info s (seBlock e))"
  by (simp add: entry_type_def type_at_def info_def)

lemma tree_inv_grow_child:
  assumes inv: "tree_inv uuid s" and fr: "fresh_block uuid s blk"
    and st: "stack s = e # es" and len: "length (stack s) \<le> maxNestingDepth"
  shows "tree_inv uuid (grow_child s (seBlock e) blk)"
    and "levels s d \<Longrightarrow>
      levels (grow_child s (seBlock e) blk) (d(length (heap s) := Suc (length (stack s))))"
proof -
  from inv have l: "links_ok s" and p: "partition_ok s" and i: "inj uuid \<longrightarrow> ids_ok uuid s" and s: "stack_ok s"
    and d: "depth_ok s" by (simp_all add: tree_inv_def)
  note e = stack_okD [OF s, of e, unfolded st, simplified]
  show lev: "levels (grow_child s (seBlock e) blk) (d(length (heap s) := Suc (length (stack s))))"
    if "levels s d" for d
    using levels_grow_child [OF that l s e(1)] levels_hd [OF that st] len by simp
  have "stack_bounded (grow_child s (seBlock e) blk)"
    using len by (simp add: stack_bounded_def)
  with lev d have "depth_ok (grow_child s (seBlock e) blk)"
    unfolding depth_ok_def by blast
  moreover have "links_ok (grow_child s (seBlock e) blk)"
    using l e fr by (intro links_grow_child) (simp_all add: fresh_block_def)
  moreover have "inj uuid \<longrightarrow> ids_ok uuid (grow_child s (seBlock e) blk)"
    using i fr by (auto intro!: ids_grow [where s = s] simp: all_ids_grow fresh_block_def)
  ultimately show "tree_inv uuid (grow_child s (seBlock e) blk)"
    using partition_grow_child [OF p e(1)] stack_grow_child [OF s e(1)]
    by (simp add: tree_inv_def)
qed

lemma tree_inv_grow_root:
  assumes inv: "tree_inv uuid s" and fr: "fresh_block uuid s blk"
    and cur: "current s = Some i" and st: "stack s = []"
  shows "tree_inv uuid (grow_root s i blk)"
    and "levels s d \<Longrightarrow> levels (grow_root s i blk) (d(length (heap s) := 1))"
proof -
  from inv have l: "links_ok s" and p: "partition_ok s" and ids: "inj uuid \<longrightarrow> ids_ok uuid s" and s: "stack_ok s"
    and d: "depth_ok s" by (simp_all add: tree_inv_def)
  have i: "i < length (built s)" using s cur by (simp add: stack_ok_def)
  show lev: "levels (grow_root s i blk) (d(length (heap s) := 1))" if "levels s d" for d
    using that l s i by (rule levels_grow_root)
  with d have "depth_ok (grow_root s i blk)"
    unfolding depth_ok_def stack_bounded_def using st by auto
  moreover have "links_ok (grow_root s i blk)"
    using l i fr cur by (intro links_grow_root) (simp_all add: fresh_block_def current_id_def)
  moreover have "inj uuid \<longrightarrow> ids_ok uuid (grow_root s i blk)"
    using ids fr by (auto intro!: ids_grow [where s = s] simp: all_ids_grow fresh_block_def)
  ultimately show "tree_inv uuid (grow_root s i blk)"
    using partition_grow_root [OF p i] stack_grow_root [OF s i]
    by (simp add: tree_inv_def)
qed

lemma tree_inv_push:
  assumes inv: "tree_inv uuid s" and cur: "current s \<noteq> None" and a: "a < length (heap s)"
    "bSubflowID (info s a) = current_id s"
    and lev: "levels s d" "d a = Suc (length (stack s))"
    and bnd: "length (stack s) < maxNestingDepth \<or>
      length (stack s) \<le> maxNestingDepth \<and> \<not> closable (bType (info s a))"
  shows "tree_inv uuid (push s ind a)"
proof -
  from inv have s: "stack_ok s" by (simp add: tree_inv_def)
  have "depth_ok (push s ind a)"
    using levels_push [OF lev] bnd unfolding depth_ok_def stack_bounded_def
    by (auto simp: entry_type_info)
  moreover have "links_ok (push s ind a) = links_ok s" by (rule links_cong) simp_all
  moreover have "partition_ok (push s ind a) = partition_ok s"
    by (rule partition_cong) (simp_all add: root_addrs_def)
  ultimately show ?thesis
    using inv stack_push [OF s cur a] by (simp add: tree_inv_def)
qed

lemma tree_inv_frame:
  assumes "tree_inv uuid s" "heap s' = heap s" "built s' = built s" "nextID s' = nextID s"
    "current s' = current s" "stack s' = drop n (stack s)"
  shows "tree_inv uuid s'"
proof -
  from assms(1) have s: "stack_ok s" and d: "depth_ok s" by (simp_all add: tree_inv_def)
  have "current_id s' = current_id s" by (simp add: current_id_def assms split: option.split)
  then have "stack_ok s'"
    using s set_drop_subset [of n "stack s"] assms by (auto simp: stack_ok_def info_def)
  moreover have "stack_bounded s'"
    using d assms(2,6) by (cases n) (auto simp: depth_ok_def stack_bounded_def entry_type_info info_def)
  with d levels_drop [OF _ assms(2,3,6)] have "depth_ok s'" by (auto simp: depth_ok_def)
  moreover have "inj uuid \<longrightarrow> ids_ok uuid s'" using assms by (simp add: tree_inv_def ids_ok_def all_ids_def)
  ultimately show ?thesis
    using assms links_cong [OF assms(2,3)] partition_cong [of s' s]
    by (simp add: tree_inv_def root_addrs_def)
qed

lemma tree_inv_relabel:
  assumes inv: "tree_inv uuid s" and sp: "same_place (info s a) b"
  shows "tree_inv uuid (relabel s a b)"
proof -
  from inv have s: "stack_ok s" and d: "depth_ok s" by (simp_all add: tree_inv_def)
  have "closable (entry_type (relabel s a b) (hd (stack s))) = closable (entry_type s (hd (stack s)))"
    if "stack s \<noteq> []"
    using stack_okD(1) [OF s hd_in_set [OF that]] by (simp add: entry_type_info relabel_place [OF sp])
  then have "stack_bounded (relabel s a b)"
    using d by (cases "stack s = []") (auto simp: depth_ok_def stack_bounded_def)
  with d have "depth_ok (relabel s a b)" by (auto simp: depth_ok_def intro: levels_relabel)
  with inv show ?thesis
    using links_relabel [OF _ sp] ids_relabel [OF sp] stack_relabel [OF s sp]
    by (simp add: tree_inv_def partition_relabel)
qed

lemma tree_inv_open:
  assumes inv: "tree_inv uuid s"
  shows "tree_inv uuid (open_subflow s (uuid (nextID s)) nm)"
proof -
  let ?s = "open_subflow s (uuid (nextID s)) nm"
  have st: "stack ?s = []" "current ?s = Some (length (built s))" "length (built ?s) = Suc (length (built s))"
    by (simp_all add: open_subflow_def draw_id_def)
  then have "stack_ok ?s" unfolding stack_ok_def by simp
  moreover from inv obtain d where "levels s d" unfolding tree_inv_def depth_ok_def by blast
  then have "levels ?s d" by (rule levels_open)
  then have "depth_ok ?s" unfolding depth_ok_def stack_bounded_def st(1) by auto
  moreover have "inj uuid \<longrightarrow> ids_ok uuid ?s"
    using inv by (auto intro!: ids_grow [where s = s] simp: all_ids_grow tree_inv_def)
  ultimately show ?thesis
    using inv unfolding tree_inv_def partition_open by (blast intro: links_open)
qed

lemma tree_inv_close:
  assumes "tree_inv uuid s"
  shows "tree_inv uuid (s\<lparr>current := None, stack := []\<rparr>)"
proof -
  let ?s = "s\<lparr>current := None, stack := []\<rparr>"
  have "links_ok ?s = links_ok s" by (rule links_cong) simp_all
  moreover have "partition_ok ?s = partition_ok s" by (rule partition_cong) (simp_all add: root_addrs_def)
  moreover have "depth_ok ?s"
    using assms levels_drop [where s = s and s' = ?s and n = "length (stack s)"]
    by (auto simp: tree_inv_def depth_ok_def stack_bounded_def)
  ultimately show ?thesis
    using assms by (simp add: tree_inv_def stack_ok_def ids_ok_def all_ids_def)
qed

lemma tree_step_inv:
  assumes "tree_step uuid s s'" "tree_inv uuid s"
  shows "tree_inv uuid s'"
  using assms(1,2)
proof (induction rule: tree_step.induct)
  case (quiet s n f es)
  then show ?case by (rule tree_inv_frame [where n = n]) simp_all
next
  case (relabel s a b)
  then show ?case by (simp add: tree_inv_relabel)
next
  case (leaf s e es blk)
  then have "length (stack s) \<le> maxNestingDepth"
    using stack_bounded_closable [of s e es] by (simp add: tree_inv_def depth_ok_def)
  with leaf show ?case by (intro tree_inv_grow_child)
next
  case (branch s e es blk ind)
  then have len: "length (stack s) \<le> maxNestingDepth"
    using stack_bounded_closable [of s e es] by (simp add: tree_inv_def depth_ok_def)
  note g = tree_inv_grow_child [OF branch(6) branch(4) branch(1) len]
  from branch(6) obtain d where "levels s d" by (auto simp: tree_inv_def depth_ok_def)
  from g(2) [OF this] g(1) branch len show ?case
    using stack_okD(1) [of s e]
    by (intro tree_inv_push [where d = "d(length (heap s) := Suc (length (stack s)))"])
      (auto simp: info_grow_child tree_inv_def fresh_block_def)
next
  case (nest s e es blk ind)
  then have len: "length (stack s) \<le> maxNestingDepth" by simp
  note g = tree_inv_grow_child [OF nest(5) nest(4) nest(1) len]
  from nest(5) obtain d where "levels s d" by (auto simp: tree_inv_def depth_ok_def)
  from g(2) [OF this] g(1) nest show ?case
    using stack_okD(1) [of s e]
    by (intro tree_inv_push [where d = "d(length (heap s) := Suc (length (stack s)))"])
      (auto simp: info_grow_child tree_inv_def fresh_block_def)
next
  case (start s i blk ind)
  note g = tree_inv_grow_root [OF start(4) start(3) start(2) start(1)]
  from start(4) obtain d where "levels s d" by (auto simp: tree_inv_def depth_ok_def)
  moreover have "i < length (built s)" using start by (simp add: tree_inv_def stack_ok_def)
  ultimately show ?case
    using g start
    by (intro tree_inv_push [where d = "d(length (heap s) := 1)"])
      (auto simp: info_grow_root fresh_block_def maxNestingDepth_def)
next
  case (open_sf s name)
  then show ?case by (intro tree_inv_open)
next
  case (close_sf s)
  then show ?case by (rule tree_inv_close)
qed

lemma tree_steps_inv:
  assumes "tree_steps uuid s s'" "tree_inv uuid s"
  shows "tree_inv uuid s'"
  using assms by (induction rule: rtranclp_induct) (auto intro: tree_step_inv)

lemma tree_inv_initial: "tree_inv uuid newParseState"
  by (simp add: tree_inv_def newParseState_def links_ok_def partition_ok_def ids_ok_def stack_ok_def
      depth_ok_def levels_def stack_bounded_def child_def root_def root_addrs_def child_addrs_def
      all_ids_def)

section \<open>Runs\<close>

interpretation tree_machine: step_invariant "processToken uuid" "tree_inv uuid" "\<lambda>_. True"
  by unfold_locales (rule tree_steps_inv [OF processToken_steps])

lemma run_tree_inv: "tree_inv uuid (foldl (processToken uuid) newParseState toks)"
  by (rule tree_machine.run_inv) (simp_all add: tree_inv_initial)

lemma parseErrors_frame [simp]:
  "parseErrors (draw_id s) = parseErrors s"
  "parseErrors (attach_child s p blk) = parseErrors s"
  "parseErrors (attach_root s i blk) = parseErrors s"
  "parseErrors (push s ind a) = parseErrors s"
  "parseErrors (insert_popped s blk) = parseErrors s"
  "parseErrors (promote_top s a) = parseErrors s"
  "parseErrors (set_properties s a ps) = parseErrors s"
  by (simp_all add: draw_id_def attach_child_def attach_root_def push_def insert_popped_def
      insertIntoTree_def promote_top_def set_properties_def split: list.split)

lemma parseErrors_add [simp]:
  "parseErrors (add_error s e) = parseErrors s @ [e]"
  by (simp add: add_error_def)

lemma parseErrors_unclosed:
  "parseErrors (recordUnclosedBlocks s) = parseErrors s @
     map (unclosed_error s) (filter (\<lambda>e. closable (entry_type s e)) (rev (stack s)))"
  by (simp add: recordUnclosedBlocks_def)

lemmas handler_defs = handleErrorHandlerStart_def handleBlockStart_def handleSwitchStart_def
  handleCase_def handleDefault_def handleConditionElse_def handleLoopStart_def handleEnd_def
  handleConditionStart_def handleComment_def handleAction_def handleSubflowStart_def
  handleSubflowEnd_def guarded_insert_def open_branch_def requireSubflow_def requireDepth_def
  recordMalformedLine_def Let_def

interpretation parse_log: growing_log "processToken uuid" parseErrors
  by unfold_locales
    (simp add: processToken_def handler_defs parseErrors_unclosed split: TokenKind.split list.split
      option.split)

end
