(* ===== verification/Parser.thy ===== *)
theory Parser
  imports Parser_Forest
begin

text \<open>
  core/parser/parser.go and parse_simple.go, from tokens to a document: the pointer forest is
  copied into a value tree (\<open>toValueTree\<close>), counted and indexed, and \<open>Parse\<close> runs the
  pipeline with or without a progress callback (the calls to it are returned as a trace).
  The pointer walk takes fuel: \<open>None\<close> would be a walk that does not return. The heap's size is
  enough fuel, since a child is always newer than its parent (\<open>toValueTree_total\<close>).
\<close>

section \<open>Value trees\<close>

fun toValueTree :: "nat \<Rightarrow> cell list \<Rightarrow> addr \<Rightarrow> Block option" where
  "toValueTree 0 h a = None"
| "toValueTree (Suc n) h a =
     (case those (map (toValueTree n h) (ChildPtrs (h ! a))) of
        None \<Rightarrow> None
      | Some cs \<Rightarrow> Some (Block (cInfo (h ! a)) cs))"

fun CountDescendants :: "Block \<Rightarrow> nat" where
  "CountDescendants (Block b cs) = length cs + sum_list (map CountDescendants cs)"

fun computeMaxDepth :: "Block \<Rightarrow> nat \<Rightarrow> nat" where
  "computeMaxDepth (Block b cs) depth =
     foldl max depth (map (\<lambda>c. computeMaxDepth c (depth + 1)) cs)"

definition finalize_subflow :: "nat \<Rightarrow> cell list \<Rightarrow> builtSubflow \<Rightarrow> Subflow option" where
  "finalize_subflow fuel h bsf =
     (case those (map (toValueTree fuel h) (bsRoots bsf)) of
        None \<Rightarrow> None
      | Some bs \<Rightarrow> Some \<lparr>sfID = bsID bsf, sfName = bsName bsf, sfSourceFile = [], sfBlocks = bs, sfVariables = []\<rparr>)"

text \<open>The counters the loop over subflows and roots keeps.\<close>

definition tally :: "nat \<times> nat \<Rightarrow> Block \<Rightarrow> nat \<times> nat" where
  "tally t b = (case t of (totalBlocks, maxDepth) \<Rightarrow>
     (totalBlocks + 1 + CountDescendants b,
      if computeMaxDepth b 1 > maxDepth then computeMaxDepth b 1 else maxDepth))"

definition finalizeSubflows ::
    "nat \<Rightarrow> cell list \<Rightarrow> builtSubflow list \<Rightarrow> (Subflow list \<times> nat \<times> nat) option" where
  "finalizeSubflows fuel h bs =
     (case those (map (finalize_subflow fuel h) bs) of
        None \<Rightarrow> None
      | Some sfs \<Rightarrow>
          (case foldl tally (0, 0) (concat (map sfBlocks sfs)) of
             (totalBlocks, maxDepth) \<Rightarrow> Some (sfs, totalBlocks, maxDepth)))"

section \<open>The document\<close>

text \<open>\<open>filepath.Ext\<close> on a system whose path separator is the slash.\<close>

definition Ext :: "string \<Rightarrow> string" where
  "Ext path =
     (let base = rev (takeWhile (\<lambda>c. c \<noteq> CHR ''/'') (rev path)) in
      if CHR ''.'' \<in> set base
      then CHR ''.'' # rev (takeWhile (\<lambda>c. c \<noteq> CHR ''.'') (rev base))
      else [])"

type_synonym block_index = "(string \<times> Block) list \<times> (string \<times> Subflow) list"

fun indexBlockInDoc :: "Subflow \<Rightarrow> block_index \<Rightarrow> Block \<Rightarrow> block_index" where
  "indexBlockInDoc sf ix (Block b cs) =
     (case ix of (byID, bySf) \<Rightarrow>
        foldl (\<lambda>ix c. indexBlockInDoc sf ix c)
          (AList.update (bID b) (Block b cs) byID, AList.update (bID b) sf bySf) cs)"

definition index_subflow :: "block_index \<Rightarrow> Subflow \<Rightarrow> block_index" where
  "index_subflow ix sf = foldl (indexBlockInDoc sf) ix (sfBlocks sf)"

definition index_blocks :: "Subflow list \<Rightarrow> block_index" where
  "index_blocks sfs = foldl index_subflow ([], []) sfs"

definition index_subflows :: "Subflow list \<Rightarrow> (string \<times> Subflow) list" where
  "index_subflows sfs = foldl (\<lambda>m sf. AList.update (sfID sf) sf m) [] sfs"

definition stamp :: "string \<Rightarrow> Subflow \<Rightarrow> Subflow" where
  "stamp fileName sf = (if sfSourceFile sf = [] then sf\<lparr>sfSourceFile := fileName\<rparr> else sf)"

definition buildDocument ::
    "string \<Rightarrow> string \<Rightarrow> string \<Rightarrow> nat \<Rightarrow> Subflow list \<Rightarrow> ParseError list \<Rightarrow> nat \<Rightarrow> nat \<Rightarrow> FlowDocument" where
  "buildDocument nid src fileName fileSize subflows errs totalBlocks maxDepth =
     (let sfs = map (stamp fileName) subflows in
      \<lparr>docID = nid, docName = TrimSuffix fileName (Ext fileName), StableID = [], FilePath = [],
       Subflows = sfs, ParseErrors = errs,
       Metadata = \<lparr>BlockCount = totalBlocks, SubflowCount = length subflows, MaxDepth = maxDepth,
         FileSize = fileSize, RawLineCount = lineCount src\<rparr>,
       Files = [], IsFolder = False,
       BlocksByID = fst (index_blocks sfs), BlockSubflow = snd (index_blocks sfs),
       SubflowsByID = index_subflows sfs\<rparr>)"

section \<open>The pipeline\<close>

definition wrapImplicitSubflow :: "Token list \<Rightarrow> string \<Rightarrow> Token list" where
  "wrapImplicitSubflow toks fileName =
     (let name = TrimSuffix fileName (Ext fileName);
          name = (if name = [] then ''Main'' else name);
          start = zero_token\<lparr>tkKind := TokSubflowStart, tkLine := 1, tkName := name,
                    tkRawType := ''Region''\<rparr>;
          fin = zero_token\<lparr>tkKind := TokSubflowEnd, tkRawType := ''EndRegion''\<rparr>
      in [start] @ toks @ [fin])"

definition implicit_tokens :: "string \<Rightarrow> string \<Rightarrow> Token list" where
  "implicit_tokens src fileName =
     (let toks = Tokenize src in
      if list_ex (\<lambda>t. tkKind t = TokSubflowStart) toks then toks
      else wrapImplicitSubflow toks fileName)"

type_synonym progress = "(nat \<times> string) list"

record progressState =
  pgState :: parseState
  pgProcessed :: nat
  pgLast :: nat
  pgCalls :: progress

text \<open>One iteration of the loop that reports progress.\<close>

definition progress_step :: "(nat \<Rightarrow> string) \<Rightarrow> nat \<Rightarrow> progressState \<Rightarrow> Token \<Rightarrow> progressState" where
  "progress_step uuid totalTokens p tok =
     (if tkKind tok = TokEmpty then p
      else
        (let processed = pgProcessed p + 1;
             pct = 10 + processed * 85 div max totalTokens 1;
             report = pgLast p + 5 \<le> pct
         in \<lparr>pgState = processToken uuid (pgState p) tok, pgProcessed = processed,
             pgLast = (if report then pct else pgLast p),
             pgCalls = pgCalls p @ (if report then [(pct, ''Parsing...'')] else [])\<rparr>))"

definition progress_loop :: "(nat \<Rightarrow> string) \<Rightarrow> Token list \<Rightarrow> progressState" where
  "progress_loop uuid toks =
     foldl (progress_step uuid (length (filter (\<lambda>t. tkKind t \<noteq> TokEmpty) toks)))
       \<lparr>pgState = newParseState, pgProcessed = 0, pgLast = 10, pgCalls = [(10, ''Tokenized'')]\<rparr>
       toks"

definition finish :: "parseState \<Rightarrow> parseState" where
  "finish s = (if current s \<noteq> None then recordUnclosedBlocks s else s)"

record ParserConf =
  pText :: string
  pFileName :: string
  pFileSize :: nat
  pOnProgress :: bool

definition Parse :: "(nat \<Rightarrow> string) \<Rightarrow> ParserConf \<Rightarrow> FlowDocument option \<times> progress" where
  "Parse uuid p =
     (let toks = implicit_tokens (pText p) (pFileName p);
          (s, calls) = (if pOnProgress p
             then (pgState (progress_loop uuid toks), pgCalls (progress_loop uuid toks))
             else (foldl (processToken uuid) newParseState toks, []));
          s = finish s;
          calls1 = (if pOnProgress p then calls @ [(95, ''Finalizing...'')] else calls)
      in case finalizeSubflows (length (heap s)) (heap s) (built s) of
           None \<Rightarrow> (None, calls1)
         | Some (subflows, totalBlocks, maxDepth) \<Rightarrow>
             (Some (buildDocument (uuid (nextID s)) (pText p) (pFileName p) (pFileSize p) subflows
                (parseErrors s) totalBlocks maxDepth),
              if pOnProgress p then calls1 @ [(100, ''Done'')] else calls1))"

definition MaxParseTextSize :: nat where
  "MaxParseTextSize = 50 * 1024 * 1024"

text \<open>Why no document comes back; \<open>NoResult\<close> is a parse that does not return.\<close>

datatype ParseFailure = SourceTooLarge nat nat | NoResult

definition run_parser :: "(nat \<Rightarrow> string) \<Rightarrow> ParserConf \<Rightarrow> (ParseFailure + FlowDocument) \<times> progress" where
  "run_parser uuid p = (case Parse uuid p of
     (None, calls) \<Rightarrow> (Inl NoResult, calls) | (Some doc, calls) \<Rightarrow> (Inr doc, calls))"

definition ParseText :: "(nat \<Rightarrow> string) \<Rightarrow> string \<Rightarrow> string \<Rightarrow> nat \<Rightarrow> ParseFailure + FlowDocument" where
  "ParseText uuid src fileName fileSize =
     (if length src > MaxParseTextSize then Inl (SourceTooLarge (length src) MaxParseTextSize)
      else fst (run_parser uuid
        \<lparr>pText = src, pFileName = fileName, pFileSize = fileSize, pOnProgress = False\<rparr>))"

text \<open>\<open>cb\<close>: whether a callback is given.\<close>

definition ParseTextWithProgress ::
    "(nat \<Rightarrow> string) \<Rightarrow> string \<Rightarrow> string \<Rightarrow> nat \<Rightarrow> bool \<Rightarrow> (ParseFailure + FlowDocument) \<times> progress" where
  "ParseTextWithProgress uuid src fileName fileSize cb =
     (if \<not> cb \<or> fileSize < 1000000 then (ParseText uuid src fileName fileSize, [])
      else run_parser uuid
        \<lparr>pText = src, pFileName = fileName, pFileSize = fileSize, pOnProgress = True\<rparr>)"

end
