(* ===== verification/Parser_Correct.thy ===== *)
theory Parser_Correct
  imports Parser
begin

text \<open>
  What a parse returns: the value tree copies the pointer forest (each block once, parents
  and subflows consistent, depth bounded), the indexes agree with the tree, the progress
  path agrees with the silent one, and errors survive to the document.
\<close>

section \<open>Copying the forest\<close>

lemma those_map_Some: "(\<And>x. x \<in> set xs \<Longrightarrow> f x = Some (g x)) \<Longrightarrow> those (map f xs) = Some (map g xs)"
  by (induction xs) simp_all

lemma those_map_mono:
  "those (map f xs) = Some ys \<Longrightarrow> (\<And>x y. x \<in> set xs \<Longrightarrow> f x = Some y \<Longrightarrow> g x = Some y) \<Longrightarrow>
     those (map g xs) = Some ys"
  by (induction xs arbitrary: ys) (auto split: option.splits)

lemma toValueTree_mono: "toValueTree n h a = Some b \<Longrightarrow> toValueTree (Suc n) h a = Some b"
proof (induction n arbitrary: a b)
  case 0
  then show ?case by simp
next
  case (Suc n)
  then obtain cs where cs: "those (map (toValueTree n h) (ChildPtrs (h ! a))) = Some cs"
    and b: "b = Block (cInfo (h ! a)) cs" by (auto split: option.splits)
  have "those (map (toValueTree (Suc n) h) (ChildPtrs (h ! a))) = Some cs"
    using cs Suc.IH by (rule those_map_mono)
  with b show ?case by simp
qed

lemma toValueTree_mono_le: "toValueTree n h a = Some b \<Longrightarrow> n \<le> m \<Longrightarrow> toValueTree m h a = Some b"
  by (induction m) (auto simp: le_Suc_eq intro: toValueTree_mono simp del: toValueTree.simps)

text \<open>Enough fuel: as many levels as there are newer blocks.\<close>

lemma toValueTree_total:
  assumes "links_ok s"
  shows "a < length (heap s) \<Longrightarrow> length (heap s) - a \<le> n \<Longrightarrow> \<exists>b. toValueTree n (heap s) a = Some b"
proof (induction n arbitrary: a)
  case 0
  then show ?case by simp
next
  case (Suc n)
  have "\<exists>b. toValueTree n (heap s) c = Some b" if "c \<in> set (ChildPtrs (heap s ! a))" for c
  proof -
    have "child s a c" using that Suc.prems by (simp add: child_def)
    from links_childD [OF assms this] Suc.prems show ?thesis by (intro Suc.IH) auto
  qed
  then obtain f where "\<And>c. c \<in> set (ChildPtrs (heap s ! a)) \<Longrightarrow> toValueTree n (heap s) c = Some (f c)"
    by metis
  then have "those (map (toValueTree n (heap s)) (ChildPtrs (heap s ! a))) =
      Some (map f (ChildPtrs (heap s ! a)))"
    by (rule those_map_Some)
  then show ?case by simp
qed

definition vtree :: "parseState \<Rightarrow> addr \<Rightarrow> Block" where
  "vtree s a = the (toValueTree (length (heap s)) (heap s) a)"

lemma toValueTree_vtree:
  assumes "links_ok s" "a < length (heap s)"
  shows "toValueTree (length (heap s)) (heap s) a = Some (vtree s a)"
  using toValueTree_total [OF assms, of "length (heap s)"] by (auto simp: vtree_def)

lemma vtree_unfold:
  assumes "links_ok s" "a < length (heap s)"
  shows "vtree s a = Block (info s a) (map (vtree s) (ChildPtrs (heap s ! a)))"
proof -
  have "toValueTree (length (heap s)) (heap s) c = Some (vtree s c)"
    if "c \<in> set (ChildPtrs (heap s ! a))" for c
    using that assms by (intro toValueTree_vtree links_childD(2)) (auto simp: child_def)
  then have "those (map (toValueTree (length (heap s)) (heap s)) (ChildPtrs (heap s ! a))) =
      Some (map (vtree s) (ChildPtrs (heap s ! a)))"
    by (rule those_map_Some)
  with toValueTree_mono [OF toValueTree_vtree [OF assms]]
  show ?thesis by (simp add: info_def)
qed

text \<open>Induction over the forest, from the newest blocks to the oldest.\<close>

lemma forest_induct [consumes 2, case_names node]:
  assumes "links_ok s" "a < length (heap s)"
    and step: "\<And>a. a < length (heap s) \<Longrightarrow> (\<And>c. child s a c \<Longrightarrow> P c) \<Longrightarrow> P a"
  shows "P a"
  using assms(2)
proof (induction "length (heap s) - a" arbitrary: a rule: less_induct)
  case less
  show ?case
  proof (rule step [OF less.prems])
    fix c assume "child s a c"
    from links_childD [OF assms(1) this] show "P c"
      by (intro less.hyps) auto
  qed
qed

definition subflow_of :: "parseState \<Rightarrow> builtSubflow \<Rightarrow> Subflow" where
  "subflow_of s b = \<lparr>sfID = bsID b, sfName = bsName b, sfSourceFile = [],
     sfBlocks = map (vtree s) (bsRoots b), sfVariables = []\<rparr>"

lemma root_addrs_root: "r \<in> set (root_addrs s) \<Longrightarrow> \<exists>i. root s i r"
  by (auto simp: root_addrs_def root_def) (metis in_set_conv_nth)

lemma roots_valid:
  assumes "links_ok s" "b \<in> set (built s)" "r \<in> set (bsRoots b)"
  shows "r < length (heap s)"
proof -
  obtain i where "i < length (built s)" "built s ! i = b" using assms(2) by (auto simp: in_set_conv_nth)
  with assms(3) have "root s i r" by (simp add: root_def)
  then show ?thesis by (rule links_rootD(1) [OF assms(1)])
qed

lemma finalizeSubflows_total:
  assumes "links_ok s"
  shows "finalizeSubflows (length (heap s)) (heap s) (built s) =
    (let sfs = map (subflow_of s) (built s);
         t = foldl tally (0, 0) (concat (map sfBlocks sfs)) in Some (sfs, fst t, snd t))"
proof -
  have "finalize_subflow (length (heap s)) (heap s) b = Some (subflow_of s b)"
    if "b \<in> set (built s)" for b
  proof -
    have "those (map (toValueTree (length (heap s)) (heap s)) (bsRoots b)) =
        Some (map (vtree s) (bsRoots b))"
      by (rule those_map_Some) (rule toValueTree_vtree [OF assms roots_valid [OF assms that]])
    then show ?thesis by (simp add: finalize_subflow_def subflow_of_def)
  qed
  then have "those (map (finalize_subflow (length (heap s)) (heap s)) (built s)) =
      Some (map (subflow_of s) (built s))"
    by (rule those_map_Some)
  then show ?thesis
    by (simp add: finalizeSubflows_def Let_def split: prod.split)
qed

section \<open>Counting\<close>

lemma CountDescendants_preorder: "Suc (CountDescendants b) = length (preorder b)"
proof (induction b)
  case (Block b cs)
  have "length cs + sum_list (map CountDescendants cs) = sum_list (map (\<lambda>c. Suc (CountDescendants c)) cs)"
    by (induction cs) simp_all
  also have "\<dots> = sum_list (map (\<lambda>c. length (preorder c)) cs)"
    using Block.IH by (intro arg_cong [where f = sum_list] map_cong) simp_all
  finally show ?case by (simp add: length_concat comp_def)
qed

lemma tally_total: "fst (foldl tally t bs) = fst t + length (forest_blocks bs)"
  by (induction bs arbitrary: t)
    (simp_all add: tally_def CountDescendants_preorder [symmetric] split: prod.splits)

lemma tally_depth:
  "snd (foldl tally t bs) = foldl max (snd t) (map (\<lambda>b. computeMaxDepth b 1) bs)"
  by (induction bs arbitrary: t) (auto simp: tally_def max_def split: prod.splits)

lemma forest_blocks_concat: "forest_blocks (concat bss) = concat (map forest_blocks bss)"
  by (induction bss) simp_all

text \<open>Every block that was made is in the tree exactly once.\<close>

lemma sum_list_mset_cong:
  fixes f :: "'a \<Rightarrow> 'b::comm_monoid_add"
  assumes "mset xs = mset ys"
  shows "sum_list (map f xs) = sum_list (map f ys)"
  using assms by (metis mset_map sum_mset_sum_list)

lemma sum_list_concat_map:
  fixes f :: "'a \<Rightarrow> 'b::comm_monoid_add"
  shows "sum_list (map f (concat xss)) = sum_list (map (\<lambda>xs. sum_list (map f xs)) xss)"
  by (induction xss) simp_all

lemma mset_concat_sum: "mset (concat xss) = sum_list (map mset xss)"
  by (induction xss) simp_all

lemma mset_info_forest:
  "mset (map binfo (forest_blocks bs)) = sum_list (map (\<lambda>b. mset (map binfo (preorder b))) bs)"
  by (induction bs) simp_all

lemma forest_has_every_block:
  assumes l: "links_ok s" and p: "partition_ok s"
  shows "mset (map binfo (forest_blocks (map (vtree s) (root_addrs s)))) = mset (map cInfo (heap s))"
proof -
  define M where "M a = mset (map binfo (preorder (vtree s a)))" for a
  let ?n = "length (heap s)"
  have M: "M a = {#info s a#} + sum_list (map M (ChildPtrs (heap s ! a)))" if "a < ?n" for a
  proof -
    have "M a = add_mset (info s a) (mset (map binfo (forest_blocks (map (vtree s) (ChildPtrs (heap s ! a))))))"
      unfolding M_def vtree_unfold [OF l that] preorder_eq by simp
    then show ?thesis by (simp add: mset_info_forest comp_def M_def [abs_def] del: mset_map)
  qed
  have "sum_list (map M [0..<?n]) =
      sum_list (map (\<lambda>a. {#info s a#} + sum_list (map M (ChildPtrs (heap s ! a)))) [0..<?n])"
    using M by (intro arg_cong [where f = sum_list] map_cong) simp_all
  also have "\<dots> = sum_list (map (\<lambda>a. {#info s a#}) [0..<?n]) +
      sum_list (map (\<lambda>a. sum_list (map M (ChildPtrs (heap s ! a)))) [0..<?n])"
    by (rule sum_list_addf)
  also have "map (\<lambda>a. sum_list (map M (ChildPtrs (heap s ! a)))) [0..<?n] =
      map (\<lambda>c. sum_list (map M (ChildPtrs c))) (heap s)"
    by (rule nth_equalityI) simp_all
  also have "sum_list \<dots> = sum_list (map M (child_addrs s))"
    by (simp add: child_addrs_def sum_list_concat_map comp_def)
  also have "sum_list (map (\<lambda>a. {#info s a#}) [0..<?n]) = mset (map (info s) [0..<?n])"
    by (induction ?n) simp_all
  also have "map (info s) [0..<?n] = map cInfo (heap s)"
    by (rule nth_equalityI) (simp_all add: info_def)
  finally have 1: "sum_list (map M [0..<?n]) = mset (map cInfo (heap s)) + sum_list (map M (child_addrs s))" .
  have 2: "sum_list (map M [0..<?n]) = sum_list (map M (root_addrs s)) + sum_list (map M (child_addrs s))"
    using sum_list_mset_cong [OF p [unfolded partition_ok_def], of M] by simp
  from 1 2 have "sum_list (map M (root_addrs s)) = mset (map cInfo (heap s))" by simp
  then show ?thesis by (simp only: mset_info_forest map_map comp_def M_def [abs_def])
qed

section \<open>Parents, subflows, depth\<close>

text \<open>A block of subflow \<open>sid\<close> under the block \<open>pid\<close>, and everything below it.\<close>

fun placed :: "string \<Rightarrow> string \<Rightarrow> Block \<Rightarrow> bool" where
  "placed sid pid (Block b cs) \<longleftrightarrow> bSubflowID b = sid \<and> bParentID b = pid \<and>
     list_all (placed sid (bID b)) cs"

lemma vtree_placed:
  assumes "links_ok s" "a < length (heap s)"
  shows "placed (bSubflowID (info s a)) (bParentID (info s a)) (vtree s a)"
  using assms
proof (induction rule: forest_induct)
  case (node a)
  have "placed (bSubflowID (info s a)) (bID (info s a)) (vtree s c)" if "child s a c" for c
    using node.IH [OF that] links_childD(4,5) [OF assms(1) that] by simp
  then show ?case
    using node.hyps by (simp add: vtree_unfold [OF assms(1)] list_all_iff child_def)
qed

lemma foldl_max_le: "(foldl max m xs \<le> k) \<longleftrightarrow> m \<le> k \<and> (\<forall>x\<in>set xs. x \<le> (k::nat))"
  by (induction xs arbitrary: m) auto

lemma vtree_depth:
  assumes "links_ok s" "a < length (heap s)" "levels s d"
  shows "computeMaxDepth (vtree s a) (d a) \<le> Suc maxNestingDepth"
  using assms(1,2)
proof (induction rule: forest_induct)
  case (node a)
  have "computeMaxDepth (vtree s c) (d a + 1) \<le> Suc maxNestingDepth" if "child s a c" for c
    using node.IH [OF that] levelsD(2) [OF assms(3) that] by simp
  then show ?case
    using node.hyps levelsD(3) [OF assms(3)]
    by (simp add: vtree_unfold [OF assms(1)] foldl_max_le child_def)
qed

section \<open>Indexes\<close>

lemma update_fresh: "k \<notin> fst ` set m \<Longrightarrow> AList.update k v m = m @ [(k, v)]"
  by (induction m) auto

lemma foldl_update_fresh:
  "distinct (map key xs) \<Longrightarrow> key ` set xs \<inter> fst ` set m = {} \<Longrightarrow>
     foldl (\<lambda>m x. AList.update (key x) (val x) m) m xs = m @ map (\<lambda>x. (key x, val x)) xs"
proof (induction xs arbitrary: m)
  case Nil
  show ?case by simp
next
  case (Cons x xs)
  then have "key x \<notin> fst ` set m" "key ` set xs \<inter> fst ` set (m @ [(key x, val x)]) = {}"
    by auto
  then show ?case using Cons.IH [of "m @ [(key x, val x)]"] Cons.prems(1) by (simp add: update_fresh)
qed

definition index_step :: "block_index \<Rightarrow> Subflow \<times> Block \<Rightarrow> block_index" where
  "index_step ix p = (AList.update (bID (binfo (snd p))) (snd p) (fst ix),
     AList.update (bID (binfo (snd p))) (fst p) (snd ix))"

lemma index_step_pair:
  "index_step (m, n) (sf, b) =
     (AList.update (bID (binfo b)) b m, AList.update (bID (binfo b)) sf n)"
  by (simp add: index_step_def)

lemma indexBlockInDoc_foldl:
  "indexBlockInDoc sf ix b = foldl index_step ix (map (Pair sf) (preorder b))"
proof (induction b arbitrary: ix)
  case (Block b cs)
  have "foldl (indexBlockInDoc sf) ix cs = foldl index_step ix (map (Pair sf) (concat (map preorder cs)))"
    for ix
    using Block.IH
  proof (induction cs arbitrary: ix)
    case Nil
    show ?case by simp
  next
    case (Cons c cs)
    then show ?case by simp
  qed
  then show ?case by (cases ix) (simp add: index_step_pair)
qed

definition doc_pairs :: "Subflow list \<Rightarrow> (Subflow \<times> Block) list" where
  "doc_pairs sfs = concat (map (\<lambda>sf. map (Pair sf) (forest_blocks (sfBlocks sf))) sfs)"

lemma index_subflow_foldl:
  "index_subflow ix sf = foldl index_step ix (map (Pair sf) (forest_blocks (sfBlocks sf)))"
proof -
  have "foldl (indexBlockInDoc sf) ix bs = foldl index_step ix (map (Pair sf) (forest_blocks bs))" for bs
    by (induction bs arbitrary: ix) (simp_all add: indexBlockInDoc_foldl)
  then show ?thesis by (simp add: index_subflow_def)
qed

lemma index_blocks_foldl: "index_blocks sfs = foldl index_step ([], []) (doc_pairs sfs)"
proof -
  have "foldl index_subflow ix sfs = foldl index_step ix (doc_pairs sfs)" for ix
    by (induction sfs arbitrary: ix) (simp_all add: index_subflow_foldl doc_pairs_def)
  then show ?thesis by (simp add: index_blocks_def)
qed

lemma foldl_index_step:
  "foldl index_step ix ps =
     (foldl (\<lambda>m p. AList.update (bID (binfo (snd p))) (snd p) m) (fst ix) ps,
      foldl (\<lambda>m p. AList.update (bID (binfo (snd p))) (fst p) m) (snd ix) ps)"
  by (induction ps arbitrary: ix) (simp_all add: index_step_def)

definition doc_blocks :: "Subflow list \<Rightarrow> Block list" where
  "doc_blocks sfs = concat (map (\<lambda>sf. forest_blocks (sfBlocks sf)) sfs)"

lemma map_snd_doc_pairs: "map snd (doc_pairs sfs) = doc_blocks sfs"
  by (simp add: doc_pairs_def doc_blocks_def map_concat comp_def)

lemma index_blocks_distinct:
  assumes "distinct (map (bID \<circ> binfo) (doc_blocks sfs))"
  shows "index_blocks sfs =
    (map (\<lambda>p. (bID (binfo (snd p)), snd p)) (doc_pairs sfs),
     map (\<lambda>p. (bID (binfo (snd p)), fst p)) (doc_pairs sfs))"
proof -
  have "distinct (map (\<lambda>p. bID (binfo (snd p))) (doc_pairs sfs))"
    using assms unfolding map_snd_doc_pairs [symmetric] by (simp add: comp_def)
  then show ?thesis
    by (simp add: index_blocks_foldl foldl_index_step foldl_update_fresh)
qed

lemma index_subflows_distinct:
  assumes "distinct (map sfID sfs)"
  shows "index_subflows sfs = map (\<lambda>sf. (sfID sf, sf)) sfs"
  using assms by (simp add: index_subflows_def foldl_update_fresh)

section \<open>The parsed document\<close>

text \<open>The state at the end of the token loop, and the document made from it.\<close>

definition final_state :: "(nat \<Rightarrow> string) \<Rightarrow> string \<Rightarrow> string \<Rightarrow> parseState" where
  "final_state uuid src fileName =
     finish (foldl (processToken uuid) newParseState (implicit_tokens src fileName))"

definition final_subflows :: "(nat \<Rightarrow> string) \<Rightarrow> string \<Rightarrow> string \<Rightarrow> Subflow list" where
  "final_subflows uuid src fileName =
     (let s = final_state uuid src fileName in map (subflow_of s) (built s))"

lemma finish_steps: "tree_steps uuid s (finish s)"
  by (simp add: finish_def quiet_unclosed)

lemma final_state_inv: "tree_inv uuid (final_state uuid src fileName)"
  unfolding final_state_def by (rule tree_steps_inv [OF finish_steps run_tree_inv])

lemma final_links: "links_ok (final_state uuid src fileName)"
  and final_partition: "partition_ok (final_state uuid src fileName)"
  using final_state_inv by (simp_all add: tree_inv_def)

lemma progress_loop_state:
  "pgState (progress_loop uuid toks) = foldl (processToken uuid) newParseState toks"
proof -
  have "pgState (foldl (progress_step uuid n) p toks) = foldl (processToken uuid) (pgState p) toks"
    for n p
    by (induction toks arbitrary: p) (simp_all add: progress_step_def Let_def processToken_def)
  then show ?thesis by (simp add: progress_loop_def)
qed

definition the_document :: "(nat \<Rightarrow> string) \<Rightarrow> ParserConf \<Rightarrow> FlowDocument" where
  "the_document uuid p =
     (let s = final_state uuid (pText p) (pFileName p);
          sfs = final_subflows uuid (pText p) (pFileName p);
          t = foldl tally (0, 0) (concat (map sfBlocks sfs))
      in buildDocument (uuid (nextID s)) (pText p) (pFileName p) (pFileSize p) sfs (parseErrors s)
           (fst t) (snd t))"

lemma Parse_document: "fst (Parse uuid p) = Some (the_document uuid p)"
proof -
  let ?s = "final_state uuid (pText p) (pFileName p)"
  have "finalizeSubflows (length (heap ?s)) (heap ?s) (built ?s) =
      (let sfs = final_subflows uuid (pText p) (pFileName p);
           t = foldl tally (0, 0) (concat (map sfBlocks sfs)) in Some (sfs, fst t, snd t))"
    unfolding finalizeSubflows_total [OF final_links] final_subflows_def Let_def ..
  then show ?thesis
    by (simp add: Parse_def the_document_def final_state_def [symmetric] progress_loop_state Let_def
        split: prod.split)
qed

lemma stamp_frame [simp]: "sfID (stamp f sf) = sfID sf" "sfName (stamp f sf) = sfName sf"
  "sfBlocks (stamp f sf) = sfBlocks sf"
  by (simp_all add: stamp_def)

lemma doc_blocks_stamp [simp]: "doc_blocks (map (stamp f) sfs) = doc_blocks sfs"
  by (simp add: doc_blocks_def comp_def)

lemma document_fields:
  "Subflows (the_document uuid p) =
     map (stamp (pFileName p)) (final_subflows uuid (pText p) (pFileName p))"
  "ParseErrors (the_document uuid p) = parseErrors (final_state uuid (pText p) (pFileName p))"
  "BlocksByID (the_document uuid p) = fst (index_blocks (Subflows (the_document uuid p)))"
  "BlockSubflow (the_document uuid p) = snd (index_blocks (Subflows (the_document uuid p)))"
  "SubflowsByID (the_document uuid p) = index_subflows (Subflows (the_document uuid p))"
  by (simp_all add: the_document_def buildDocument_def Let_def)

lemma concat_sfBlocks_final:
  "concat (map sfBlocks (final_subflows uuid src fn)) =
     map (vtree (final_state uuid src fn)) (root_addrs (final_state uuid src fn))"
  by (simp add: final_subflows_def subflow_of_def root_addrs_def Let_def comp_def map_concat)

lemma doc_blocks_forest: "doc_blocks sfs = forest_blocks (concat (map sfBlocks sfs))"
  by (simp add: doc_blocks_def forest_blocks_concat comp_def)

lemma document_blocks:
  "mset (map binfo (doc_blocks (Subflows (the_document uuid p)))) =
     mset (map cInfo (heap (final_state uuid (pText p) (pFileName p))))"
  unfolding document_fields doc_blocks_stamp
  unfolding doc_blocks_forest concat_sfBlocks_final
  by (rule forest_has_every_block [OF final_links final_partition])

lemma document_ids_distinct:
  assumes "inj uuid"
  shows "distinct (map (bID \<circ> binfo) (doc_blocks (Subflows (the_document uuid p))))"
    and "distinct (map sfID (Subflows (the_document uuid p)))"
proof -
  let ?s = "final_state uuid (pText p) (pFileName p)"
  from final_state_inv assms have ids: "ids_ok uuid ?s" by (simp add: tree_inv_def)
  have "mset (map bID (map binfo (doc_blocks (Subflows (the_document uuid p))))) =
      mset (map bID (map cInfo (heap ?s)))"
    using document_blocks [of uuid p] by (metis mset_map)
  from mset_eq_imp_distinct_iff [OF this] ids
  show "distinct (map (bID \<circ> binfo) (doc_blocks (Subflows (the_document uuid p))))"
    by (simp add: ids_ok_def all_ids_def)
  show "distinct (map sfID (Subflows (the_document uuid p)))"
    using ids by (simp add: ids_ok_def all_ids_def document_fields final_subflows_def subflow_of_def
        Let_def comp_def)
qed

lemma parse_block_count:
  "BlockCount (Metadata (the_document uuid p)) = length (doc_blocks (Subflows (the_document uuid p)))"
  by (simp add: the_document_def buildDocument_def Let_def tally_total doc_blocks_forest comp_def)

lemma document_placed:
  "list_all (\<lambda>sf. list_all (placed (sfID sf) []) (sfBlocks sf)) (Subflows (the_document uuid p))"
proof -
  let ?s = "final_state uuid (pText p) (pFileName p)"
  have "placed (bsID b) [] (vtree ?s r)" if b: "b \<in> set (built ?s)" and r: "r \<in> set (bsRoots b)" for b r
  proof -
    from b obtain i where i: "i < length (built ?s)" "built ?s ! i = b" by (auto simp: in_set_conv_nth)
    with r have "root ?s i r" by (simp add: root_def)
    note * = links_rootD [OF final_links this]
    with vtree_placed [OF final_links *(1)] i show ?thesis by simp
  qed
  then show ?thesis
    by (simp add: document_fields final_subflows_def Let_def list_all_iff subflow_of_def)
qed

section \<open>Properties\<close>

text \<open>
  C1: parsing returns a document for every source text, with and without a progress callback:
  the recursion over the pointer forest always ends.
\<close>

theorem parse_total: "\<exists>doc. fst (Parse uuid p) = Some doc"
  by (simp add: Parse_document)

text \<open>
  C4: every block of the document names its parent block and its subflow correctly: roots have
  no parent, a child's \<open>ParentID\<close> is the identifier of the block it hangs under, and the
  whole tree carries the identifier of the subflow it belongs to.
\<close>

theorem parse_places_blocks:
  "list_all (\<lambda>sf. list_all (placed (sfID sf) []) (sfBlocks sf)) (Subflows (the (fst (Parse uuid p))))"
  using document_placed by (simp add: Parse_document)

text \<open>
  C5: the nesting limit holds for the document: the deepest block is at most one level below
  \<open>maxNestingDepth\<close> (the END, ELSE, CASE or ON BLOCK ERROR row of a block at the limit).
\<close>

theorem parse_bounds_depth:
  "MaxDepth (Metadata (the (fst (Parse uuid p)))) \<le> maxNestingDepth + 1"
proof -
  let ?s = "final_state uuid (pText p) (pFileName p)"
  obtain d where d: "levels ?s d"
    using final_state_inv [of uuid "pText p" "pFileName p"] by (auto simp: tree_inv_def depth_ok_def)
  have "computeMaxDepth (vtree ?s r) 1 \<le> maxNestingDepth + 1" if r: "r \<in> set (root_addrs ?s)" for r
  proof -
    from r obtain i where "root ?s i r" by (auto dest: root_addrs_root)
    with vtree_depth [OF final_links links_rootD(1) [OF final_links] d] levelsD(1) [OF d]
    show ?thesis by fastforce
  qed
  then show ?thesis
    by (simp add: Parse_document the_document_def buildDocument_def Let_def tally_depth foldl_max_le
        concat_sfBlocks_final)
qed

text \<open>
  C6: with identifiers that never repeat, the lookup maps agree with the tree: looking up a
  block's identifier gives that block and its subflow, nothing else is in the maps, and there
  are as many entries as blocks.
\<close>

theorem parse_indexes_blocks:
  assumes "inj uuid"
  shows "let doc = the (fst (Parse uuid p)) in
    list_all (\<lambda>sf. map_of (SubflowsByID doc) (sfID sf) = Some sf \<and>
      list_all (\<lambda>b. map_of (BlocksByID doc) (bID (binfo b)) = Some b \<and>
                    map_of (BlockSubflow doc) (bID (binfo b)) = Some sf)
        (forest_blocks (sfBlocks sf))) (Subflows doc) \<and>
    map snd (BlocksByID doc) = doc_blocks (Subflows doc) \<and>
    length (BlocksByID doc) = BlockCount (Metadata doc)"
proof -
  let ?d = "the_document uuid p"
  let ?sfs = "Subflows ?d"
  note dist = document_ids_distinct [OF assms, of p]
  have ix: "BlocksByID ?d = map (\<lambda>q. (bID (binfo (snd q)), snd q)) (doc_pairs ?sfs)"
    "BlockSubflow ?d = map (\<lambda>q. (bID (binfo (snd q)), fst q)) (doc_pairs ?sfs)"
    "SubflowsByID ?d = map (\<lambda>sf. (sfID sf, sf)) ?sfs"
    unfolding document_fields(3-5) index_blocks_distinct [OF dist(1)] index_subflows_distinct [OF dist(2)]
    by simp_all
  have dp: "distinct (map (\<lambda>q. bID (binfo (snd q))) (doc_pairs ?sfs))"
    using dist(1) unfolding map_snd_doc_pairs [symmetric] by (simp add: comp_def)
  have lk: "map_of (BlocksByID ?d) (bID (binfo b)) = Some b \<and>
      map_of (BlockSubflow ?d) (bID (binfo b)) = Some sf"
    if "sf \<in> set ?sfs" "b \<in> set (forest_blocks (sfBlocks sf))" for sf b
  proof -
    from that have "(sf, b) \<in> set (doc_pairs ?sfs)" by (auto simp: doc_pairs_def)
    then show ?thesis
      unfolding ix using dp by (auto simp: comp_def intro!: map_of_is_SomeI rev_image_eqI)
  qed
  have sf: "map_of (SubflowsByID ?d) (sfID sf) = Some sf" if "sf \<in> set ?sfs" for sf
    unfolding ix using that dist(2) by (auto simp: comp_def intro!: map_of_is_SomeI)
  have "BlockCount (Metadata ?d) = length (doc_pairs ?sfs)"
    using parse_block_count [of uuid p] arg_cong [OF map_snd_doc_pairs, of length] by simp
  then show ?thesis
    unfolding Let_def Parse_document option.sel
    using lk sf by (simp add: list_all_iff ix(1) map_snd_doc_pairs [symmetric])
qed

lemma inj_replicate: "inj (\<lambda>k. replicate k (CHR ''a''))"
  by (rule injI) (metis length_replicate)

theorem parse_indexes_blocks_witness:
  "inj (\<lambda>k. replicate k (CHR ''a'')) \<and>
   (let doc = the (fst (Parse (\<lambda>k. replicate k (CHR ''a''))
      \<lparr>pText = ''WAIT 1'', pFileName = ''m.txt'', pFileSize = 6, pOnProgress = False\<rparr>)) in
    length (BlocksByID doc) = BlockCount (Metadata doc))"
  using inj_replicate parse_indexes_blocks [OF inj_replicate,
      of "\<lparr>pText = ''WAIT 1'', pFileName = ''m.txt'', pFileSize = 6, pOnProgress = False\<rparr>"]
  by (simp add: Let_def)

text \<open>
  the progress path and the silent path never drift: a callback changes nothing in the
  result, only adds calls.
\<close>

theorem progress_does_not_change_result:
  "fst (Parse uuid (p\<lparr>pOnProgress := True\<rparr>)) = fst (Parse uuid (p\<lparr>pOnProgress := False\<rparr>)) \<and>
   snd (Parse uuid (p\<lparr>pOnProgress := False\<rparr>)) = []"
proof -
  have "snd (Parse uuid (p\<lparr>pOnProgress := False\<rparr>)) = []"
    by (auto simp: Parse_def Let_def split: option.split)
  then show ?thesis by (simp add: Parse_document the_document_def)
qed

subsection \<open>Progress reports\<close>

definition reports_ok :: "progressState \<Rightarrow> bool" where
  "reports_ok p \<longleftrightarrow> sorted (map fst (pgCalls p)) \<and>
     (\<forall>c\<in>set (pgCalls p). 10 \<le> fst c \<and> fst c \<le> pgLast p) \<and> pgLast p \<le> 95 \<and>
     (\<exists>cs. pgCalls p = (10, ''Tokenized'') # cs)"

lemma percent_bound: "k \<le> n \<Longrightarrow> k * 85 div max n (1::nat) \<le> 85"
  by (cases "n = 0") (auto simp: max_def intro: order.trans [OF div_le_mono [of _ "n * 85"]])

lemma progress_step_ok:
  assumes "reports_ok p" "tkKind tok \<noteq> TokEmpty \<Longrightarrow> pgProcessed p < n"
  shows "reports_ok (progress_step uuid n p tok)"
proof (cases "tkKind tok = TokEmpty")
  case True
  then show ?thesis using assms by (simp add: progress_step_def)
next
  case False
  define pct where "pct = 10 + (pgProcessed p + 1) * 85 div max n 1"
  have "pct \<le> 95" using assms(2) [OF False] percent_bound [of "pgProcessed p + 1" n]
    by (simp add: pct_def)
  moreover have "progress_step uuid n p tok =
      \<lparr>pgState = processToken uuid (pgState p) tok, pgProcessed = pgProcessed p + 1,
       pgLast = (if pgLast p + 5 \<le> pct then pct else pgLast p),
       pgCalls = pgCalls p @ (if pgLast p + 5 \<le> pct then [(pct, ''Parsing...'')] else [])\<rparr>"
    using False by (simp add: progress_step_def Let_def pct_def)
  ultimately show ?thesis
    using assms(1) by (fastforce simp: reports_ok_def sorted_append pct_def)
qed

lemma progress_run_ok:
  assumes "reports_ok p" "pgProcessed p + length (filter (\<lambda>t. tkKind t \<noteq> TokEmpty) toks) \<le> n"
  shows "reports_ok (foldl (progress_step uuid n) p toks)"
  using assms
proof (induction toks arbitrary: p)
  case Nil
  then show ?case by simp
next
  case (Cons t toks)
  have "reports_ok (progress_step uuid n p t)"
    using Cons.prems by (intro progress_step_ok) auto
  moreover have "pgProcessed (progress_step uuid n p t) +
      length (filter (\<lambda>t. tkKind t \<noteq> TokEmpty) toks) \<le> n"
    using Cons.prems(2) by (simp add: progress_step_def Let_def split: if_splits)
  ultimately show ?case by (simp add: Cons.IH)
qed

text \<open>
  a callback sees percentages that never go back, from 10 when the text is tokenized to 100
  when the document is ready.
\<close>

theorem progress_reports_monotone:
  "let calls = snd (Parse uuid (p\<lparr>pOnProgress := True\<rparr>)) in
     sorted (map fst calls) \<and> list_all (\<lambda>c. 10 \<le> fst c \<and> fst c \<le> 100) calls \<and>
     hd calls = (10, ''Tokenized'') \<and> last calls = (100, ''Done'')"
proof -
  let ?q = "p\<lparr>pOnProgress := True\<rparr>"
  let ?pg = "progress_loop uuid (implicit_tokens (pText p) (pFileName p))"
  have ok: "reports_ok ?pg"
    unfolding progress_loop_def by (rule progress_run_ok) (simp_all add: reports_ok_def)
  have "fst (Parse uuid ?q) \<noteq> None" by (simp add: Parse_document)
  then have calls: "snd (Parse uuid ?q) = pgCalls ?pg @ [(95, ''Finalizing...''), (100, ''Done'')]"
    by (auto simp: Parse_def Let_def split: option.splits)
  from ok obtain cs where "pgCalls ?pg = (10, ''Tokenized'') # cs" by (auto simp: reports_ok_def)
  with ok show ?thesis
    unfolding Let_def calls by (fastforce simp: reports_ok_def sorted_append list_all_iff)
qed

subsection \<open>Errors\<close>

definition span_error :: "ParseError \<Rightarrow> bool" where
  "span_error e \<longleftrightarrow> HasPrefix (peMessage e) ''unterminated''"

definition token_report :: "Token \<Rightarrow> ParseError list" where
  "token_report tok = filter span_error
     (if is_unterminated tok then [token_error tok (tkName tok) ''error''] else [])"

lemma no_span_errors [simp]:
  "\<not> span_error (unclosed_error s e)"
  "span_error (token_error tok msg sev) \<longleftrightarrow> HasPrefix msg ''unterminated''"
  by (simp_all add: span_error_def unclosed_error_def token_error_def HasPrefix_def Let_def)

lemma span_errors_unclosed: "filter span_error (parseErrors (recordUnclosedBlocks s)) = filter span_error (parseErrors s)"
  by (simp add: recordUnclosedBlocks_def filter_map comp_def)

lemma HasPrefix_first: "c \<noteq> d \<Longrightarrow> \<not> HasPrefix (c # s) (d # t)"
  by (simp add: HasPrefix_def)

lemma processToken_span_errors:
  "filter span_error (parseErrors (processToken uuid s tok)) =
     filter span_error (parseErrors s) @ token_report tok"
proof (cases "tkKind tok")
  case TokError
  then show ?thesis
    by (simp add: processToken_def recordMalformedLine_def token_report_def is_unterminated_def
        HasPrefix_first)
qed (simp_all add: processToken_def handler_defs token_report_def span_errors_unclosed is_unterminated_def
      HasPrefix_first split: list.split option.split)

lemma run_span_errors:
  "filter span_error (parseErrors (foldl (processToken uuid) s toks)) =
     filter span_error (parseErrors s) @ concat (map token_report toks)"
  by (induction toks arbitrary: s) (simp_all add: processToken_span_errors)

lemma implicit_unterminated: "filter is_unterminated (implicit_tokens src fileName) = filter is_unterminated (Tokenize src)"
  by (simp add: implicit_tokens_def wrapImplicitSubflow_def Let_def is_unterminated_def)

lemma concat_token_report:
  "concat (map token_report toks) = concat (map token_report (filter is_unterminated toks))"
  by (induction toks) (simp_all add: token_report_def)

lemma token_reports:
  "map (\<lambda>e. (peLine e, peMessage e, peSeverity e)) (concat (map token_report (filter is_unterminated toks))) =
     map (\<lambda>(n, msg). (n, msg, ''error''))
       (filter (\<lambda>(n, msg). HasPrefix msg ''unterminated'')
         (map (\<lambda>t. (tkLine t, tkName t)) (filter is_unterminated toks)))"
  by (induction toks) (auto simp: token_report_def token_error_def span_error_def)

lemma document_span_errors:
  "filter span_error (ParseErrors (the (fst (Parse uuid p)))) =
     concat (map token_report (filter is_unterminated (Tokenize (pText p))))"
proof -
  let ?toks = "implicit_tokens (pText p) (pFileName p)"
  have "filter span_error (ParseErrors (the (fst (Parse uuid p)))) =
      filter span_error (parseErrors (foldl (processToken uuid) newParseState ?toks))"
    by (simp add: Parse_document document_fields final_state_def finish_def span_errors_unclosed)
  also have "\<dots> = concat (map token_report ?toks)"
    unfolding run_span_errors by (simp add: newParseState_def)
  finally show ?thesis unfolding concat_token_report [of ?toks] implicit_unterminated .
qed

text \<open>
  C9: a multi-line comment or triple-quoted literal that is never closed is reported exactly once,
  at severity error, on the line it was opened, and no such report appears for a text whose spans
  all close: the parse errors about unterminated spans are what a scan of the lines of the text,
  which builds no token, finds open at the end.
\<close>

theorem unterminated_span_reported:
  "map (\<lambda>e. (peLine e, peMessage e, peSeverity e))
     (filter (\<lambda>e. HasPrefix (peMessage e) ''unterminated'') (ParseErrors (the (fst (Parse uuid p))))) =
   (case open_span (pText p) of
      Outside \<Rightarrow> []
    | InComment n \<Rightarrow> [(n, ''unterminated block comment: /# was never closed by #/'', ''error'')]
    | InLiteral n \<Rightarrow>
        [(n, ''unterminated triple-quoted string: '' @ triple @ '' was never closed'', ''error'')])"
proof -
  have "filter (\<lambda>e. HasPrefix (peMessage e) ''unterminated'') (ParseErrors (the (fst (Parse uuid p)))) =
      concat (map token_report (filter is_unterminated (Tokenize (pText p))))"
    using document_span_errors [of uuid p] by (simp add: span_error_def [abs_def])
  then show ?thesis
    by (simp add: token_reports tokenize_unterminated)
      (simp add: span_report_def HasPrefix_def split: span.split)
qed

text \<open>
  \<open>ParseText\<close> refuses exactly the texts above the size limit, and parses every other one.
\<close>

theorem parse_text_size_limit:
  "ParseText uuid src fileName fileSize =
     (if MaxParseTextSize < length src then Inl (SourceTooLarge (length src) MaxParseTextSize)
      else Inr (the (fst (Parse uuid
        \<lparr>pText = src, pFileName = fileName, pFileSize = fileSize, pOnProgress = False\<rparr>))))"
  using Parse_document [of uuid "\<lparr>pText = src, pFileName = fileName, pFileSize = fileSize, pOnProgress = False\<rparr>"]
  by (auto simp: ParseText_def run_parser_def split: prod.split option.split)

text \<open>
  with a callback and a file size of at least one megabyte, \<open>ParseTextWithProgress\<close> parses
  texts that \<open>ParseText\<close> refuses: the size limit is only checked on the silent path.
\<close>

theorem progress_path_skips_size_limit:
  assumes "MaxParseTextSize < length src" "1000000 \<le> fileSize"
  shows "ParseText uuid src fileName fileSize = Inl (SourceTooLarge (length src) MaxParseTextSize) \<and>
    fst (ParseTextWithProgress uuid src fileName fileSize True) =
      Inr (the (fst (Parse uuid
        \<lparr>pText = src, pFileName = fileName, pFileSize = fileSize, pOnProgress = True\<rparr>)))"
proof -
  have "fst (Parse uuid \<lparr>pText = src, pFileName = fileName, pFileSize = fileSize, pOnProgress = True\<rparr>) \<noteq> None"
    by (simp add: Parse_document)
  with assms show ?thesis
    by (auto simp: ParseText_def ParseTextWithProgress_def run_parser_def split: prod.split option.split)
qed

theorem progress_path_skips_size_limit_witness:
  "fst (ParseTextWithProgress (\<lambda>k. replicate k nl) (replicate (MaxParseTextSize + 1) nl) ''m.txt''
     (MaxParseTextSize + 1) True)
   \<noteq> ParseText (\<lambda>k. replicate k nl) (replicate (MaxParseTextSize + 1) nl) ''m.txt''
     (MaxParseTextSize + 1)"
  using progress_path_skips_size_limit [of "replicate (MaxParseTextSize + 1) nl" "MaxParseTextSize + 1"
      "\<lambda>k. replicate k nl" "''m.txt''"]
  by (simp add: MaxParseTextSize_def del: replicate.simps replicate_Suc)

end
