(* ===== verification/Parser_Order.thy ===== *)
theory Parser_Order
  imports Parser_Correct
begin

text \<open>
  Document order is source order. The handlers only ever grow the forest at its right edge, so
  the blocks below an address are an interval of addresses: \<open>spans s e\<close> says that the children of
  \<open>a\<close> tile the interval from \<open>a + 1\<close> to \<open>e a\<close>, and the roots tile the whole heap. The blocks on the
  stack are those whose interval is still open.
\<close>

section \<open>Tilings\<close>

fun tiles :: "(addr \<Rightarrow> addr) \<Rightarrow> addr \<Rightarrow> addr list \<Rightarrow> addr \<Rightarrow> bool" where
  "tiles e lo [] hi \<longleftrightarrow> lo = hi"
| "tiles e lo (x # xs) hi \<longleftrightarrow> x = lo \<and> x < e x \<and> tiles e (e x) xs hi"

lemma tiles_append: "tiles e lo (xs @ ys) hi \<longleftrightarrow> (\<exists>mid. tiles e lo xs mid \<and> tiles e mid ys hi)"
  by (induction xs arbitrary: lo) auto

lemma tiles_bounds:
  "tiles e lo xs hi \<Longrightarrow> lo \<le> hi"
  "tiles e lo xs hi \<Longrightarrow> x \<in> set xs \<Longrightarrow> lo \<le> x \<and> x < e x \<and> e x \<le> hi"
proof -
  have le: "tiles e lo xs hi \<Longrightarrow> lo \<le> hi" for lo xs
    by (induction xs arbitrary: lo) fastforce+
  show "tiles e lo xs hi \<Longrightarrow> lo \<le> hi" by (rule le)
  show "tiles e lo xs hi \<Longrightarrow> x \<in> set xs \<Longrightarrow> lo \<le> x \<and> x < e x \<and> e x \<le> hi"
  proof (induction xs arbitrary: lo)
    case (Cons y ys)
    then show ?case using le [of "e y" ys] by fastforce
  qed simp
qed

lemma tiles_cong: "(\<And>x. x \<in> set xs \<Longrightarrow> e' x = e x) \<Longrightarrow> tiles e' lo xs hi = tiles e lo xs hi"
  by (induction xs arbitrary: lo) auto

lemma tiles_cover: "tiles e lo xs hi \<Longrightarrow> lo \<le> p \<Longrightarrow> p < hi \<Longrightarrow> \<exists>x\<in>set xs. x \<le> p \<and> p < e x"
proof (induction xs arbitrary: lo)
  case (Cons y ys)
  then show ?case by (cases "p < e y") auto
qed simp

lemma tiles_concat: "tiles e lo xs hi \<Longrightarrow> concat (map (\<lambda>x. [x..<e x]) xs) = [lo..<hi]"
proof (induction xs arbitrary: lo)
  case (Cons y ys)
  then have y: "y = lo" "lo < e lo" "e lo \<le> hi" using tiles_bounds(1) [of e "e y" ys hi] by auto
  then have "[lo..<hi] = [lo..<e lo] @ [e lo..<hi]"
    using upt_add_eq_append [of lo "e lo" "hi - e lo"] by simp
  with Cons y show ?case by simp
qed simp

text \<open>Extending every interval that contains \<open>p\<close> by one, when those intervals end at the right edge.\<close>

definition widen :: "addr \<Rightarrow> addr \<Rightarrow> (addr \<Rightarrow> addr) \<Rightarrow> addr \<Rightarrow> addr" where
  "widen p n e = (\<lambda>x. if x = n \<or> x \<le> p \<and> p < e x then Suc n else e x)"

lemma tiles_widen_out:
  assumes "tiles e lo xs hi" "\<not> (lo \<le> p \<and> p < hi)" "hi \<le> n"
  shows "tiles (widen p n e) lo xs hi"
proof -
  have "widen p n e x = e x" if "x \<in> set xs" for x
    using tiles_bounds(2) [OF assms(1) that] assms(2,3) by (auto simp: widen_def)
  with assms(1) show ?thesis using tiles_cong [of xs "widen p n e" e] by simp
qed

lemma tiles_widen_in:
  assumes "tiles e lo xs n" "lo \<le> p" "p < n" "\<And>x. x \<in> set xs \<Longrightarrow> x \<le> p \<Longrightarrow> p < e x \<Longrightarrow> e x = n"
  shows "tiles (widen p n e) lo xs (Suc n)"
  using assms
proof (induction xs arbitrary: lo)
  case (Cons y ys)
  note y = Cons.prems(1) [unfolded tiles.simps]
  show ?case
  proof (cases "p < e y")
    case True
    then have n: "e y = n" using Cons.prems(2) Cons.prems(4) [of y] y by simp
    with y have "ys = []" using tiles_bounds(1) [of e] by (cases ys) force+
    with True n y Cons.prems(2) show ?thesis by (simp add: widen_def)
  next
    case False
    have "tiles (widen p n e) (e y) ys (Suc n)"
    proof (rule Cons.IH)
      show "tiles e (e y) ys n" using y by blast
      show "e x = n" if "x \<in> set ys" "x \<le> p" "p < e x" for x
        using Cons.prems(4) [of x] that by simp
    qed (use False Cons.prems(3) in simp_all)
    moreover have "widen p n e y = e y"
      using False Cons.prems(3) tiles_bounds(2) [OF Cons.prems(1), of y] by (auto simp: widen_def)
    ultimately show ?thesis using y by auto
  qed
qed simp

section \<open>Intervals of the forest\<close>

definition spans :: "parseState \<Rightarrow> (addr \<Rightarrow> addr) \<Rightarrow> bool" where
  "spans s e \<longleftrightarrow> tiles e 0 (root_addrs s) (length (heap s)) \<and>
     (\<forall>a < length (heap s). a < e a \<and> e a \<le> length (heap s) \<and> tiles e (Suc a) (ChildPtrs (heap s ! a)) (e a))"

lemma spansD:
  assumes "spans s e"
  shows "tiles e 0 (root_addrs s) (length (heap s))"
    "a < length (heap s) \<Longrightarrow> a < e a" "a < length (heap s) \<Longrightarrow> e a \<le> length (heap s)"
    "a < length (heap s) \<Longrightarrow> tiles e (Suc a) (ChildPtrs (heap s ! a)) (e a)"
  using assms by (auto simp: spans_def)

text \<open>Intervals are nested or disjoint.\<close>

lemma spans_laminar:
  assumes "links_ok s" "spans s e" "c < length (heap s)"
  shows "c \<le> p \<Longrightarrow> p < e c \<Longrightarrow> e p \<le> e c"
  using assms(1,3)
proof (induction rule: forest_induct)
  case (node a)
  show ?case
  proof (cases "p = a")
    case False
    with node.prems have "\<exists>x\<in>set (ChildPtrs (heap s ! a)). x \<le> p \<and> p < e x"
      by (intro tiles_cover [OF spansD(4) [OF assms(2) node.hyps]]) auto
    then obtain x where x: "x \<in> set (ChildPtrs (heap s ! a))" "x \<le> p" "p < e x" by blast
    then have "e p \<le> e x" using node.IH [of x] node.hyps by (simp add: child_def)
    also have "e x \<le> e a" using tiles_bounds(2) [OF spansD(4) [OF assms(2) node.hyps] x(1)] by simp
    finally show ?thesis .
  qed simp
qed

definition source_order :: "parseState \<Rightarrow> bool" where
  "source_order s \<longleftrightarrow>
     (\<exists>e. spans s e \<and> list_all (\<lambda>x. e (seBlock x) = length (heap s)) (stack s)) \<and>
     sorted_wrt (\<lambda>x y. seBlock y < seBlock x) (stack s) \<and>
     (\<forall>i. current s = Some i \<longrightarrow> Suc i = length (built s))"

lemma spans_cong:
  assumes "map ChildPtrs (heap s') = map ChildPtrs (heap s)" "root_addrs s' = root_addrs s"
  shows "spans s' e = spans s e"
proof -
  have len: "length (heap s') = length (heap s)" using assms(1) by (metis length_map)
  have "ChildPtrs (heap s' ! a) = ChildPtrs (heap s ! a)" if "a < length (heap s)" for a
    using assms(1) that len by (metis nth_map)
  with assms(2) len show ?thesis by (simp add: spans_def)
qed

lemma children_grow_child:
  "p < length (heap s) \<Longrightarrow> a < length (heap s) \<Longrightarrow> ChildPtrs (heap (grow_child s p blk) ! a) =
     ChildPtrs (heap s ! a) @ (if a = p then [length (heap s)] else [])"
  "ChildPtrs (heap (grow_child s p blk) ! length (heap s)) = []"
  by (simp_all add: grow_child_def attach_child_def draw_id_def nth_append)

lemma children_grow_root:
  "a < length (heap s) \<Longrightarrow> ChildPtrs (heap (grow_root s i blk) ! a) = ChildPtrs (heap s ! a)"
  "ChildPtrs (heap (grow_root s i blk) ! length (heap s)) = []"
  by (simp_all add: grow_root_def attach_root_def draw_id_def nth_append)

lemma root_addrs_grow_root:
  "Suc i = length (built s) \<Longrightarrow> root_addrs (grow_root s i blk) = root_addrs s @ [length (heap s)]"
proof -
  assume "Suc i = length (built s)"
  then obtain bs b where b: "built s = bs @ [b]" "i = length bs"
    by (metis length_append_singleton nat.inject rev_exhaust list.size(3) nat.simps(3))
  then show ?thesis by (simp add: root_addrs_def grow_root_def attach_root_def draw_id_def)
qed

lemma spans_grow_child:
  assumes l: "links_ok s" and sp: "spans s e" and p: "p < length (heap s)" and ep: "e p = length (heap s)"
  shows "spans (grow_child s p blk) (widen p (length (heap s)) e)"
proof -
  let ?n = "length (heap s)" and ?s = "grow_child s p blk"
  let ?e = "widen p ?n e"
  have edge: "e x = ?n" if "x < ?n" "x \<le> p" "p < e x" for x
    using spans_laminar [OF l sp that] ep spansD(3) [OF sp that(1)] by simp
  have kids: "x < ?n" if "x \<in> set (ChildPtrs (heap s ! a))" "a < ?n" for x a
    using links_childD(2) [OF l, of a x] that by (simp add: child_def)
  have roots: "x < ?n" if "x \<in> set (root_addrs s)" for x
    using tiles_bounds(2) [OF spansD(1) [OF sp] that] by simp
  have "tiles ?e 0 (root_addrs s) (Suc ?n)"
    using p roots by (intro tiles_widen_in spansD(1) [OF sp] edge) simp_all
  moreover have "tiles ?e (Suc a) (ChildPtrs (heap ?s ! a)) (?e a)" if a: "a < ?n" for a
  proof -
    note t = spansD(4) [OF sp a]
    consider "a = p" | "a < p" "p < e a" | "a \<noteq> p" "\<not> (Suc a \<le> p \<and> p < e a)" by linarith
    then show ?thesis
    proof cases
      case 1
      then have "tiles ?e (Suc a) (ChildPtrs (heap s ! a)) ?n"
        using t ep by (intro tiles_widen_out) simp_all
      then show ?thesis using 1 p ep by (auto simp: children_grow_child tiles_append widen_def)
    next
      case 2
      then have n: "e a = ?n" using edge [of a] a by simp
      have "tiles ?e (Suc a) (ChildPtrs (heap s ! a)) (Suc ?n)"
        using 2 p kids a t n by (intro tiles_widen_in edge) simp_all
      then show ?thesis using 2 p a by (simp add: children_grow_child widen_def)
    next
      case 3
      then have "tiles ?e (Suc a) (ChildPtrs (heap s ! a)) (e a)"
        using t spansD(3) [OF sp a] by (intro tiles_widen_out) simp_all
      moreover have "?e a = e a" using 3 a by (auto simp: widen_def)
      ultimately show ?thesis using 3 p a by (simp add: children_grow_child)
    qed
  qed
  moreover have "a < ?e a" "?e a \<le> Suc ?n" if "a < Suc ?n" for a
    using that spansD(2,3) [OF sp, of a] by (auto simp: widen_def less_Suc_eq)
  moreover have "root_addrs ?s = root_addrs s" by (simp add: root_addrs_def)
  ultimately show ?thesis
    by (auto simp: spans_def less_Suc_eq children_grow_child(2)) (simp add: widen_def)
qed

lemma spans_grow_root:
  assumes l: "links_ok s" and sp: "spans s e" and i: "Suc i = length (built s)"
  shows "spans (grow_root s i blk) (e(length (heap s) := Suc (length (heap s))))"
proof -
  let ?n = "length (heap s)" and ?s = "grow_root s i blk"
  let ?e = "e(?n := Suc ?n)"
  have kids: "x < ?n" if "x \<in> set (ChildPtrs (heap s ! a))" "a < ?n" for x a
    using links_childD(2) [OF l, of a x] that by (simp add: child_def)
  have roots: "x < ?n" if "x \<in> set (root_addrs s)" for x
    using tiles_bounds(2) [OF spansD(1) [OF sp] that] by simp
  have "tiles ?e 0 (root_addrs s) ?n"
    using spansD(1) [OF sp] tiles_cong [of "root_addrs s" ?e e] roots by fastforce
  then have "tiles ?e 0 (root_addrs ?s) (Suc ?n)"
    by (auto simp: root_addrs_grow_root [OF i] tiles_append)
  moreover have "tiles ?e (Suc a) (ChildPtrs (heap ?s ! a)) (?e a)" if a: "a < ?n" for a
    using spansD(4) [OF sp a] tiles_cong [of "ChildPtrs (heap s ! a)" ?e e] kids [OF _ a] a
    by (fastforce simp: children_grow_root)
  ultimately show ?thesis
    using spansD(2,3) [OF sp] by (auto simp: spans_def less_Suc_eq children_grow_root(2) le_SucI)
qed

subsection \<open>Every step keeps the order\<close>

lemma source_orderD:
  assumes "source_order s"
  obtains e where "spans s e" "\<And>x. x \<in> set (stack s) \<Longrightarrow> e (seBlock x) = length (heap s)"
  using assms unfolding source_order_def list_all_iff by blast

lemma source_order_intro:
  assumes "spans s e" "\<And>x. x \<in> set (stack s) \<Longrightarrow> e (seBlock x) = length (heap s)"
    "sorted_wrt (\<lambda>x y. seBlock y < seBlock x) (stack s)"
    "\<And>i. current s = Some i \<Longrightarrow> Suc i = length (built s)"
  shows "source_order s"
  unfolding source_order_def list_all_iff using assms by blast

lemma sorted_wrt_drop: "sorted_wrt P xs \<Longrightarrow> sorted_wrt P (drop n xs)"
  by (metis append_take_drop_id sorted_wrt_append)

lemma source_order_frame:
  assumes "source_order s" "map ChildPtrs (heap s') = map ChildPtrs (heap s)" "root_addrs s' = root_addrs s"
    "stack s' = drop n (stack s)" "\<And>i. current s' = Some i \<Longrightarrow> Suc i = length (built s')"
  shows "source_order s'"
proof -
  from source_orderD [OF assms(1)] obtain e where e: "spans s e"
    "\<And>x. x \<in> set (stack s) \<Longrightarrow> e (seBlock x) = length (heap s)" by blast
  have "length (heap s') = length (heap s)" using assms(2) by (metis length_map)
  then show ?thesis
    using e assms spans_cong [OF assms(2,3)] unfolding assms(4)
    by (intro source_order_intro [of _ e]) (auto simp: source_order_def assms(4) dest: in_set_dropD intro: sorted_wrt_drop)
qed

lemma source_order_grow_child:
  assumes inv: "tree_inv uuid s" and ord: "source_order s" and st: "stack s = e # es"
  shows "source_order (grow_child s (seBlock e) blk)"
    and "source_order (push (grow_child s (seBlock e) blk) ind (length (heap s)))"
proof -
  let ?n = "length (heap s)" and ?s = "grow_child s (seBlock e) blk"
  from inv have l: "links_ok s" and sk: "stack_ok s" by (simp_all add: tree_inv_def)
  from source_orderD [OF ord] obtain f where f: "spans s f"
    "\<And>x. x \<in> set (stack s) \<Longrightarrow> f (seBlock x) = ?n" by blast
  have below: "seBlock x < ?n" if "x \<in> set (stack s)" for x
    using stack_okD(1) [OF sk that] .
  have srt: "sorted_wrt (\<lambda>x y. seBlock y < seBlock x) (stack s)"
    and cur: "\<And>i. current s = Some i \<Longrightarrow> Suc i = length (built s)"
    using ord by (auto simp: source_order_def)
  let ?f = "widen (seBlock e) ?n f"
  have sp: "spans ?s ?f"
    using f st below by (intro spans_grow_child [OF l]) simp_all
  have open': "?f (seBlock x) = Suc ?n" if "x \<in> set (stack s)" for x
    using that f(2) [OF that] below [of e] srt st by (auto simp: widen_def)
  show "source_order ?s"
    using sp open' srt cur by (intro source_order_intro [of _ ?f]) simp_all
  have "spans (push ?s ind ?n) ?f = spans ?s ?f" by (rule spans_cong) (simp_all add: root_addrs_def)
  moreover have "?f ?n = Suc ?n" by (simp add: widen_def)
  ultimately show "source_order (push ?s ind ?n)"
    using sp open' srt cur below by (intro source_order_intro [of _ ?f]) auto
qed

lemma source_order_start:
  assumes inv: "tree_inv uuid s" and ord: "source_order s" and st: "stack s = []" and cur: "current s = Some i"
  shows "source_order (push (grow_root s i blk) ind (length (heap s)))"
proof -
  let ?n = "length (heap s)" and ?s = "grow_root s i blk"
  have i: "Suc i = length (built s)" using ord cur by (simp add: source_order_def)
  from source_orderD [OF ord] obtain f where f: "spans s f" by blast
  have "spans ?s (f(?n := Suc ?n))"
    using inv f i by (intro spans_grow_root) (simp_all add: tree_inv_def)
  moreover have "spans (push ?s ind ?n) (f(?n := Suc ?n)) = spans ?s (f(?n := Suc ?n))"
    by (rule spans_cong) (simp_all add: root_addrs_def)
  ultimately show ?thesis
    using st cur i by (intro source_order_intro [of _ "f(?n := Suc ?n)"]) auto
qed

lemma source_order_step:
  assumes "tree_step uuid s s'" "tree_inv uuid s" "source_order s"
  shows "source_order s'"
  using assms(1,2,3)
proof (induction rule: tree_step.induct)
  case (quiet s n f es)
  show ?case using quiet(2) by (intro source_order_frame [OF quiet(2), where n = n]) (simp_all add: root_addrs_def source_order_def)
next
  case (relabel s a b)
  show ?case
    using relabel(3) by (intro source_order_frame [OF relabel(3), where n = 0])
      (simp_all add: root_addrs_def source_order_def, simp add: relabel_def map_update_same)
next
  case (leaf s e es blk)
  then show ?case using source_order_grow_child by blast
next
  case (branch s e es blk ind)
  then show ?case using source_order_grow_child by blast
next
  case (nest s e es blk ind)
  then show ?case using source_order_grow_child by blast
next
  case (start s i blk ind)
  then show ?case using source_order_start by blast
next
  case (open_sf s name)
  show ?case
    by (rule source_order_frame [OF open_sf(2), where n = "length (stack s)"])
      (auto simp: root_addrs_def open_subflow_def draw_id_def)
next
  case (close_sf s)
  show ?case
    by (rule source_order_frame [OF close_sf(2), where n = "length (stack s)"]) (simp_all add: root_addrs_def)
qed

definition ordered_inv :: "(nat \<Rightarrow> string) \<Rightarrow> parseState \<Rightarrow> bool" where
  "ordered_inv uuid s \<longleftrightarrow> tree_inv uuid s \<and> source_order s"

lemma ordered_steps:
  assumes "tree_steps uuid s s'" "ordered_inv uuid s"
  shows "ordered_inv uuid s'"
  using assms
  by (induction rule: rtranclp_induct) (auto simp: ordered_inv_def intro: tree_step_inv source_order_step)

lemma ordered_initial: "ordered_inv uuid newParseState"
  using tree_inv_initial [of uuid]
  by (simp add: ordered_inv_def source_order_def spans_def) (simp add: newParseState_def root_addrs_def)

interpretation ordered_machine: step_invariant "processToken uuid" "ordered_inv uuid" "\<lambda>_. True"
  by unfold_locales (rule ordered_steps [OF processToken_steps])

lemma final_state_ordered: "source_order (final_state uuid src fileName)"
proof -
  have "ordered_inv uuid (foldl (processToken uuid) newParseState (implicit_tokens src fileName))"
    by (rule ordered_machine.run_inv [OF ordered_initial]) simp
  from ordered_steps [OF finish_steps this] show ?thesis
    by (simp add: final_state_def ordered_inv_def)
qed

section \<open>Preorder is creation order\<close>

lemma concat_map_blocks:
  assumes "\<And>x. x \<in> set xs \<Longrightarrow> map binfo (preorder (t x)) = map f [x..<e x]"
  shows "map binfo (forest_blocks (map t xs)) = map f (concat (map (\<lambda>x. [x..<e x]) xs))"
  using assms by (induction xs) simp_all

lemma vtree_preorder:
  assumes "links_ok s" "spans s e" "a < length (heap s)"
  shows "map binfo (preorder (vtree s a)) = map (info s) [a..<e a]"
  using assms(1,3)
proof (induction rule: forest_induct)
  case (node a)
  note t = spansD(4) [OF assms(2) node.hyps]
  have "map binfo (forest_blocks (map (vtree s) (ChildPtrs (heap s ! a)))) = map (info s) [Suc a..<e a]"
    unfolding tiles_concat [OF t, symmetric]
    using node.IH node.hyps by (intro concat_map_blocks) (simp add: child_def)
  then show ?case
    using spansD(2) [OF assms(2) node.hyps]
    by (simp add: vtree_unfold [OF assms(1) node.hyps] preorder_eq upt_conv_Cons)
qed

lemma document_order:
  "map binfo (doc_blocks (Subflows (the_document uuid p))) =
     map cInfo (heap (final_state uuid (pText p) (pFileName p)))"
proof -
  let ?s = "final_state uuid (pText p) (pFileName p)"
  from source_orderD [OF final_state_ordered] obtain e where e: "spans ?s e" by blast
  note t = spansD(1) [OF e]
  have "map binfo (forest_blocks (map (vtree ?s) (root_addrs ?s))) = map (info ?s) [0..<length (heap ?s)]"
    unfolding tiles_concat [OF t, symmetric]
    by (intro concat_map_blocks vtree_preorder [OF final_links e])
      (meson tiles_bounds(2) [OF t] order_less_le_trans)
  also have "\<dots> = map cInfo (heap ?s)" by (rule nth_equalityI) (simp_all add: info_def)
  finally show ?thesis
    unfolding document_fields doc_blocks_stamp unfolding doc_blocks_forest concat_sfBlocks_final .
qed

section \<open>Lines\<close>

definition heap_lines :: "parseState \<Rightarrow> nat list" where
  "heap_lines s = map (bLineNumber \<circ> cInfo) (heap s)"

lemma heap_lines_frame [simp]:
  "heap_lines (s\<lparr>parseErrors := es\<rparr>) = heap_lines s"
  "heap_lines (s\<lparr>stack := st\<rparr>) = heap_lines s"
  "heap_lines (s\<lparr>skipNextEnd := f\<rparr>) = heap_lines s"
  "heap_lines (s\<lparr>nextID := k\<rparr>) = heap_lines s"
  "heap_lines (s\<lparr>current := c\<rparr>) = heap_lines s"
  "heap_lines (s\<lparr>built := b\<rparr>) = heap_lines s"
  "heap_lines (add_error s e) = heap_lines s"
  "heap_lines (recordUnclosedBlocks s) = heap_lines s"
  "heap_lines (draw_id s) = heap_lines s"
  "heap_lines (push s ind a) = heap_lines s"
  by (simp_all add: heap_lines_def add_error_def recordUnclosedBlocks_def draw_id_def push_def)

lemma heap_lines_attach [simp]:
  "heap_lines (attach_child s p blk) = heap_lines s @ [bLineNumber blk]"
  "heap_lines (attach_root s i blk) = heap_lines s @ [bLineNumber blk]"
  "heap_lines (promote_top s a) = heap_lines s"
  "heap_lines (set_properties s a ps) = heap_lines s"
  by (simp_all add: heap_lines_def attach_child_def attach_root_def promote_top_def set_properties_def
      map_update_same)

lemma heap_lines_insert [simp]: "heap_lines (insert_popped s blk) = heap_lines s @ [bLineNumber blk]"
  by (simp add: insert_popped_def insertIntoTree_def split: list.split)

lemma block_lines [simp]:
  "bLineNumber (loop_block nid tok sf) = tkLine tok"
  "bLineNumber (end_block nid name t tok sf) = tkLine tok"
  "bLineNumber (comment_block nid tok sf) = tkLine tok"
  by (simp_all add: loop_block_def end_block_def comment_block_def Let_def)

definition makes_block :: "Token \<Rightarrow> bool" where
  "makes_block tok \<longleftrightarrow> tkKind tok \<notin> {TokEmpty, TokError, TokSubflowStart, TokSubflowEnd}"

lemma processToken_lines:
  "heap_lines (processToken uuid s tok) = heap_lines s \<or>
   makes_block tok \<and> heap_lines (processToken uuid s tok) = heap_lines s @ [tkLine tok]"
  by (simp add: processToken_def handler_defs makes_block_def split: TokenKind.split list.split option.split)

lemma run_lines:
  "subseq (heap_lines (foldl (processToken uuid) s toks)) (heap_lines s @ map tkLine (filter makes_block toks))"
proof (induction toks arbitrary: s)
  case (Cons tok toks)
  have "subseq (heap_lines (processToken uuid s tok) @ map tkLine (filter makes_block toks))
     (heap_lines s @ map tkLine (filter makes_block (tok # toks)))"
    using processToken_lines [of uuid s tok] by (auto intro: list_emb_append_mono)
  with Cons.IH [of "processToken uuid s tok"] show ?case
    unfolding foldl_Cons using subseq_order.trans by blast
qed simp

lemma token_lines_subseq:
  "list_all span_ok toks \<Longrightarrow> subseq (map tkLine (filter makes_block toks)) (tok_lines toks)"
proof (induction toks)
  case (Cons t toks)
  then have IH: "subseq (map tkLine (filter makes_block toks)) (tok_lines toks)" by simp
  obtain ls where ls: "tok_span t = tkLine t # ls" using tok_span_Cons [of t] Cons.prems by auto
  show ?case
  proof (cases "makes_block t")
    case True
    then have "\<not> is_unterminated t" by (auto simp: makes_block_def)
    with True ls IH show ?thesis by (simp add: list_emb_append2)
  next
    case False
    with IH show ?thesis by (simp add: list_emb_append2)
  qed
qed simp

lemma implicit_block_tokens:
  "filter makes_block (implicit_tokens src fileName) = filter makes_block (Tokenize src)"
  by (simp add: implicit_tokens_def wrapImplicitSubflow_def Let_def makes_block_def)

lemma final_lines_subseq: "subseq (heap_lines (final_state uuid src fileName)) [1 ..< Suc (lineCount src)]"
proof -
  let ?toks = "implicit_tokens src fileName"
  have "heap_lines (final_state uuid src fileName) = heap_lines (foldl (processToken uuid) newParseState ?toks)"
    by (simp add: final_state_def finish_def)
  also have "subseq \<dots> (heap_lines newParseState @ map tkLine (filter makes_block ?toks))" by (rule run_lines)
  also have "\<dots> = map tkLine (filter makes_block (Tokenize src))"
    by (simp add: implicit_block_tokens) (simp add: heap_lines_def newParseState_def)
  also have "subseq \<dots> (tok_lines (Tokenize src))" by (rule token_lines_subseq [OF tokenize_spans])
  finally show ?thesis by (simp only: tokenize_lines)
qed

section \<open>Nothing is dropped in silence\<close>

text \<open>
  Whether a subflow is open after a sequence of tokens, read off the subflow headers and footers
  alone, and the tokens that may not vanish: an action, an opening construct or a malformed line
  anywhere, a branch or a comment block inside a subflow. (An inline error directive only
  annotates the block before it, and an END without a construct to close is skipped.)
\<close>

definition subflow_open :: "Token list \<Rightarrow> bool" where
  "subflow_open toks =
     (case filter (\<lambda>t. tkKind t \<in> {TokSubflowStart, TokSubflowEnd}) (rev toks) of
        [] \<Rightarrow> False
      | t # _ \<Rightarrow> tkKind t = TokSubflowStart)"

definition must_report :: "Token list \<Rightarrow> Token \<Rightarrow> bool" where
  "must_report before tok \<longleftrightarrow>
     tkKind tok \<in> {TokAction, TokLoopStart, TokConditionStart, TokSwitchStart, TokBlockStart,
       TokErrorHandlerStart, TokError} \<or>
     subflow_open before \<and> (tkKind tok \<in> {TokCase, TokDefault, TokConditionElse} \<or>
       tkKind tok = TokComment \<and> tkRawType tok \<noteq> ''ON_ERROR_INLINE'')"

definition reported :: "parseState \<Rightarrow> nat \<Rightarrow> bool" where
  "reported s n \<longleftrightarrow> n \<in> set (heap_lines s) \<or> n \<in> set (map peLine (parseErrors s))"

lemma token_error_line [simp]: "peLine (token_error tok msg sev) = tkLine tok"
  by (simp add: token_error_def)

lemma malformed_reported: "tkLine tok \<in> peLine ` set (parseErrors (recordMalformedLine s tok))"
  by (simp add: recordMalformedLine_def)

lemma current_frame [simp]:
  "current (add_error s e) = current s"
  "current (recordUnclosedBlocks s) = current s"
  "current (draw_id s) = current s"
  "current (push s ind a) = current s"
  "current (attach_child s q blk) = current s"
  "current (attach_root s i blk) = current s"
  "current (set_properties s a ps) = current s"
  by (simp_all add: add_error_def recordUnclosedBlocks_def draw_id_def push_def attach_child_def
      attach_root_def set_properties_def)

lemma insert_popped_current [simp]: "current (insert_popped s blk) = current s"
  by (simp add: insert_popped_def insertIntoTree_def split: list.split)

lemma processToken_current:
  "current (processToken uuid s tok) = None \<longleftrightarrow>
     (if tkKind tok = TokSubflowStart then False
      else if tkKind tok = TokSubflowEnd then True else current s = None)"
  by (simp add: processToken_def handler_defs split: TokenKind.split list.split option.split)

lemma subflow_open_snoc:
  "subflow_open (toks @ [tok]) \<longleftrightarrow>
     (if tkKind tok = TokSubflowStart then True
      else if tkKind tok = TokSubflowEnd then False else subflow_open toks)"
  by (simp add: subflow_open_def)

lemma run_current: "current (foldl (processToken uuid) newParseState toks) \<noteq> None \<longleftrightarrow> subflow_open toks"
proof (induction toks rule: rev_induct)
  case Nil
  then show ?case by (simp add: newParseState_def subflow_open_def)
next
  case (snoc tok toks)
  then show ?case by (simp add: processToken_current subflow_open_snoc)
qed

lemma processToken_reports:
  assumes "must_report before tok" "current s \<noteq> None \<longleftrightarrow> subflow_open before"
  shows "reported (processToken uuid s tok) (tkLine tok)"
  using assms
  by (cases "tkKind tok = TokError")
    (auto simp: must_report_def reported_def processToken_def malformed_reported handler_defs split: list.split)

lemma processToken_keeps_reports: "reported s n \<Longrightarrow> reported (processToken uuid s tok) n"
  using processToken_lines [of uuid s tok] set_mono_prefix [OF parse_log.step_grows [of s uuid tok]]
  by (auto simp: reported_def)

interpretation report_machine: step_invariant "processToken uuid" "\<lambda>s. reported s n" "\<lambda>_. True"
  by unfold_locales (rule processToken_keeps_reports)

lemma run_reports:
  "must_report xs tok \<Longrightarrow>
     reported (foldl (processToken uuid) newParseState (xs @ tok # ys)) (tkLine tok)"
  using processToken_reports [OF _ run_current, of xs tok uuid uuid]
  by (simp add: report_machine.run_inv)

lemma final_reports:
  assumes "i < length (implicit_tokens src fileName)"
    and "must_report (take i (implicit_tokens src fileName)) (implicit_tokens src fileName ! i)"
  shows "reported (final_state uuid src fileName) (tkLine (implicit_tokens src fileName ! i))"
  using run_reports [OF assms(2), of uuid "drop (Suc i) (implicit_tokens src fileName)"]
  by (auto simp: id_take_nth_drop [OF assms(1), symmetric] final_state_def finish_def reported_def
      parseErrors_unclosed)

section \<open>Properties\<close>

lemma document_lines:
  "map (bLineNumber \<circ> binfo) (doc_blocks (Subflows (the_document uuid p))) =
     heap_lines (final_state uuid (pText p) (pFileName p))"
  using document_order [of uuid p] unfolding heap_lines_def by (metis map_map)

text \<open>
  C2: nothing is lost or moved between the handlers and the document: the blocks of the document,
  in document order, are exactly the blocks the handlers made, in the order they made them, and
  the counters of the metadata are the true numbers of blocks and subflows.
\<close>

theorem parse_keeps_every_block:
  "let doc = the (fst (Parse uuid p)); s = final_state uuid (pText p) (pFileName p) in
     map binfo (doc_blocks (Subflows doc)) = map cInfo (heap s) \<and>
     BlockCount (Metadata doc) = length (doc_blocks (Subflows doc)) \<and>
     SubflowCount (Metadata doc) = length (Subflows doc) \<and> length (Subflows doc) = length (built s)"
  by (simp add: Let_def Parse_document document_order parse_block_count)
    (simp add: the_document_def buildDocument_def final_subflows_def Let_def)

text \<open>
  C3: document order is source order: read in document order, the line numbers of the blocks
  strictly increase and stay within the text, whatever the nesting, the indentation and the
  errors of the source.
\<close>

theorem parse_source_order:
  "let doc = the (fst (Parse uuid p)) in
     subseq (map (bLineNumber \<circ> binfo) (doc_blocks (Subflows doc))) [1 ..< Suc (lineCount (pText p))]"
  by (simp only: Let_def Parse_document option.sel document_lines final_lines_subseq)

text \<open>
  C8: no line is dropped in silence: every action, loop, condition, switch, block, error handler
  and malformed line of the source, and inside a subflow every CASE, DEFAULT, ELSE and comment
  (inline error directives apart), is either a block of the document with that line number or a
  parse error reported for that line. Branches and comments outside every subflow, inline error
  directives and unmatched ENDs are not claimed: the handlers return without a report there.
\<close>

theorem parse_no_silent_drop:
  "let doc = the (fst (Parse uuid p)); toks = implicit_tokens (pText p) (pFileName p) in
     list_all (\<lambda>i. tkLine (toks ! i) \<in> set (map (bLineNumber \<circ> binfo) (doc_blocks (Subflows doc))) \<union>
         set (map peLine (ParseErrors doc)))
       (filter (\<lambda>i. must_report (take i toks) (toks ! i)) [0 ..< length toks])"
proof -
  let ?toks = "implicit_tokens (pText p) (pFileName p)"
  have "tkLine (?toks ! i) \<in> set (heap_lines (final_state uuid (pText p) (pFileName p))) \<union>
      set (map peLine (ParseErrors (the_document uuid p)))"
    if "i \<in> set (filter (\<lambda>i. must_report (take i ?toks) (?toks ! i)) [0 ..< length ?toks])" for i
    using final_reports [of i "pText p" "pFileName p" uuid] that
    unfolding document_fields(2) by (auto simp: reported_def)
  then show ?thesis unfolding Let_def Parse_document option.sel document_lines list_all_iff by blast
qed

end
