(* ===== verification/Parse_Files.thy ===== *)
theory Parse_Files
  imports Parser_Correct "HOL-Library.List_Lexorder" "HOL-Library.Char_ord" "HOL-Library.Multiset"
begin

text \<open>
  core/parser/parse_simple.go, multi-file flows: \<open>ParseFiles\<close> parses the members of a folder one by
  one, Main first and the rest by name, and merges them into one document. The file map is an
  association list in the order Go's map iteration happens to visit it. The sort of the standard
  library is the argument \<open>sorter\<close>, the digest of the file names \<open>hash16\<close>; the \<open>k\<close>-th parse draws
  its identifiers from the stream \<open>uuids k\<close>. Read errors belong to the file system and are outside.
\<close>

section \<open>Members\<close>

definition trimFlowExt :: "string \<Rightarrow> string" where
  "trimFlowExt name =
     (if HasSuffix (ToLower name) ''.pad'' then take (length name - length ''.pad'') name
      else TrimSuffix name ''.txt'')"

definition is_flow_file :: "string \<Rightarrow> bool" where
  "is_flow_file name \<longleftrightarrow> (let l = ToLower name in HasSuffix l ''.txt'' \<or> HasSuffix l ''.pad'')"

text \<open>The comparison handed to \<open>sort.Slice\<close>.\<close>

definition memberLess :: "string \<Rightarrow> string \<Rightarrow> bool" where
  "memberLess a b =
     (let ni = trimFlowExt a; nj = trimFlowExt b in
      if ni = ''Main'' then True else if nj = ''Main'' then False else ni < nj)"

type_synonym slice_sorter = "(string \<Rightarrow> string \<Rightarrow> bool) \<Rightarrow> string list \<Rightarrow> string list"

record mergedFiles =
  mgSubflows :: "Subflow list"
  mgErrors :: "ParseError list"
  mgBlocks :: nat
  mgDepth :: nat
  mgLines :: nat
  mgSize :: nat
  mgFiles :: "FlowFileInfo list"

definition no_files :: mergedFiles where
  "no_files = \<lparr>mgSubflows = [], mgErrors = [], mgBlocks = 0, mgDepth = 0, mgLines = 0, mgSize = 0, mgFiles = []\<rparr>"

definition merge_member :: "mergedFiles \<Rightarrow> string \<Rightarrow> string \<Rightarrow> FlowDocument \<Rightarrow> mergedFiles" where
  "merge_member m name src doc =
     \<lparr>mgSubflows = mgSubflows m @ map (\<lambda>sf. sf\<lparr>sfSourceFile := name\<rparr>) (Subflows doc),
      mgErrors = mgErrors m @ ParseErrors doc,
      mgBlocks = mgBlocks m + BlockCount (Metadata doc),
      mgDepth = (if MaxDepth (Metadata doc) > mgDepth m then MaxDepth (Metadata doc) else mgDepth m),
      mgLines = mgLines m + RawLineCount (Metadata doc),
      mgSize = mgSize m + length src,
      mgFiles = mgFiles m @ [\<lparr>ffPath = name, ffName = name, ffSize = length src\<rparr>]\<rparr>"

datatype FilesFailure = NoFlowFiles | MemberFailed string ParseFailure

fun parse_members ::
    "(nat \<Rightarrow> nat \<Rightarrow> string) \<Rightarrow> (string \<times> string) list \<Rightarrow> nat \<Rightarrow> mergedFiles \<Rightarrow> string list \<Rightarrow>
     FilesFailure + mergedFiles" where
  "parse_members uuids files k m [] = Inr m"
| "parse_members uuids files k m (name # names) =
     (let src = (case map_of files name of None \<Rightarrow> [] | Some s \<Rightarrow> s) in
      case ParseText (uuids k) src name (length src) of
        Inl e \<Rightarrow> Inl (MemberFailed name e)
      | Inr doc \<Rightarrow> parse_members uuids files (k + 1) (merge_member m name src doc) names)"

definition ParseFiles ::
    "slice_sorter \<Rightarrow> (string \<Rightarrow> string) \<Rightarrow> (nat \<Rightarrow> nat \<Rightarrow> string) \<Rightarrow> (string \<times> string) list \<Rightarrow> string \<Rightarrow>
     FilesFailure + FlowDocument" where
  "ParseFiles sorter hash16 uuids files rootName =
     (let filenames = filter is_flow_file (map fst files) in
      if filenames = [] then Inl NoFlowFiles
      else
        (let names = sorter memberLess filenames in
         case parse_members uuids files 0 no_files names of
           Inl e \<Rightarrow> Inl e
         | Inr m \<Rightarrow>
             Inr \<lparr>docID = uuids (length names) 0, docName = rootName,
               StableID = ''files-'' @ hash16 (concat (map (\<lambda>n. n @ [CHR 0x00]) names)), FilePath = [],
               Subflows = mgSubflows m, ParseErrors = mgErrors m,
               Metadata = \<lparr>BlockCount = mgBlocks m, SubflowCount = length (mgSubflows m), MaxDepth = mgDepth m,
                 FileSize = mgSize m, RawLineCount = mgLines m\<rparr>,
               Files = mgFiles m, IsFolder = (length names > 1),
               BlocksByID = fst (index_blocks (mgSubflows m)), BlockSubflow = snd (index_blocks (mgSubflows m)),
               SubflowsByID = index_subflows (mgSubflows m)\<rparr>))"

section \<open>Merging\<close>

definition member_doc :: "(nat \<Rightarrow> string) \<Rightarrow> (string \<times> string) list \<Rightarrow> string \<Rightarrow> FlowDocument" where
  "member_doc uuid files name =
     (let src = (case map_of files name of None \<Rightarrow> [] | Some s \<Rightarrow> s) in
      the_document uuid \<lparr>pText = src, pFileName = name, pFileSize = length src, pOnProgress = False\<rparr>)"

definition member_docs :: "(nat \<Rightarrow> nat \<Rightarrow> string) \<Rightarrow> (string \<times> string) list \<Rightarrow> nat \<Rightarrow> string list \<Rightarrow> (string \<times> FlowDocument) list" where
  "member_docs uuids files k names =
     map (\<lambda>(i, name). (name, member_doc (uuids i) files name)) (enumerate k names)"

definition member_source :: "(string \<times> string) list \<Rightarrow> string \<Rightarrow> string" where
  "member_source files name = (case map_of files name of None \<Rightarrow> [] | Some s \<Rightarrow> s)"

definition fits :: "(string \<times> string) list \<Rightarrow> string \<Rightarrow> bool" where
  "fits files name \<longleftrightarrow> (case map_of files name of None \<Rightarrow> True | Some s \<Rightarrow> length s \<le> MaxParseTextSize)"

lemma ParseText_document:
  "ParseText uuid src fileName fileSize =
     (if MaxParseTextSize < length src then Inl (SourceTooLarge (length src) MaxParseTextSize)
      else Inr (the_document uuid \<lparr>pText = src, pFileName = fileName, pFileSize = fileSize, pOnProgress = False\<rparr>))"
  using Parse_document [of uuid "\<lparr>pText = src, pFileName = fileName, pFileSize = fileSize, pOnProgress = False\<rparr>"]
  by (auto simp: ParseText_def run_parser_def split: prod.split option.split)

lemma parse_members_result:
  "(\<forall>name \<in> set names. fits files name) \<Longrightarrow>
     \<exists>m'. parse_members uuids files k m names = Inr m' \<and>
       mgSubflows m' = mgSubflows m @ concat (map (\<lambda>(name, d). map (\<lambda>sf. sf\<lparr>sfSourceFile := name\<rparr>) (Subflows d)) (member_docs uuids files k names)) \<and>
       mgErrors m' = mgErrors m @ concat (map (\<lambda>(name, d). ParseErrors d) (member_docs uuids files k names)) \<and>
       mgBlocks m' = mgBlocks m + sum_list (map (\<lambda>(name, d). BlockCount (Metadata d)) (member_docs uuids files k names)) \<and>
       mgLines m' = mgLines m + sum_list (map (\<lambda>(name, d). RawLineCount (Metadata d)) (member_docs uuids files k names)) \<and>
       mgSize m' = mgSize m + sum_list (map (\<lambda>name. length (member_source files name)) names) \<and>
       mgDepth m' = fold max (map (\<lambda>(name, d). MaxDepth (Metadata d)) (member_docs uuids files k names)) (mgDepth m) \<and>
       mgFiles m' = mgFiles m @ map (\<lambda>name. \<lparr>ffPath = name, ffName = name, ffSize = length (member_source files name)\<rparr>) names"
proof (induction names arbitrary: k m)
  case (Cons name names)
  let ?src = "case map_of files name of None \<Rightarrow> [] | Some s \<Rightarrow> s"
  have "\<not> MaxParseTextSize < length ?src"
    using Cons.prems by (simp add: fits_def split: option.splits)
  then have "ParseText (uuids k) ?src name (length ?src) = Inr (member_doc (uuids k) files name)"
    by (simp only: ParseText_document member_doc_def Let_def if_False)
  then show ?case
    using Cons.IH [of "k + 1" "merge_member m name ?src (member_doc (uuids k) files name)"] Cons.prems
    by (auto simp: Let_def merge_member_def member_docs_def member_source_def max_def)
qed (simp add: member_docs_def)

lemma fold_max_0: "xs \<noteq> [] \<Longrightarrow> fold max xs (0::nat) = Max (set xs)"
  by (cases xs) (simp_all add: Max.set_eq_fold del: set_simps)

lemma merged_block_count:
  "list_all (\<lambda>(name, d). BlockCount (Metadata d) = length (doc_blocks (Subflows d))) ds \<Longrightarrow>
     sum_list (map (\<lambda>(name, d). BlockCount (Metadata d)) ds) =
     length (doc_blocks (concat (map (\<lambda>(name, d). map (\<lambda>sf. sf\<lparr>sfSourceFile := name\<rparr>) (Subflows d)) ds)))"
  by (induction ds) (auto simp: doc_blocks_def comp_def)

lemma parse_members_too_large:
  assumes "map_of files name = Some src" "MaxParseTextSize < length src" "name \<in> set names"
  shows "\<exists>e. parse_members uuids files k m names = Inl e"
  using assms(3)
proof (induction names arbitrary: k m)
  case (Cons n names)
  then show ?case
    using assms(1,2) by (cases "n = name") (auto simp: ParseText_document Let_def split: sum.split)
qed simp

lemma parse_members_cong:
  "map_of files = map_of files' \<Longrightarrow> parse_members uuids files k m names = parse_members uuids files' k m names"
  by (induction names arbitrary: k m) (auto simp: Let_def split: sum.split)

section \<open>Member order\<close>

lemma sorted_wrt_unique:
  "sorted_wrt P xs \<Longrightarrow> sorted_wrt P ys \<Longrightarrow> mset xs = mset ys \<Longrightarrow>
     (\<And>x y. x \<in> set xs \<Longrightarrow> y \<in> set xs \<Longrightarrow> P x y \<Longrightarrow> P y x \<Longrightarrow> x = y) \<Longrightarrow> xs = ys"
proof (induction xs arbitrary: ys)
  case (Cons x xs)
  then obtain y ys' where ys: "ys = y # ys'" by (cases ys) auto
  have sets: "set (x # xs) = set (y # ys')" using Cons.prems(3) ys by (metis mset_eq_setD)
  have "x = y"
  proof (rule ccontr)
    assume ne: "x \<noteq> y"
    with sets have "y \<in> set xs" "x \<in> set ys'" by auto
    with Cons.prems(1,2) ys have "P x y" "P y x" by auto
    with Cons.prems(4) [of x y] \<open>y \<in> set xs\<close> ne show False by simp
  qed
  moreover have "xs = ys'"
    using Cons.prems \<open>x = y\<close> ys by (intro Cons.IH) auto
  ultimately show ?case by (simp add: ys)
qed simp

lemma memberLess_antisym: "memberLess a b \<Longrightarrow> memberLess b a \<Longrightarrow> trimFlowExt a = trimFlowExt b"
  by (auto simp: memberLess_def Let_def split: if_splits)

text \<open>
  What the documentation of \<open>sort.Slice\<close> promises for a comparison that orders the names at hand: a
  rearrangement, in order.
\<close>

definition sorts_members :: "slice_sorter \<Rightarrow> string list \<Rightarrow> bool" where
  "sorts_members sorter names \<longleftrightarrow> mset (sorter memberLess names) = mset names \<and>
     (distinct (map trimFlowExt names) \<longrightarrow> sorted_wrt memberLess (sorter memberLess names))"

lemma sorted_members_unique:
  assumes "sorts_members sorter names" "sorts_members sorter names'" "mset names = mset names'"
    and "distinct (map trimFlowExt names)"
  shows "sorter memberLess names = sorter memberLess names'"
proof (rule sorted_wrt_unique)
  have d: "distinct (map trimFlowExt names')"
    using assms(3,4) by (metis mset_eq_imp_distinct_iff mset_map)
  show "sorted_wrt memberLess (sorter memberLess names)" "sorted_wrt memberLess (sorter memberLess names')"
    using assms d by (simp_all add: sorts_members_def)
  show "mset (sorter memberLess names) = mset (sorter memberLess names')"
    using assms(1-3) by (simp add: sorts_members_def)
  fix x y assume "x \<in> set (sorter memberLess names)" "y \<in> set (sorter memberLess names)"
    and less: "memberLess x y" "memberLess y x"
  then have "x \<in> set names" "y \<in> set names"
    using assms(1) unfolding sorts_members_def by (metis mset_eq_setD)+
  with memberLess_antisym [OF less] assms(4) show "x = y" by (auto simp: distinct_map dest: inj_onD)
qed

text \<open>In that order the main file comes first and the others follow by ascending stem.\<close>

definition stem_order :: "string list \<Rightarrow> string list" where
  "stem_order stems = (if ''Main'' \<in> set stems then [''Main''] else []) @ sort (filter (\<lambda>s. s \<noteq> ''Main'') stems)"

lemma sorted_stems:
  "sorted_wrt memberLess names \<Longrightarrow> distinct (map trimFlowExt names) \<Longrightarrow>
     map trimFlowExt names = (if ''Main'' \<in> trimFlowExt ` set names then [''Main''] else []) @
       filter (\<lambda>s. s \<noteq> ''Main'') (map trimFlowExt names) \<and>
     sorted (filter (\<lambda>s. s \<noteq> ''Main'') (map trimFlowExt names))"
proof (induction names)
  case (Cons n names)
  then have IH: "map trimFlowExt names = (if ''Main'' \<in> trimFlowExt ` set names then [''Main''] else []) @
       filter (\<lambda>s. s \<noteq> ''Main'') (map trimFlowExt names)" "sorted (filter (\<lambda>s. s \<noteq> ''Main'') (map trimFlowExt names))"
    by simp_all
  show ?case
  proof (cases "trimFlowExt n = ''Main''")
    case True
    with Cons.prems(2) have "''Main'' \<notin> trimFlowExt ` set names" by auto
    with IH True show ?thesis by simp
  next
    case False
    have m: "trimFlowExt m \<noteq> ''Main'' \<and> trimFlowExt n < trimFlowExt m" if "m \<in> set names" for m
      using Cons.prems(1) that False by (auto simp: memberLess_def Let_def split: if_splits)
    have "''Main'' \<notin> trimFlowExt ` set names" using m by (metis imageE)
    moreover have "\<forall>m \<in> set names. trimFlowExt n \<le> trimFlowExt m" using m less_imp_le by blast
    ultimately have "''Main'' \<notin> trimFlowExt ` set names" "\<forall>m \<in> set names. trimFlowExt n \<le> trimFlowExt m" by blast+
    with IH False show ?thesis by (auto simp: image_iff)
  qed
qed simp

lemma members_stem_order:
  assumes "sorts_members sorter names" "distinct (map trimFlowExt names)"
  shows "map trimFlowExt (sorter memberLess names) = stem_order (map trimFlowExt names)"
proof -
  let ?s = "sorter memberLess names"
  have m: "mset ?s = mset names" and s: "sorted_wrt memberLess ?s" using assms by (simp_all add: sorts_members_def)
  have d: "distinct (map trimFlowExt ?s)" using assms(2) m by (metis mset_eq_imp_distinct_iff mset_map)
  have stems: "mset (map trimFlowExt ?s) = mset (map trimFlowExt names)" using m by (metis mset_map)
  have "sort (filter (\<lambda>s. s \<noteq> ''Main'') (map trimFlowExt names)) = filter (\<lambda>s. s \<noteq> ''Main'') (map trimFlowExt ?s)"
  proof (rule properties_for_sort)
    show "mset (filter (\<lambda>s. s \<noteq> ''Main'') (map trimFlowExt ?s)) = mset (filter (\<lambda>s. s \<noteq> ''Main'') (map trimFlowExt names))"
      by (simp only: mset_filter stems)
    show "sorted (filter (\<lambda>s. s \<noteq> ''Main'') (map trimFlowExt ?s))" using sorted_stems [OF s d] by blast
  qed
  moreover have "trimFlowExt ` set ?s = set (map trimFlowExt names)" using mset_eq_setD [OF stems] by simp
  ultimately show ?thesis using conjunct1 [OF sorted_stems [OF s d]] by (simp only: stem_order_def)
qed

text \<open>Go sorts a slice of at most twelve elements by insertion: each element moves left past the greater ones.\<close>

fun insert_left :: "(string \<Rightarrow> string \<Rightarrow> bool) \<Rightarrow> string \<Rightarrow> string list \<Rightarrow> string list" where
  "insert_left lt x [] = [x]"
| "insert_left lt x (y # ys) = (if lt x y then y # insert_left lt x ys else x # y # ys)"

definition insertion_sort :: slice_sorter where
  "insertion_sort lt xs = rev (foldl (\<lambda>sorted_rev x. insert_left lt x sorted_rev) [] xs)"

section \<open>Properties\<close>

text \<open>
  C40: a multi-file flow is the union of its members. When there is a flow file and none exceeds the
  size limit, the document holds the subflows of every member in the order of the sorted names, each
  stamped with the file it comes from, and all parse errors in that order; the block count is the
  number of blocks in the tree, the subflow count that of the subflows, the line count and the size
  are the sums over the members, the depth is the largest of a member, and every file is listed once
  with its size. The sorted order, when no two names share a stem, is the main file first and the rest
  by ascending stem. Without a flow file or with one above the limit no document comes back.
\<close>

theorem parse_files_merges_members:
  assumes "distinct (map fst files)"
    and "names = sorter memberLess (filter is_flow_file (map fst files))"
    and "sorts_members sorter (filter is_flow_file (map fst files))"
  shows "if names \<noteq> [] \<and> list_all (fits files) names then
      (case ParseFiles sorter hash16 uuids files rootName of
         Inl e \<Rightarrow> False
       | Inr doc \<Rightarrow>
           Subflows doc = concat (map (\<lambda>(name, d). map (\<lambda>sf. sf\<lparr>sfSourceFile := name\<rparr>) (Subflows d)) (member_docs uuids files 0 names)) \<and>
           ParseErrors doc = concat (map (\<lambda>(name, d). ParseErrors d) (member_docs uuids files 0 names)) \<and>
           BlockCount (Metadata doc) = length (doc_blocks (Subflows doc)) \<and>
           SubflowCount (Metadata doc) = length (Subflows doc) \<and>
           RawLineCount (Metadata doc) = sum_list (map (\<lambda>(name, d). RawLineCount (Metadata d)) (member_docs uuids files 0 names)) \<and>
           FileSize (Metadata doc) = sum_list (map (\<lambda>name. length (member_source files name)) names) \<and>
           MaxDepth (Metadata doc) = Max (set (map (\<lambda>(name, d). MaxDepth (Metadata d)) (member_docs uuids files 0 names))) \<and>
           Files doc = map (\<lambda>name. \<lparr>ffPath = name, ffName = name, ffSize = length (member_source files name)\<rparr>) names \<and>
           mset names = mset (filter is_flow_file (map fst files)) \<and>
           (distinct (map trimFlowExt (filter is_flow_file (map fst files))) \<longrightarrow>
             map trimFlowExt names = stem_order (map trimFlowExt (filter is_flow_file (map fst files)))))
    else isl (ParseFiles sorter hash16 uuids files rootName)"
proof (cases "names \<noteq> [] \<and> list_all (fits files) names")
  case True
  have perm: "mset names = mset (filter is_flow_file (map fst files))"
    using assms(2,3) by (simp add: sorts_members_def)
  with True have ne: "filter is_flow_file (map fst files) \<noteq> []" by (metis mset_zero_iff)
  obtain m where m: "parse_members uuids files 0 no_files names = Inr m"
    "mgSubflows m = concat (map (\<lambda>(name, d). map (\<lambda>sf. sf\<lparr>sfSourceFile := name\<rparr>) (Subflows d)) (member_docs uuids files 0 names))"
    "mgErrors m = concat (map (\<lambda>(name, d). ParseErrors d) (member_docs uuids files 0 names))"
    "mgBlocks m = sum_list (map (\<lambda>(name, d). BlockCount (Metadata d)) (member_docs uuids files 0 names))"
    "mgLines m = sum_list (map (\<lambda>(name, d). RawLineCount (Metadata d)) (member_docs uuids files 0 names))"
    "mgSize m = sum_list (map (\<lambda>name. length (member_source files name)) names)"
    "mgDepth m = fold max (map (\<lambda>(name, d). MaxDepth (Metadata d)) (member_docs uuids files 0 names)) 0"
    "mgFiles m = map (\<lambda>name. \<lparr>ffPath = name, ffName = name, ffSize = length (member_source files name)\<rparr>) names"
    using parse_members_result [of names files uuids 0 no_files] True by (auto simp: list_all_iff no_files_def)
  have blocks: "mgBlocks m = length (doc_blocks (mgSubflows m))"
    unfolding m(2,4) by (rule merged_block_count) (auto simp: list_all_iff member_docs_def member_doc_def Let_def parse_block_count)
  have depth: "mgDepth m = Max (set (map (\<lambda>(name, d). MaxDepth (Metadata d)) (member_docs uuids files 0 names)))"
    unfolding m(7) by (rule fold_max_0) (use True in \<open>simp add: member_docs_def enumerate_eq_zip\<close>)
  have order: "distinct (map trimFlowExt (filter is_flow_file (map fst files))) \<longrightarrow>
      map trimFlowExt names = stem_order (map trimFlowExt (filter is_flow_file (map fst files)))"
    unfolding assms(2) using members_stem_order [OF assms(3)] by simp
  obtain doc where P: "ParseFiles sorter hash16 uuids files rootName = Inr doc"
    and F: "Subflows doc = mgSubflows m" "ParseErrors doc = mgErrors m" "Files doc = mgFiles m"
      "Metadata doc = \<lparr>BlockCount = mgBlocks m, SubflowCount = length (mgSubflows m), MaxDepth = mgDepth m,
        FileSize = mgSize m, RawLineCount = mgLines m\<rparr>"
    using ne m(1) assms(2) by (simp add: ParseFiles_def Let_def)
  show ?thesis
    unfolding if_P [OF True] P sum.case F FlowMetadata.select_convs
    by (intro conjI order perm blocks depth m(2,3,5,6,8) refl)
next
  case False
  have perm: "mset names = mset (filter is_flow_file (map fst files))"
    using assms(2,3) by (simp add: sorts_members_def)
  show ?thesis
  proof (cases "names = []")
    case True
    with perm have "filter is_flow_file (map fst files) = []" by (metis mset_zero_iff)
    with False True show ?thesis by (simp add: ParseFiles_def)
  next
    case ne: False
    with False obtain n src where "n \<in> set names" "map_of files n = Some src" "MaxParseTextSize < length src"
      by (auto simp: list_all_iff fits_def split: option.splits)
    then obtain e where "parse_members uuids files 0 no_files names = Inl e"
      using parse_members_too_large by blast
    then have "isl (ParseFiles sorter hash16 uuids files rootName)"
      unfolding assms(2) by (simp add: ParseFiles_def Let_def)
    then show ?thesis unfolding if_not_P [OF False] .
  qed
qed

definition sample_ids :: "nat \<Rightarrow> nat \<Rightarrow> string" where
  "sample_ids k n = replicate k (CHR ''a'') @ replicate n (CHR ''b'')"

definition sample_files :: "(string \<times> string) list" where
  "sample_files = [(''Sub.txt'', ''WAIT 1''), (''notes.md'', []), (''Main.txt'', ''WAIT 2'')]"

lemma sample_sorts: "sorts_members insertion_sort (filter is_flow_file (map fst sample_files))"
  "sorts_members insertion_sort (filter is_flow_file (map fst (rev sample_files)))"
  by (code_simp, code_simp)

theorem parse_files_merges_members_witness:
  "case ParseFiles insertion_sort (\<lambda>s. s) sample_ids sample_files ''r'' of
     Inl e \<Rightarrow> False | Inr doc \<Rightarrow> map ffName (Files doc) = [''Main.txt'', ''Sub.txt'']"
proof -
  have 1: "distinct (map fst sample_files)" "[''Main.txt'', ''Sub.txt''] = insertion_sort memberLess (filter is_flow_file (map fst sample_files))"
    "list_all (fits sample_files) [''Main.txt'', ''Sub.txt'']"
    by (code_simp, code_simp, simp add: fits_def sample_files_def MaxParseTextSize_def)
  from parse_files_merges_members [OF 1(1,2) sample_sorts(1),
    where ?hash16.0 = "\<lambda>s. s" and uuids = sample_ids and rootName = "''r''"] 1(3)
  show ?thesis by (simp split: sum.splits)
qed

text \<open>
  the document of a multi-file flow does not depend on the order in which Go's map iteration
  happens to visit the files, as long as no two files differ in their extension only.
\<close>

theorem parse_files_ignores_map_order:
  assumes "distinct (map fst files)" "mset files' = mset files"
    and "distinct (map trimFlowExt (filter is_flow_file (map fst files)))"
    and "sorts_members sorter (filter is_flow_file (map fst files))"
    and "sorts_members sorter (filter is_flow_file (map fst files'))"
  shows "ParseFiles sorter hash16 uuids files' rootName = ParseFiles sorter hash16 uuids files rootName"
proof -
  have keys: "mset (map fst files') = mset (map fst files)" using assms(2) by (metis mset_map)
  then have d': "distinct (map fst files')" using assms(1) by (metis mset_eq_imp_distinct_iff)
  have names: "mset (filter is_flow_file (map fst files')) = mset (filter is_flow_file (map fst files))"
    using keys by (simp only: mset_filter)
  have "map_of files' = map_of files"
    using assms(1,2) d' by (metis map_of_inject_set mset_eq_setD)
  moreover have "sorter memberLess (filter is_flow_file (map fst files')) = sorter memberLess (filter is_flow_file (map fst files))"
    using sorted_members_unique [OF assms(4,5) names [symmetric] assms(3)] by simp
  moreover have "filter is_flow_file (map fst files') = [] \<longleftrightarrow> filter is_flow_file (map fst files) = []"
    using names by (metis mset_zero_iff)
  ultimately show ?thesis
    using parse_members_cong [of files' files] by (simp only: ParseFiles_def Let_def)
qed

theorem parse_files_ignores_map_order_witness:
  "ParseFiles insertion_sort (\<lambda>s. s) sample_ids (rev sample_files) ''r'' =
   ParseFiles insertion_sort (\<lambda>s. s) sample_ids sample_files ''r''"
proof (rule parse_files_ignores_map_order)
  show "distinct (map fst sample_files)" "distinct (map trimFlowExt (filter is_flow_file (map fst sample_files)))"
    by (code_simp, code_simp)
qed (simp_all add: sample_sorts)

text \<open>
  with two files that differ in their extension only, the order of the members, and with it the
  identity that session analytics key on, follows the map iteration order.
\<close>

theorem parse_files_order_ambiguous:
  "let ids = (\<lambda>files. map_sum (\<lambda>e. e) StableID (ParseFiles insertion_sort (\<lambda>s. s) (\<lambda>k n. []) files ''r'')) in
     ids [(''Main.txt'', []), (''Main.pad'', [])] \<noteq> ids [(''Main.pad'', []), (''Main.txt'', [])]"
proof -
  have ids: "map_sum (\<lambda>e. e) StableID (ParseFiles insertion_sort (\<lambda>s. s) (\<lambda>k n. []) [(a, []), (b, [])] ''r'') =
      Inr (''files-'' @ b @ [CHR 0x00] @ a @ [CHR 0x00])"
    if "is_flow_file a" "is_flow_file b" "memberLess b a" for a b
    using that by (simp add: ParseFiles_def insertion_sort_def Let_def ParseText_document MaxParseTextSize_def)
  have "is_flow_file ''Main.txt''" "is_flow_file ''Main.pad''" by code_simp+
  moreover have "memberLess ''Main.pad'' ''Main.txt''" "memberLess ''Main.txt'' ''Main.pad''" by code_simp+
  ultimately show ?thesis by (simp add: ids)
qed

end
