(* ===== verification/Flow_Diff.thy ===== *)
theory Flow_Diff
  imports Models
begin

text \<open>
  core/parser/diff.go: block equality, the LCS table and its backtracking, the coarse
  fallback for large subflows, and the diff of two documents. The contract of a block
  differ (\<open>block_differ\<close>) is that nothing is lost: the old sides of the entries are the old
  blocks, the new sides the new ones. Both the exact and the coarse procedure provide it.
\<close>

section \<open>Model\<close>

datatype ChangeType = ChangeNone | ChangeAdded | ChangeRemoved | ChangeModified

record BlockDiff =
  bdChange :: ChangeType
  bdOld :: "Block option"
  bdNew :: "Block option"

record SubflowDiff =
  sdName :: string
  sdChange :: ChangeType
  sdBlocks :: "BlockDiff list"

record FlowDiff =
  fdOldID :: string
  fdNewID :: string
  fdSubflows :: "SubflowDiff list"

text \<open>\<open>maps.Equal\<close>: as many keys, and every key of the first has the same value in the second.\<close>

definition maps_Equal :: "properties \<Rightarrow> properties \<Rightarrow> bool" where
  "maps_Equal p q \<longleftrightarrow> length (remdups (map fst p)) = length (remdups (map fst q)) \<and>
     list_all (\<lambda>k. map_of q k = map_of p k) (map fst p)"

definition blocksEqual :: "Block \<Rightarrow> Block \<Rightarrow> bool" where
  "blocksEqual a b \<longleftrightarrow> bRawType (binfo a) = bRawType (binfo b) \<and> bName (binfo a) = bName (binfo b) \<and>
     bIndent (binfo a) = bIndent (binfo b) \<and> maps_Equal (bProperties (binfo a)) (bProperties (binfo b))"

fun flattenBlocks :: "Block list \<Rightarrow> Block list" where
  "flattenBlocks [] = []"
| "flattenBlocks (Block b cs # bs) =
     Block b cs # (if cs \<noteq> [] then flattenBlocks cs else []) @ flattenBlocks bs"

definition unchanged :: "Block \<Rightarrow> Block \<Rightarrow> BlockDiff" where
  "unchanged a b = \<lparr>bdChange = ChangeNone, bdOld = Some a, bdNew = Some b\<rparr>"

definition added :: "Block \<Rightarrow> BlockDiff" where
  "added b = \<lparr>bdChange = ChangeAdded, bdOld = None, bdNew = Some b\<rparr>"

definition removed :: "Block \<Rightarrow> BlockDiff" where
  "removed a = \<lparr>bdChange = ChangeRemoved, bdOld = Some a, bdNew = None\<rparr>"

text \<open>\<open>wrapBlocksAsDiff\<close> is called with \<open>ChangeAdded\<close> and \<open>ChangeRemoved\<close> only.\<close>

fun wrapBlocksAsDiff :: "Block list \<Rightarrow> ChangeType \<Rightarrow> BlockDiff list" where
  "wrapBlocksAsDiff [] change = []"
| "wrapBlocksAsDiff (Block b cs # bs) change =
     (if change = ChangeAdded
      then \<lparr>bdChange = change, bdOld = None, bdNew = Some (Block b cs)\<rparr>
      else \<lparr>bdChange = change, bdOld = Some (Block b cs), bdNew = None\<rparr>)
     # (if cs \<noteq> [] then wrapBlocksAsDiff cs change else []) @ wrapBlocksAsDiff bs change"

definition maxDiffBlocksPerSide :: nat where "maxDiffBlocksPerSide = 5000"

definition maxDiffCells :: nat where "maxDiffCells = 4000000"

definition diffTooLarge :: "nat \<Rightarrow> nat \<Rightarrow> bool" where
  "diffTooLarge m n \<longleftrightarrow> m > maxDiffBlocksPerSide \<or> n > maxDiffBlocksPerSide \<or> m * n > maxDiffCells"

text \<open>
  The table, filled row by row: \<open>lcs_cells\<close> fills a row from left to right, with the row above
  (from the cell diagonally before the current one) and the cell just filled.
\<close>

fun lcs_cells :: "Block \<Rightarrow> Block list \<Rightarrow> nat list \<Rightarrow> nat \<Rightarrow> nat list" where
  "lcs_cells x (y # ys) (d # u # prev) left =
     (let c = (if blocksEqual x y then d + 1 else max u left)
      in c # lcs_cells x ys (u # prev) c)"
| "lcs_cells x ys prev left = []"

fun lcs_rows :: "nat list \<Rightarrow> Block list \<Rightarrow> Block list \<Rightarrow> nat list list" where
  "lcs_rows prev [] b = []"
| "lcs_rows prev (x # xs) b =
     (let row = 0 # lcs_cells x b prev 0 in row # lcs_rows row xs b)"

definition lcs :: "Block list \<Rightarrow> Block list \<Rightarrow> nat list list" where
  "lcs a b = (let zeros = replicate (length b + 1) 0 in zeros # lcs_rows zeros a b)"

function backtrack :: "nat list list \<Rightarrow> Block list \<Rightarrow> Block list \<Rightarrow> nat \<Rightarrow> nat \<Rightarrow> BlockDiff list" where
  "backtrack matrix a b i j =
     (if i > 0 \<and> j > 0 \<and> blocksEqual (a ! (i - 1)) (b ! (j - 1))
        then backtrack matrix a b (i - 1) (j - 1) @ [unchanged (a ! (i - 1)) (b ! (j - 1))]
      else if j > 0 \<and> (i = 0 \<or> matrix ! i ! (j - 1) \<ge> matrix ! (i - 1) ! j)
        then backtrack matrix a b i (j - 1) @ [added (b ! (j - 1))]
      else if i > 0 \<and> (j = 0 \<or> matrix ! i ! (j - 1) < matrix ! (i - 1) ! j)
        then backtrack matrix a b (i - 1) j @ [removed (a ! (i - 1))]
      else [])"
  by pat_completeness auto
termination by (relation "measure (\<lambda>(_, _, _, i, j). i + j)") auto

declare backtrack.simps [simp del]

definition exactBlockDiff :: "Block list \<Rightarrow> Block list \<Rightarrow> BlockDiff list" where
  "exactBlockDiff a b = backtrack (lcs a b) a b (length a) (length b)"

definition coarseBlockDiff :: "Block list \<Rightarrow> Block list \<Rightarrow> BlockDiff list" where
  "coarseBlockDiff a b =
     (if length a = length b \<and> list_all2 blocksEqual a b then map2 unchanged a b
      else map removed a @ map added b)"

definition diff_blocks :: "Block list \<Rightarrow> Block list \<Rightarrow> BlockDiff list" where
  "diff_blocks a b =
     (if diffTooLarge (length a) (length b) then coarseBlockDiff a b else exactBlockDiff a b)"

definition diffSubflow :: "Subflow \<Rightarrow> Subflow \<Rightarrow> SubflowDiff" where
  "diffSubflow oldSf newSf =
     (let bs = diff_blocks (flattenBlocks (sfBlocks oldSf)) (flattenBlocks (sfBlocks newSf)) in
      \<lparr>sdName = sfName newSf,
       sdChange = (if list_ex (\<lambda>d. bdChange d \<noteq> ChangeNone) bs then ChangeModified else ChangeNone),
       sdBlocks = bs\<rparr>)"

text \<open>The map from names to subflows: a later subflow replaces an earlier one of the same name.\<close>

definition subflows_by_name :: "Subflow list \<Rightarrow> (string \<times> Subflow) list" where
  "subflows_by_name sfs = foldl (\<lambda>m sf. AList.update (sfName sf) sf m) [] sfs"

definition DiffFlows :: "FlowDocument \<Rightarrow> FlowDocument \<Rightarrow> FlowDiff" where
  "DiffFlows oldDoc newDoc =
     (let oldSubflows = subflows_by_name (Subflows oldDoc);
          newSubflows = subflows_by_name (Subflows newDoc)
      in \<lparr>fdOldID = docID oldDoc, fdNewID = docID newDoc,
          fdSubflows =
            map (\<lambda>newSf. case map_of oldSubflows (sfName newSf) of
                   Some oldSf \<Rightarrow> diffSubflow oldSf newSf
                 | None \<Rightarrow> \<lparr>sdName = sfName newSf, sdChange = ChangeAdded,
                     sdBlocks = wrapBlocksAsDiff (sfBlocks newSf) ChangeAdded\<rparr>) (Subflows newDoc)
            @ map (\<lambda>oldSf. \<lparr>sdName = sfName oldSf, sdChange = ChangeRemoved,
                     sdBlocks = wrapBlocksAsDiff (sfBlocks oldSf) ChangeRemoved\<rparr>)
                (filter (\<lambda>oldSf. map_of newSubflows (sfName oldSf) = None) (Subflows oldDoc))\<rparr>)"

section \<open>Equality of blocks\<close>

lemma maps_Equal_iff: "maps_Equal p q \<longleftrightarrow> map_of p = map_of q"
proof
  assume eq: "maps_Equal p q"
  have card: "card (dom (map_of p)) = card (dom (map_of q))"
    using eq by (simp add: maps_Equal_def length_remdups_card_conv dom_map_of_conv_image_fst)
  have pq: "map_of q k = map_of p k" if "k \<in> dom (map_of p)" for k
    using eq that by (auto simp: maps_Equal_def list_all_iff dom_map_of_conv_image_fst)
  then have "dom (map_of p) \<subseteq> dom (map_of q)" by (metis domIff subsetI)
  with card have dom: "dom (map_of p) = dom (map_of q)"
    by (intro card_subset_eq finite_dom_map_of)
  show "map_of p = map_of q"
  proof
    fix k show "map_of p k = map_of q k" using pq [of k] dom by (cases "k \<in> dom (map_of p)") (auto simp: domIff)
  qed
next
  assume eq: "map_of p = map_of q"
  then have "fst ` set p = fst ` set q" by (metis dom_map_of_conv_image_fst)
  with eq show "maps_Equal p q"
    by (simp add: maps_Equal_def length_remdups_card_conv list_all_iff)
qed

lemma blocksEqual_equivp: "equivp blocksEqual"
  by (rule equivpI) (auto simp: reflp_def symp_def transp_def blocksEqual_def maps_Equal_iff)

lemma flattenBlocks_forest: "flattenBlocks bs = forest_blocks bs"
  by (induction bs rule: flattenBlocks.induct) (auto simp: forest_blocks_def)

section \<open>The table\<close>

text \<open>The recurrence the table tabulates, on prefixes of length \<open>i\<close> and \<open>j\<close>.\<close>

fun lcs_spec :: "Block list \<Rightarrow> Block list \<Rightarrow> nat \<Rightarrow> nat \<Rightarrow> nat" where
  "lcs_spec a b 0 j = 0"
| "lcs_spec a b (Suc i) 0 = 0"
| "lcs_spec a b (Suc i) (Suc j) =
     (if blocksEqual (a ! i) (b ! j) then lcs_spec a b i j + 1
      else max (lcs_spec a b i (Suc j)) (lcs_spec a b (Suc i) j))"

lemma lcs_spec_0 [simp]: "lcs_spec a b i 0 = 0"
  by (cases i) simp_all

lemma upt_Cons2: "j < n \<Longrightarrow> [j..<Suc n] = j # Suc j # [Suc (Suc j)..<Suc n]"
  by (simp add: upt_conv_Cons)

lemma lcs_cells_correct:
  assumes "j \<le> length b"
  shows "lcs_cells (a ! i) (drop j b) (map (lcs_spec a b i) [j..<Suc (length b)]) (lcs_spec a b (Suc i) j)
    = map (lcs_spec a b (Suc i)) [Suc j..<Suc (length b)]"
  using assms
proof (induction "length b - j" arbitrary: j)
  case 0
  then show ?case by simp
next
  case (Suc k)
  then have j: "j < length b" by simp
  let ?R = "lcs_spec a b"
  have c: "(if blocksEqual (a ! i) (b ! j) then ?R i j + 1 else max (?R i (Suc j)) (?R (Suc i) j)) =
      ?R (Suc i) (Suc j)" by simp
  have IH: "lcs_cells (a ! i) (drop (Suc j) b) (map (?R i) [Suc j..<Suc (length b)]) (?R (Suc i) (Suc j)) =
      map (?R (Suc i)) [Suc (Suc j)..<Suc (length b)]"
    using Suc j by (intro Suc.hyps) simp_all
  have up: "[Suc j..<Suc (length b)] = Suc j # [Suc (Suc j)..<Suc (length b)]"
    using j by (simp add: upt_conv_Cons)
  show ?case
    using IH unfolding Cons_nth_drop_Suc [OF j, symmetric] upt_Cons2 [OF j] up list.map
      lcs_cells.simps(1) Let_def c by simp
qed

lemma lcs_rows_correct:
  assumes "i \<le> length a"
  shows "lcs_rows (map (lcs_spec a b i) [0..<Suc (length b)]) (drop i a) b =
    map (\<lambda>i. map (lcs_spec a b i) [0..<Suc (length b)]) [Suc i..<Suc (length a)]"
  using assms
proof (induction "length a - i" arbitrary: i)
  case 0
  then show ?case by simp
next
  case (Suc k)
  then have i: "i < length a" by simp
  have row: "0 # lcs_cells (a ! i) b (map (lcs_spec a b i) [0..<Suc (length b)]) 0 =
      map (lcs_spec a b (Suc i)) [0..<Suc (length b)]"
    using lcs_cells_correct [of 0 b a i] by (simp add: upt_conv_Cons del: upt_Suc)
  have IH: "lcs_rows (map (lcs_spec a b (Suc i)) [0..<Suc (length b)]) (drop (Suc i) a) b =
      map (\<lambda>i. map (lcs_spec a b i) [0..<Suc (length b)]) [Suc (Suc i)..<Suc (length a)]"
    using Suc i by (intro Suc.hyps) simp_all
  have up: "[Suc i..<Suc (length a)] = Suc i # [Suc (Suc i)..<Suc (length a)]"
    using i by (simp add: upt_conv_Cons)
  show ?case
    unfolding Cons_nth_drop_Suc [OF i, symmetric] lcs_rows.simps Let_def row IH up by simp
qed

lemma lcs_table:
  "lcs a b = map (\<lambda>i. map (lcs_spec a b i) [0..<Suc (length b)]) [0..<Suc (length a)]"
proof -
  have z: "replicate (length b + 1) 0 = map (lcs_spec a b 0) [0..<Suc (length b)]"
    by (rule nth_equalityI) (simp_all del: upt_Suc replicate_Suc)
  have "[0..<Suc (length a)] = 0 # [Suc 0..<Suc (length a)]"
    by (simp add: upt_conv_Cons del: upt_Suc)
  with lcs_rows_correct [of 0 a b] show ?thesis
    unfolding lcs_def Let_def z by (simp del: upt_Suc)
qed

lemma lcs_entry: "i \<le> length a \<Longrightarrow> j \<le> length b \<Longrightarrow> lcs a b ! i ! j = lcs_spec a b i j"
  unfolding lcs_table by (simp del: upt_Suc)

subsection \<open>Optimality\<close>

text \<open>A common subsequence of the prefixes, as the pairs of positions it matches.\<close>

definition alignment :: "Block list \<Rightarrow> Block list \<Rightarrow> nat \<Rightarrow> nat \<Rightarrow> (nat \<times> nat) list \<Rightarrow> bool" where
  "alignment a b i j ps \<longleftrightarrow> sorted_wrt (\<lambda>p q. fst p < fst q \<and> snd p < snd q) ps \<and>
     list_all (\<lambda>p. fst p < i \<and> snd p < j \<and> blocksEqual (a ! fst p) (b ! snd p)) ps"

lemma alignment_snoc:
  "alignment a b i j (ps @ [(x, y)]) \<longleftrightarrow>
     alignment a b x y ps \<and> x < i \<and> y < j \<and> blocksEqual (a ! x) (b ! y)"
  by (auto simp: alignment_def sorted_wrt_append list_all_iff)

lemma alignment_mono: "alignment a b i j ps \<Longrightarrow> i \<le> i' \<Longrightarrow> j \<le> j' \<Longrightarrow> alignment a b i' j' ps"
  by (fastforce simp: alignment_def list_all_iff)

lemma alignment_upper: "alignment a b i j ps \<Longrightarrow> length ps \<le> lcs_spec a b i j"
proof (induction a b i j arbitrary: ps rule: lcs_spec.induct)
  case (1 a b j)
  then show ?case by (cases ps) (auto simp: alignment_def)
next
  case (2 a b i)
  then show ?case by (cases ps) (auto simp: alignment_def)
next
  case (3 a b i j)
  show ?case
  proof (cases ps rule: rev_cases)
    case (snoc qs p)
    obtain x y where p: "p = (x, y)" by force
    from 3(4) have q: "alignment a b x y qs" and xy: "x < Suc i" "y < Suc j" "blocksEqual (a ! x) (b ! y)"
      unfolding snoc p alignment_snoc by simp_all
    show ?thesis
    proof (cases "blocksEqual (a ! i) (b ! j)")
      case True
      have "alignment a b i j qs" using q xy by (auto intro: alignment_mono)
      with 3(1) [OF True] True snoc show ?thesis by simp
    next
      case False
      with xy have "x < i \<or> y < j" by (metis less_antisym)
      then have "alignment a b i (Suc j) ps \<or> alignment a b (Suc i) j ps"
        unfolding snoc p alignment_snoc using q xy by auto
      with 3(2,3) [OF False] False show ?thesis by (auto simp: le_max_iff_disj)
    qed
  qed simp
qed

lemma alignment_exists: "\<exists>ps. alignment a b i j ps \<and> length ps = lcs_spec a b i j"
proof (induction a b i j rule: lcs_spec.induct)
  case (3 a b i j)
  show ?case
  proof (cases "blocksEqual (a ! i) (b ! j)")
    case True
    from 3(1) [OF True] obtain ps where "alignment a b i j ps" "length ps = lcs_spec a b i j" by blast
    with True have "alignment a b (Suc i) (Suc j) (ps @ [(i, j)])"
      "length (ps @ [(i, j)]) = lcs_spec a b (Suc i) (Suc j)" by (simp_all add: alignment_snoc)
    then show ?thesis by blast
  next
    case False
    from 3(2) [OF False] 3(3) [OF False] obtain ps qs
      where "alignment a b i (Suc j) ps" "length ps = lcs_spec a b i (Suc j)"
        and "alignment a b (Suc i) j qs" "length qs = lcs_spec a b (Suc i) j" by blast
    moreover from this have "alignment a b (Suc i) (Suc j) ps" "alignment a b (Suc i) (Suc j) qs"
      by (auto elim: alignment_mono)
    ultimately show ?thesis using False by (metis lcs_spec.simps(3) max_def)
  qed
qed (auto simp: alignment_def intro: exI [where x = "[]"])

text \<open>
  the table entry at row i and column j is the length of a longest common subsequence of the
  first i old and the first j new blocks: some common subsequence has that length and none is
  longer.
\<close>

theorem lcs_matrix_optimal:
  assumes "i \<le> length a" "j \<le> length b"
  shows "(\<exists>ps. alignment a b i j ps \<and> length ps = lcs a b ! i ! j) \<and>
    (\<forall>ps. alignment a b i j ps \<longrightarrow> length ps \<le> lcs a b ! i ! j)"
  using alignment_exists alignment_upper unfolding lcs_entry [OF assms] by blast

section \<open>Diffs lose nothing\<close>

definition entry_ok :: "BlockDiff \<Rightarrow> bool" where
  "entry_ok d \<longleftrightarrow>
     (case (bdOld d, bdNew d) of
        (Some a, Some b) \<Rightarrow> bdChange d = ChangeNone \<and> blocksEqual a b
      | (Some a, None) \<Rightarrow> bdChange d = ChangeRemoved
      | (None, Some b) \<Rightarrow> bdChange d = ChangeAdded
      | (None, None) \<Rightarrow> False)"

lemma entry_ok_simps [simp]:
  "entry_ok (unchanged a b) = blocksEqual a b" "entry_ok (added b)" "entry_ok (removed a)"
  "bdOld (unchanged a b) = Some a" "bdNew (unchanged a b) = Some b" "bdChange (unchanged a b) = ChangeNone"
  "bdOld (added b) = None" "bdNew (added b) = Some b" "bdChange (added b) = ChangeAdded"
  "bdOld (removed a) = Some a" "bdNew (removed a) = None" "bdChange (removed a) = ChangeRemoved"
  by (simp_all add: entry_ok_def unchanged_def added_def removed_def)

definition olds :: "BlockDiff list \<Rightarrow> Block list" where
  "olds ds = List.map_filter bdOld ds"

definition news :: "BlockDiff list \<Rightarrow> Block list" where
  "news ds = List.map_filter bdNew ds"

lemma sides_simps [simp]:
  "olds [] = []" "olds (d # ds) = (case bdOld d of None \<Rightarrow> olds ds | Some a \<Rightarrow> a # olds ds)"
  "olds (ds @ es) = olds ds @ olds es"
  "news [] = []" "news (d # ds) = (case bdNew d of None \<Rightarrow> news ds | Some a \<Rightarrow> a # news ds)"
  "news (ds @ es) = news ds @ news es"
  by (simp_all add: olds_def news_def List.map_filter_def split: option.split)

definition kept :: "BlockDiff list \<Rightarrow> nat" where
  "kept ds = length (filter (\<lambda>d. bdChange d = ChangeNone) ds)"

text \<open>The contract of a block differ, and what its clients conclude from it.\<close>

locale block_differ =
  fixes differ :: "Block list \<Rightarrow> Block list \<Rightarrow> BlockDiff list"
  assumes differ_olds: "olds (differ a b) = a"
    and differ_news: "news (differ a b) = b"
    and differ_entries: "list_all entry_ok (differ a b)"
begin

lemma sizes_aux:
  "list_all entry_ok ds \<Longrightarrow> length ds + kept ds = length (olds ds) + length (news ds)"
  by (induction ds) (auto simp: kept_def entry_ok_def split: option.splits)

lemma differ_length: "length (differ a b) + kept (differ a b) = length a + length b"
  using sizes_aux [OF differ_entries, of a b] by (simp add: differ_olds differ_news)

lemma unchanged_aux:
  "list_all entry_ok ds \<Longrightarrow> list_all (\<lambda>d. bdChange d = ChangeNone) ds \<Longrightarrow>
     list_all2 blocksEqual (olds ds) (news ds)"
  by (induction ds) (auto simp: entry_ok_def split: option.splits)

lemma no_change_equal:
  "list_all (\<lambda>d. bdChange d = ChangeNone) (differ a b) \<Longrightarrow> list_all2 blocksEqual a b"
  using unchanged_aux [OF differ_entries, of a b] by (simp add: differ_olds differ_news)

end

lemma take_pred: "0 < i \<Longrightarrow> i \<le> length xs \<Longrightarrow> take i xs = take (i - 1) xs @ [xs ! (i - 1)]"
  by (cases i) (simp_all add: take_Suc_conv_app_nth)

lemma backtrack_same:
  "i > 0 \<Longrightarrow> j > 0 \<Longrightarrow> blocksEqual (a ! (i - 1)) (b ! (j - 1)) \<Longrightarrow>
     backtrack M a b i j =
       backtrack M a b (i - 1) (j - 1) @ [unchanged (a ! (i - 1)) (b ! (j - 1))]"
  by (subst backtrack.simps) simp

lemma backtrack_add:
  "\<not> (i > 0 \<and> j > 0 \<and> blocksEqual (a ! (i - 1)) (b ! (j - 1))) \<Longrightarrow>
     j > 0 \<Longrightarrow> i = 0 \<or> M ! i ! (j - 1) \<ge> M ! (i - 1) ! j \<Longrightarrow>
     backtrack M a b i j = backtrack M a b i (j - 1) @ [added (b ! (j - 1))]"
  by (subst backtrack.simps) auto

lemma backtrack_rem:
  "\<not> (i > 0 \<and> j > 0 \<and> blocksEqual (a ! (i - 1)) (b ! (j - 1))) \<Longrightarrow>
     i > 0 \<Longrightarrow> j = 0 \<or> M ! i ! (j - 1) < M ! (i - 1) ! j \<Longrightarrow>
     backtrack M a b i j = backtrack M a b (i - 1) j @ [removed (a ! (i - 1))]"
  by (subst backtrack.simps) auto

lemma backtrack_none [simp]: "backtrack M a b 0 0 = []"
  by (subst backtrack.simps) simp

lemma backtrack_sides:
  assumes "i \<le> length a" "j \<le> length b"
  shows "olds (backtrack M a b i j) = take i a \<and> news (backtrack M a b i j) = take j b \<and>
    list_all entry_ok (backtrack M a b i j)"
  using assms
proof (induction M a b i j rule: backtrack.induct)
  case (1 M a b i j)
  consider (same) "i > 0" "j > 0" "blocksEqual (a ! (i - 1)) (b ! (j - 1))"
    | (add) "\<not> (i > 0 \<and> j > 0 \<and> blocksEqual (a ! (i - 1)) (b ! (j - 1)))"
        "j > 0" "i = 0 \<or> M ! i ! (j - 1) \<ge> M ! (i - 1) ! j"
    | (rem) "\<not> (i > 0 \<and> j > 0 \<and> blocksEqual (a ! (i - 1)) (b ! (j - 1)))"
        "\<not> (j > 0 \<and> (i = 0 \<or> M ! i ! (j - 1) \<ge> M ! (i - 1) ! j))"
        "i > 0" "j = 0 \<or> M ! i ! (j - 1) < M ! (i - 1) ! j"
    | (none) "i = 0" "j = 0"
    by linarith
  then show ?case
  proof cases
    case same
    with 1(1) 1(4,5) show ?thesis by (simp add: backtrack_same [OF same] take_pred)
  next
    case add
    with 1(2) 1(4,5) show ?thesis by (simp add: backtrack_add [OF add] take_pred)
  next
    case rem
    with 1(3) 1(4,5) show ?thesis by (simp add: backtrack_rem [OF rem(1,3,4)] take_pred)
  next
    case none
    then show ?thesis by simp
  qed
qed

lemma lcs_spec_pred:
  "0 < i \<Longrightarrow> 0 < j \<Longrightarrow> lcs_spec a b i j =
     (if blocksEqual (a ! (i - 1)) (b ! (j - 1)) then lcs_spec a b (i - 1) (j - 1) + 1
      else max (lcs_spec a b (i - 1) j) (lcs_spec a b i (j - 1)))"
  by (cases i; cases j) simp_all

lemma kept_append: "kept (ds @ es) = kept ds + kept es"
  by (simp add: kept_def)

lemma kept_single [simp]: "kept [unchanged a b] = 1" "kept [added b] = 0" "kept [removed a] = 0"
  by (simp_all add: kept_def)

lemma backtrack_kept:
  assumes "i \<le> length a" "j \<le> length b"
  shows "kept (backtrack (lcs a b) a b i j) = lcs_spec a b i j"
  using assms
proof (induction "lcs a b" a b i j rule: backtrack.induct)
  case (1 a b i j)
  let ?M = "lcs a b"
  have M: "?M ! i' ! j' = lcs_spec a b i' j'" if "i' \<le> i" "j' \<le> j" for i' j'
    using 1(4,5) that by (intro lcs_entry) auto
  consider (same) "i > 0" "j > 0" "blocksEqual (a ! (i - 1)) (b ! (j - 1))"
    | (diff) "i > 0" "j > 0" "\<not> blocksEqual (a ! (i - 1)) (b ! (j - 1))"
    | (left) "i > 0" "j = 0" | (right) "i = 0" "j > 0" | (none) "i = 0" "j = 0"
    by blast
  then show ?case
  proof cases
    case same
    with 1 show ?thesis by (simp add: backtrack_same [OF same] lcs_spec_pred kept_append)
  next
    case diff
    then have ne: "\<not> (i > 0 \<and> j > 0 \<and> blocksEqual (a ! (i - 1)) (b ! (j - 1)))" by simp
    show ?thesis
    proof (cases "?M ! i ! (j - 1) \<ge> ?M ! (i - 1) ! j")
      case True
      with 1(2) [OF ne] 1(4,5) diff M [of i "j - 1"] M [of "i - 1" j] show ?thesis
        by (simp add: backtrack_add [OF ne] lcs_spec_pred kept_append)
    next
      case False
      with 1(3) [OF ne] 1(4,5) diff M [of i "j - 1"] M [of "i - 1" j] show ?thesis
        by (simp add: backtrack_rem [OF ne] lcs_spec_pred kept_append)
    qed
  next
    case left
    with 1 show ?thesis by (simp add: backtrack_rem kept_append)
  next
    case right
    with 1 show ?thesis by (simp add: backtrack_add kept_append)
  next
    case none
    then show ?thesis by (simp add: kept_def)
  qed
qed

interpretation exact_differ: block_differ exactBlockDiff
  by unfold_locales (simp_all add: exactBlockDiff_def backtrack_sides)

lemma coarse_same:
  assumes "list_all2 blocksEqual a b"
  shows "olds (map2 unchanged a b) = a \<and> news (map2 unchanged a b) = b \<and>
    list_all entry_ok (map2 unchanged a b)"
  using assms by (induction rule: list_all2_induct) auto

lemma coarse_other:
  "olds (map removed a @ map added b) = a \<and> news (map removed a @ map added b) = b \<and>
   list_all entry_ok (map removed a @ map added b)"
proof -
  have "olds (map removed a) = a" "news (map removed a) = []" by (induction a) simp_all
  moreover have "olds (map added b) = []" "news (map added b) = b" by (induction b) simp_all
  moreover have "list_all entry_ok (map removed a)" "list_all entry_ok (map added b)"
    by (simp_all add: list.pred_map comp_def list.pred_True)
  ultimately show ?thesis by simp
qed

interpretation coarse_differ: block_differ coarseBlockDiff
  using coarse_same coarse_other by unfold_locales (auto simp: coarseBlockDiff_def)

interpretation differ: block_differ diff_blocks
  by unfold_locales
    (simp_all add: diff_blocks_def exact_differ.differ_olds exact_differ.differ_news
      exact_differ.differ_entries coarse_differ.differ_olds coarse_differ.differ_news
      coarse_differ.differ_entries)

section \<open>Properties\<close>

text \<open>
  the diff of a subflow accounts for every block of both versions, in order: the old sides
  of its entries are exactly the old blocks, the new sides exactly the new ones, and an entry
  marked unchanged pairs two equal blocks. This holds above and below the size caps.
\<close>

theorem diff_subflow_accounts:
  "let ds = sdBlocks (diffSubflow old new) in
     olds ds = forest_blocks (sfBlocks old) \<and> news ds = forest_blocks (sfBlocks new) \<and>
     list_all entry_ok ds \<and>
     length ds + kept ds = length (forest_blocks (sfBlocks old)) + length (forest_blocks (sfBlocks new))"
  by (simp add: diffSubflow_def Let_def flattenBlocks_forest differ.differ_olds differ.differ_news
      differ.differ_entries differ.differ_length)

lemma script_alignment:
  "list_all entry_ok ds \<Longrightarrow> prefix (olds ds) a \<Longrightarrow> prefix (news ds) b \<Longrightarrow>
     \<exists>ps. alignment a b (length (olds ds)) (length (news ds)) ps \<and> length ps = kept ds"
proof (induction ds rule: rev_induct)
  case Nil
  show ?case by (auto simp: alignment_def kept_def)
next
  case (snoc d ds)
  from snoc.prems have pre: "prefix (olds ds) a" "prefix (news ds) b"
    by (auto dest: append_prefixD)
  with snoc obtain ps where ps: "alignment a b (length (olds ds)) (length (news ds)) ps"
    "length ps = kept ds" by auto
  show ?case
  proof (cases "bdOld d \<noteq> None \<and> bdNew d \<noteq> None")
    case True
    then obtain x y where xy: "bdOld d = Some x" "bdNew d = Some y" by auto
    with snoc.prems have eq: "blocksEqual x y" "bdChange d = ChangeNone" by (simp_all add: entry_ok_def)
    have "a ! length (olds ds) = x" "b ! length (news ds) = y"
      using snoc.prems(2,3) xy by (auto simp: prefix_def)
    with ps eq have "alignment a b (Suc (length (olds ds))) (Suc (length (news ds)))
        (ps @ [(length (olds ds), length (news ds))])"
      by (simp add: alignment_snoc)
    with ps eq xy show ?thesis
      by (intro exI [where x = "ps @ [(length (olds ds), length (news ds))]"]) (simp add: kept_def)
  next
    case False
    with snoc.prems have "bdChange d \<noteq> ChangeNone" by (auto simp: entry_ok_def split: option.splits)
    with ps show ?thesis
      by (intro exI [where x = ps]) (auto simp: kept_def split: option.split elim: alignment_mono)
  qed
qed

lemma exact_keeps_most:
  assumes "list_all entry_ok ds" "olds ds = a" "news ds = b"
  shows "kept ds \<le> kept (exactBlockDiff a b)"
proof -
  obtain ps where "alignment a b (length a) (length b) ps" "length ps = kept ds"
    using script_alignment [OF assms(1), of a b] assms(2,3) by auto
  with alignment_upper show ?thesis by (fastforce simp: exactBlockDiff_def backtrack_kept)
qed

text \<open>
  C38: below the size caps the diff is a minimal edit script: its old sides are the old blocks, its
  new sides the new ones, both in order, an entry that pairs two blocks is marked unchanged and pairs
  equal ones, and no other script that accounts for the same blocks in this way keeps more blocks
  unchanged or is shorter.
\<close>

theorem exact_diff_minimal:
  assumes "\<not> diffTooLarge (length a) (length b)"
    and "list_all entry_ok ds" "olds ds = a" "news ds = b"
  shows "list_all entry_ok (diff_blocks a b) \<and> olds (diff_blocks a b) = a \<and> news (diff_blocks a b) = b \<and>
    kept ds \<le> kept (diff_blocks a b) \<and> length (diff_blocks a b) \<le> length ds"
proof -
  have *: "diff_blocks a b = exactBlockDiff a b" using assms(1) by (simp add: diff_blocks_def)
  have "length ds + kept ds = length a + length b"
    using exact_differ.sizes_aux [OF assms(2)] assms(3,4) by simp
  with exact_keeps_most [OF assms(2-4)] exact_differ.differ_length [of a b]
  have "kept ds \<le> kept (diff_blocks a b) \<and> length (diff_blocks a b) \<le> length ds" unfolding * by linarith
  then show ?thesis by (simp add: differ.differ_entries differ.differ_olds differ.differ_news)
qed

lemma kept_le: "kept ds \<le> length ds"
  by (simp add: kept_def)

lemma kept_all: "kept ds = length ds \<longleftrightarrow> list_all (\<lambda>d. bdChange d = ChangeNone) ds"
proof (induction ds)
  case Nil
  show ?case by (simp add: kept_def)
next
  case (Cons d ds)
  have "kept (d # ds) = (if bdChange d = ChangeNone then Suc (kept ds) else kept ds)"
    by (simp add: kept_def)
  with Cons.IH kept_le [of ds] show ?case by auto
qed

lemma equal_no_change:
  assumes "list_all2 blocksEqual a b"
  shows "list_all (\<lambda>d. bdChange d = ChangeNone) (diff_blocks a b)"
proof (cases "diffTooLarge (length a) (length b)")
  case True
  have "list_all (\<lambda>d. bdChange d = ChangeNone) (map2 unchanged a b)"
    by (auto simp: list_all_iff)
  with True assms show ?thesis
    by (simp add: diff_blocks_def coarseBlockDiff_def list_all2_lengthD)
next
  case False
  let ?ds = "map2 unchanged a b"
  have "kept ?ds = length ?ds" unfolding kept_all by (auto simp: list_all_iff)
  moreover have "length ?ds = length a" "length a = length b"
    using list_all2_lengthD [OF assms] by simp_all
  moreover have "kept ?ds \<le> kept (exactBlockDiff a b)"
    using coarse_same [OF assms] by (intro exact_keeps_most) simp_all
  moreover have "kept (exactBlockDiff a b) \<le> length (exactBlockDiff a b)" by (simp add: kept_def)
  ultimately have "kept (exactBlockDiff a b) = length (exactBlockDiff a b)"
    using exact_differ.differ_length [of a b] by linarith
  with False show ?thesis unfolding kept_all by (simp add: diff_blocks_def)
qed

text \<open>
  a subflow is reported as changed exactly when its blocks differ: the verdict is
  \<open>ChangeNone\<close> if and only if the two versions have equal blocks at every position.
\<close>

theorem diff_subflow_verdict:
  "sdChange (diffSubflow old new) =
     (if list_all2 blocksEqual (forest_blocks (sfBlocks old)) (forest_blocks (sfBlocks new))
      then ChangeNone else ChangeModified)"
proof -
  let ?a = "forest_blocks (sfBlocks old)" and ?b = "forest_blocks (sfBlocks new)"
  have "list_ex (\<lambda>d. bdChange d \<noteq> ChangeNone) (diff_blocks ?a ?b) \<longleftrightarrow> \<not> list_all2 blocksEqual ?a ?b"
    using equal_no_change [of ?a ?b] differ.no_change_equal [of ?a ?b]
    by (auto simp: list_ex_iff list_all_iff)
  then show ?thesis by (simp add: diffSubflow_def Let_def flattenBlocks_forest)
qed

text \<open>Concrete blocks for the witnesses.\<close>

definition sample_block :: "string \<Rightarrow> Block" where
  "sample_block n = Block \<lparr>bID = [], bName = n, bType = BlockTypeAction, bRawType = ''WAIT'',
     bIndent = 0, bLineNumber = 1, bEndLineNumber = 0, bProperties = [], bVariables = [],
     bTokens = [], bParentID = [], bSubflowID = []\<rparr> []"

theorem lcs_matrix_optimal_witness:
  "lcs [sample_block ''a'', sample_block ''b''] [sample_block ''b''] ! 2 ! 1 = 1 \<and>
   (\<exists>ps. alignment [sample_block ''a'', sample_block ''b''] [sample_block ''b''] 2 1 ps \<and> length ps = 1)"
proof -
  have 1: "lcs [sample_block ''a'', sample_block ''b''] [sample_block ''b''] ! 2 ! 1 = 1"
    by code_simp
  with lcs_matrix_optimal [of 2 "[sample_block ''a'', sample_block ''b'']" 1 "[sample_block ''b'']"]
  show ?thesis by simp
qed

theorem exact_diff_minimal_witness:
  "kept [removed (sample_block ''a''), unchanged (sample_block ''b'') (sample_block ''b'')] = 1 \<and>
   1 \<le> kept (diff_blocks [sample_block ''a'', sample_block ''b''] [sample_block ''b''])"
proof -
  let ?ds = "[removed (sample_block ''a''), unchanged (sample_block ''b'') (sample_block ''b'')]"
  have k: "kept ?ds = 1" by code_simp
  have s: "\<not> diffTooLarge (length [sample_block ''a'', sample_block ''b'']) (length [sample_block ''b''])"
    by (simp add: diffTooLarge_def maxDiffBlocksPerSide_def maxDiffCells_def)
  have "list_all entry_ok ?ds" "olds ?ds = [sample_block ''a'', sample_block ''b'']"
    "news ?ds = [sample_block ''b'']"
    by code_simp+
  from exact_diff_minimal [OF s this] k show ?thesis by simp
qed

subsection \<open>Documents\<close>

lemma subflows_by_name_lookup:
  "map_of (subflows_by_name sfs) n = map_of (rev (map (\<lambda>sf. (sfName sf, sf)) sfs)) n"
  unfolding subflows_by_name_def
proof (induction sfs rule: rev_induct)
  case (snoc sf sfs)
  then show ?case by (simp add: update_conv')
qed simp

lemma subflows_by_name_None: "map_of (subflows_by_name sfs) n = None \<longleftrightarrow> n \<notin> sfName ` set sfs"
  by (simp add: subflows_by_name_lookup map_of_eq_None_iff image_image)

lemma subflows_by_name_distinct:
  assumes "distinct (map sfName sfs)" "sf \<in> set sfs"
  shows "map_of (subflows_by_name sfs) (sfName sf) = Some sf"
proof -
  let ?m = "rev (map (\<lambda>sf. (sfName sf, sf)) sfs)"
  have "map fst ?m = rev (map sfName sfs)" by (simp add: rev_map comp_def)
  then have "distinct (map fst ?m)" using assms(1) by (simp only: distinct_rev)
  moreover have "(sfName sf, sf) \<in> set ?m" using assms(2) by simp
  ultimately show ?thesis unfolding subflows_by_name_lookup by (rule map_of_is_SomeI)
qed

lemma wrap_sides:
  "olds (wrapBlocksAsDiff bs ChangeRemoved) = forest_blocks bs"
  "news (wrapBlocksAsDiff bs ChangeRemoved) = []"
  "olds (wrapBlocksAsDiff bs ChangeAdded) = []"
  "news (wrapBlocksAsDiff bs ChangeAdded) = forest_blocks bs"
proof -
  have "olds (wrapBlocksAsDiff bs c) = (if c = ChangeAdded then [] else forest_blocks bs)"
    "news (wrapBlocksAsDiff bs c) = (if c = ChangeAdded then forest_blocks bs else [])" for c
    by (induction bs c rule: wrapBlocksAsDiff.induct) (auto simp: forest_blocks_def)
  then show "olds (wrapBlocksAsDiff bs ChangeRemoved) = forest_blocks bs"
    "news (wrapBlocksAsDiff bs ChangeRemoved) = []" "olds (wrapBlocksAsDiff bs ChangeAdded) = []"
    "news (wrapBlocksAsDiff bs ChangeAdded) = forest_blocks bs" by simp_all
qed

lemma diffSubflow_sides:
  "olds (sdBlocks (diffSubflow old new)) = forest_blocks (sfBlocks old)"
  "news (sdBlocks (diffSubflow old new)) = forest_blocks (sfBlocks new)"
  by (simp_all add: diffSubflow_def Let_def flattenBlocks_forest differ.differ_olds differ.differ_news)

text \<open>
  C37: when subflow names are distinct on both sides, the diff of two documents accounts for every
  block of both: concatenating the new sides gives the new document's blocks in order, and
  every old subflow appears exactly once, with all its blocks on the old side.
\<close>

theorem diff_flows_accounts:
  assumes "distinct (map sfName (Subflows oldDoc))" "distinct (map sfName (Subflows newDoc))"
  shows "let sds = fdSubflows (DiffFlows oldDoc newDoc) in
    concat (map (news \<circ> sdBlocks) sds) = concat (map (forest_blocks \<circ> sfBlocks) (Subflows newDoc)) \<and>
    distinct (map sdName sds) \<and>
    set (map sdName sds) = set (map sfName (Subflows oldDoc)) \<union> set (map sfName (Subflows newDoc)) \<and>
    list_all (\<lambda>old. list_ex (\<lambda>sd. sdName sd = sfName old \<and> olds (sdBlocks sd) = forest_blocks (sfBlocks old)) sds)
      (Subflows oldDoc)"
proof -
  let ?ol = "subflows_by_name (Subflows oldDoc)" and ?nw = "subflows_by_name (Subflows newDoc)"
  let ?gone = "filter (\<lambda>oldSf. map_of ?nw (sfName oldSf) = None) (Subflows oldDoc)"
  define f where "f (newSf :: Subflow) = (case map_of ?ol (sfName newSf) of
      Some oldSf \<Rightarrow> diffSubflow oldSf newSf
    | None \<Rightarrow> \<lparr>sdName = sfName newSf, sdChange = ChangeAdded,
        sdBlocks = wrapBlocksAsDiff (sfBlocks newSf) ChangeAdded\<rparr>)" for newSf
  define g where "g (oldSf :: Subflow) = \<lparr>sdName = sfName oldSf, sdChange = ChangeRemoved,
      sdBlocks = wrapBlocksAsDiff (sfBlocks oldSf) ChangeRemoved\<rparr>" for oldSf
  let ?sds = "map f (Subflows newDoc) @ map g ?gone"
  have sds: "fdSubflows (DiffFlows oldDoc newDoc) = ?sds"
    by (simp add: DiffFlows_def Let_def f_def [abs_def] g_def [abs_def])
  have f: "sdName (f sf) = sfName sf" "news (sdBlocks (f sf)) = forest_blocks (sfBlocks sf)" for sf
    by (simp_all add: f_def diffSubflow_sides wrap_sides split: option.split) (simp add: diffSubflow_def Let_def)
  have g: "sdName (g sf) = sfName sf" "news (sdBlocks (g sf)) = []"
    "olds (sdBlocks (g sf)) = forest_blocks (sfBlocks sf)" for sf
    by (simp_all add: g_def wrap_sides)
  have names: "map sdName ?sds = map sfName (Subflows newDoc) @ map sfName ?gone"
    by (simp add: f g comp_def)
  have "distinct (map sdName ?sds)"
    unfolding names using assms
    by (auto simp: subflows_by_name_None distinct_map_filter) (metis imageI)
  moreover have "set (map sdName ?sds) =
      set (map sfName (Subflows oldDoc)) \<union> set (map sfName (Subflows newDoc))"
    unfolding names by (auto simp: subflows_by_name_None)
  moreover have "concat (map (news \<circ> sdBlocks) ?sds) =
      concat (map (forest_blocks \<circ> sfBlocks) (Subflows newDoc))"
    by (simp add: f g comp_def)
  moreover have "\<exists>sd\<in>set ?sds. sdName sd = sfName old \<and> olds (sdBlocks sd) = forest_blocks (sfBlocks old)"
    if old: "old \<in> set (Subflows oldDoc)" for old
  proof (cases "sfName old \<in> sfName ` set (Subflows newDoc)")
    case True
    then obtain new where new: "new \<in> set (Subflows newDoc)" "sfName new = sfName old" by auto
    then have "f new = diffSubflow old new"
      using subflows_by_name_distinct [OF assms(1) old] by (simp add: f_def)
    with new f(1) [of new] show ?thesis by (auto simp: diffSubflow_sides intro!: bexI [of _ "f new"])
  next
    case False
    with old have "old \<in> set ?gone" by (simp add: subflows_by_name_None)
    then show ?thesis using g by (auto intro!: bexI [of _ "g old"])
  qed
  ultimately show ?thesis unfolding Let_def sds by (simp add: list_all_iff list_ex_iff)
qed

definition sample_doc :: "Subflow list \<Rightarrow> FlowDocument" where
  "sample_doc sfs = \<lparr>docID = [], docName = [], StableID = [], FilePath = [], Subflows = sfs,
     ParseErrors = [], Metadata = \<lparr>BlockCount = 0, SubflowCount = 0, MaxDepth = 0, FileSize = 0,
     RawLineCount = 0\<rparr>, Files = [], IsFolder = False, BlocksByID = [], BlockSubflow = [],
     SubflowsByID = []\<rparr>"

definition sample_subflow :: "string \<Rightarrow> Block list \<Rightarrow> Subflow" where
  "sample_subflow n bs = \<lparr>sfID = n, sfName = n, sfSourceFile = [], sfBlocks = bs, sfVariables = []\<rparr>"

theorem diff_flows_accounts_witness:
  "let old = sample_doc [sample_subflow ''A'' [sample_block ''x'']];
       new = sample_doc [sample_subflow ''B'' [sample_block ''y'']] in
   set (map sdName (fdSubflows (DiffFlows old new))) = {''A'', ''B''}"
proof -
  let ?old = "sample_doc [sample_subflow ''A'' [sample_block ''x'']]"
  let ?new = "sample_doc [sample_subflow ''B'' [sample_block ''y'']]"
  have "distinct (map sfName (Subflows ?old))" "distinct (map sfName (Subflows ?new))"
    by code_simp+
  from diff_flows_accounts [OF this] show ?thesis
    unfolding Let_def by (simp add: sample_doc_def sample_subflow_def insert_commute)
qed

text \<open>
  a document compared with itself shows no change, whatever its size, when its subflow names
  are distinct.
\<close>

theorem diff_flows_self:
  assumes "distinct (map sfName (Subflows doc))"
  shows "map sdChange (fdSubflows (DiffFlows doc doc)) = map (\<lambda>_. ChangeNone) (Subflows doc)"
proof -
  have refl: "list_all2 blocksEqual bs bs" for bs
    using blocksEqual_equivp by (intro list_all2_refl) (simp add: equivp_reflp)
  have none: "sdChange (diffSubflow sf sf) = ChangeNone" for sf
    using equal_no_change [OF refl, of "forest_blocks (sfBlocks sf)"]
    by (auto simp: diffSubflow_def Let_def flattenBlocks_forest list_ex_iff list_all_iff)
  have "filter (\<lambda>sf. map_of (subflows_by_name (Subflows doc)) (sfName sf) = None) (Subflows doc) = []"
    by (auto simp: filter_empty_conv subflows_by_name_None)
  with none show ?thesis
    by (simp add: DiffFlows_def Let_def comp_def subflows_by_name_distinct [OF assms] cong: map_cong)
qed

theorem diff_flows_self_witness:
  "map sdChange (fdSubflows (DiffFlows (sample_doc [sample_subflow ''A'' [sample_block ''x'']])
     (sample_doc [sample_subflow ''A'' [sample_block ''x'']]))) = [ChangeNone]"
proof -
  have "distinct (map sfName (Subflows (sample_doc [sample_subflow ''A'' [sample_block ''x'']])))"
    by code_simp
  from diff_flows_self [OF this] show ?thesis by (simp add: sample_doc_def)
qed

text \<open>
  when a document has two subflows of the same name, only the last one is compared: the
  blocks of the first appear nowhere in the diff.
\<close>

theorem diff_flows_duplicate_names:
  "let old = sample_doc [sample_subflow ''A'' [sample_block ''x''], sample_subflow ''A'' [sample_block ''y'']];
       new = sample_doc [sample_subflow ''A'' [sample_block ''y'']] in
   map sdChange (fdSubflows (DiffFlows old new)) = [ChangeNone] \<and>
   \<not> list_ex (\<lambda>b. bName (binfo b) = ''x'') (concat (map (olds \<circ> sdBlocks) (fdSubflows (DiffFlows old new))))"
proof -
  have small: "\<not> diffTooLarge (Suc 0) (Suc 0)"
    by (simp add: diffTooLarge_def maxDiffBlocksPerSide_def maxDiffCells_def)
  have eq: "blocksEqual (sample_block ''y'') (sample_block ''y'')" by code_simp
  let ?a = "[sample_block ''y'']"
  have fl: "flattenBlocks ?a = ?a" by (simp add: sample_block_def)
  have "diff_blocks ?a ?a = [unchanged (sample_block ''y'') (sample_block ''y'')]"
    using small backtrack_same [of 1 1 ?a ?a "lcs ?a ?a"] eq
    by (simp add: diff_blocks_def exactBlockDiff_def)
  then show ?thesis
    by (simp add: DiffFlows_def Let_def sample_doc_def sample_subflow_def subflows_by_name_def
        diffSubflow_def fl) (simp add: sample_block_def)
qed

end
