(* ===== verification/Serializer.thy ===== *)
theory Serializer
  imports Extractors "HOL-Library.List_Lexorder" "HOL-Library.Char_ord"
begin

text \<open>
  core/parser/serialize.go: canonical PAD text for a document. A \<open>strings.Builder\<close> that is
  only appended to is the string returned. \<open>sort.Strings\<close> orders by bytes, which is the
  lexicographic order on lists of characters. The facts show that a quoted property value
  survives the parser's value scanner, and where it does not.
\<close>

section \<open>Lines and values\<close>

definition padIndentUnit :: string where
  "padIndentUnit = ''    ''"

definition writeLine :: "string \<Rightarrow> string \<Rightarrow> string" where
  "writeLine ind line = ind @ line @ [nl]"

definition sanitizeRegionName :: "string \<Rightarrow> string" where
  "sanitizeRegionName name =
     TrimSpace (ReplaceByte (ReplaceByte (ReplaceByte name cr sp) nl sp) dquote quote)"

definition QuoteValue :: "string \<Rightarrow> string" where
  "QuoteValue v =
     (if v = [] then triple @ triple
      else if Contains v triple then v
      else if \<not> ContainsAny v [sp, tab, cr, nl, quote, dquote] then v
      else CHR ''$'' # triple @ v @ triple)"

definition public_keys :: "properties \<Rightarrow> string list" where
  "public_keys ps = sort (filter (\<lambda>k. \<not> HasPrefix k ''_'') (remdups (map fst ps)))"

definition serializePropsSuffix :: "block_info \<Rightarrow> string" where
  "serializePropsSuffix b =
     concat (map (\<lambda>k. [sp] @ k @ '': '' @ QuoteValue (getprop (bProperties b) k))
       (public_keys (bProperties b)))"

definition serializeGenericAction :: "block_info \<Rightarrow> string" where
  "serializeGenericAction b =
     bRawType b @ serializePropsSuffix b
     @ (let out = getprop (bProperties b) ''_output'' in if out \<noteq> [] then '' => '' @ out else [])"

definition endsWithThenSuffix :: "block_info \<Rightarrow> bool" where
  "endsWithThenSuffix b \<longleftrightarrow>
     list_ex (\<lambda>k. HasSuffix (getprop (bProperties b) k) '' THEN'') (map fst (bProperties b))"

definition retry_line :: "properties \<Rightarrow> string" where
  "retry_line ps =
     ''ON ERROR REPEAT '' @ getprop ps ''_retryCount'' @ '' TIMES WAIT '' @ getprop ps ''_retryWait''
     @ (let v = getprop ps ''_retryType'' in if v \<noteq> [] then '' RetryType: '' @ v else [])
     @ (let v = getprop ps ''_retryMinInterval'' in if v \<noteq> [] then '' MinInterval: '' @ v else [])
     @ (let v = getprop ps ''_retryMaxInterval'' in if v \<noteq> [] then '' MaxInterval: '' @ v else [])"

definition emitLeafLine :: "string \<Rightarrow> string \<Rightarrow> block_info \<Rightarrow> string" where
  "emitLeafLine ind line b =
     writeLine ind line
     @ (if getprop (bProperties b) ''_retryCount'' = [] then []
        else writeLine ind (retry_line (bProperties b)))"

section \<open>Kinds of blocks\<close>

definition isKeywordCall :: "string \<Rightarrow> bool" where
  "isKeywordCall raw \<longleftrightarrow> raw = ''CALL'' \<or> raw = ''DISABLED_CALL''"

definition isFlowKeywordAction :: "string \<Rightarrow> bool" where
  "isFlowKeywordAction raw \<longleftrightarrow>
     raw \<in> set [''GOTO'', ''LABEL'', ''EXIT'', ''EXIT_LOOP'', ''NEXT_LOOP'', ''ERROR_CAPTURE'']"

definition isKeywordControl :: "BlockType \<Rightarrow> string \<Rightarrow> bool" where
  "isKeywordControl t raw \<longleftrightarrow>
     t \<in> {BlockTypeCondition, BlockTypeLoop, BlockTypeSwitch, BlockTypeWait, BlockTypeBlock} \<and>
     \<not> Contains raw ''.''"

definition isContainerType :: "BlockType \<Rightarrow> bool" where
  "isContainerType t \<longleftrightarrow>
     t \<in> {BlockTypeCondition, BlockTypeLoop, BlockTypeSwitch, BlockTypeBlock}"

definition is_marker :: "Block \<Rightarrow> bool" where
  "is_marker c \<longleftrightarrow> bRawType (binfo c) = ''OnBlockError'' \<and> bType (binfo c) \<noteq> BlockTypeErrorHandler"

fun indexOfOnBlockErrorChild :: "Block list \<Rightarrow> nat option" where
  "indexOfOnBlockErrorChild [] = None"
| "indexOfOnBlockErrorChild (c # cs) =
     (if is_marker c then Some 0 else map_option Suc (indexOfOnBlockErrorChild cs))"

definition comment_lines :: "string \<Rightarrow> string \<Rightarrow> string" where
  "comment_lines ind name =
     (if HasPrefix name ''/#'' \<and> HasSuffix name ''#/'' then writeLine ind name
      else if Contains name [nl]
        then concat (map (\<lambda>ln. writeLine ind (''COMMENT  '' @ ln)) (SplitByte name nl))
      else writeLine ind (''COMMENT  '' @ name))"

definition call_line :: "block_info \<Rightarrow> string" where
  "call_line b =
     (let target = TrimSpace (TrimSuffix (TrimPrefix (bName b) ''Call '') '' (disabled)'')
      in if bRawType b = ''DISABLED_CALL'' then ''DISABLE CALL '' @ target else ''CALL '' @ target)"

definition error_capture_line :: "block_info \<Rightarrow> string" where
  "error_capture_line b =
     (let out0 = getprop (bProperties b) ''_output'';
          out = (if out0 = [] then
                   (case Index (bName b) ''=>'' of
                      Some i \<Rightarrow> TrimSpace (drop (i + 2) (bName b))
                    | None \<Rightarrow> out0)
                 else out0)
      in ''ERROR'' @ (if out \<noteq> [] then '' => '' @ out else []) @ serializePropsSuffix b)"

definition flow_keyword_line :: "block_info \<Rightarrow> string" where
  "flow_keyword_line b =
     (let raw = bRawType b in
      if raw = ''EXIT_LOOP'' then ''EXIT LOOP''
      else if raw = ''NEXT_LOOP'' then ''NEXT LOOP''
      else if raw = ''GOTO'' \<or> raw = ''LABEL'' then raw @ [sp] @ bName b
      else if raw = ''EXIT'' then (if bName b \<noteq> [] then bName b else ''EXIT'')
      else raw)"

definition control_line :: "block_info \<Rightarrow> string" where
  "control_line b =
     (if bName b = [] then bRawType b else bName b) @ (if endsWithThenSuffix b then '' THEN'' else [])"

definition else_line :: "block_info \<Rightarrow> string" where
  "else_line b =
     (if EqualFold (bRawType b) ''ELSE IF'' \<and> bName b \<noteq> []
      then bName b @ (if endsWithThenSuffix b then '' THEN'' else [])
      else ''ELSE'')"

section \<open>Trees\<close>

primrec nodes :: "Block \<Rightarrow> nat" where
  "nodes (Block b cs) = Suc (sum_list (map nodes cs))"

lemma nodes_pos [simp]: "0 < nodes b"
  by (cases b) simp

lemma sum_list_map_append_le:
  fixes f :: "'a \<Rightarrow> nat"
  shows "xs = ys @ zs \<Longrightarrow> sum_list (map f ys) \<le> sum_list (map f xs)"
    and "xs = ys @ zs \<Longrightarrow> sum_list (map f zs) \<le> sum_list (map f xs)"
  by simp_all

lemma nodes_parts [termination_simp]:
  "sum_list (map nodes (take n cs)) \<le> sum_list (map nodes cs)"
  "sum_list (map nodes (drop n cs)) \<le> sum_list (map nodes cs)"
  "sum_list (map nodes (takeWhile P cs)) \<le> sum_list (map nodes cs)"
  "sum_list (map nodes (dropWhile P cs)) \<le> sum_list (map nodes cs)"
  "sum_list (map nodes (tl cs)) \<le> sum_list (map nodes cs)"
proof -
  show "sum_list (map nodes (take n cs)) \<le> sum_list (map nodes cs)"
    by (rule sum_list_map_append_le(1) [where zs = "drop n cs"]) simp
  show "sum_list (map nodes (drop n cs)) \<le> sum_list (map nodes cs)"
    by (rule sum_list_map_append_le(2) [where ys = "take n cs"]) simp
  show "sum_list (map nodes (takeWhile P cs)) \<le> sum_list (map nodes cs)"
    by (rule sum_list_map_append_le(1) [where zs = "dropWhile P cs"]) simp
  show "sum_list (map nodes (dropWhile P cs)) \<le> sum_list (map nodes cs)"
    by (rule sum_list_map_append_le(2) [where ys = "takeWhile P cs"]) simp
  show "sum_list (map nodes (tl cs)) \<le> sum_list (map nodes cs)"
    by (cases cs) simp_all
qed

abbreviation is_end :: "Block \<Rightarrow> bool" where
  "is_end c \<equiv> bType (binfo c) = BlockTypeEnd"

function serializeChildList :: "string \<Rightarrow> Block list \<Rightarrow> string"
  and serializeBlock :: "string \<Rightarrow> Block \<Rightarrow> string" where
  "serializeChildList ind [] = []"
| "serializeChildList ind (Block b cs # bs) =
     (let childInd = ind @ padIndentUnit in
      (case bType b of
         BlockTypeEnd \<Rightarrow> []
       | BlockTypeElse \<Rightarrow> writeLine ind (else_line b) @ serializeChildList childInd cs
       | BlockTypeDefault \<Rightarrow> writeLine ind ''DEFAULT'' @ serializeChildList childInd cs
       | BlockTypeCase \<Rightarrow>
           writeLine ind (if bName b = [] then ''CASE'' else bName b) @ serializeChildList childInd cs
       | _ \<Rightarrow> serializeBlock childInd (Block b cs))
      @ serializeChildList ind bs)"
| "serializeBlock ind (Block b cs) =
     (let childInd = ind @ padIndentUnit in
      if bType b = BlockTypeEnd then []
      else if bType b = BlockTypeComment then
        comment_lines ind (bName b) @ serializeChildList childInd cs
      else if bType b = BlockTypeErrorHandler then
        (case indexOfOnBlockErrorChild cs of
           Some artifact \<Rightarrow>
             (let rest = drop (artifact + 1) cs;
                  handler = takeWhile (\<lambda>c. \<not> is_end c) rest;
                  after = dropWhile (\<lambda>c. \<not> is_end c) rest
              in writeLine ind (''BLOCK '' @ sanitizeRegionName (bName b))
                 @ serializeChildList childInd (take artifact cs)
                 @ writeLine ind ''ON BLOCK ERROR''
                 @ serializeChildList childInd handler
                 @ writeLine ind ''END''
                 @ (if after \<noteq> [] then serializeChildList childInd (tl after) else [])
                 @ writeLine ind ''END'')
         | None \<Rightarrow>
             writeLine ind ''ON BLOCK ERROR'' @ serializeChildList childInd cs @ writeLine ind ''END'')
      else if bType b = BlockTypeSubflow \<and> isKeywordCall (bRawType b) then
        emitLeafLine ind (call_line b) b @ serializeChildList childInd cs
      else if bType b = BlockTypeVariable \<and> bRawType b = ''SET'' then
        emitLeafLine ind (''SET '' @ getprop (bProperties b) ''_var'' @ '' TO ''
          @ getprop (bProperties b) ''_value'') b @ serializeChildList childInd cs
      else if bRawType b = ''ERROR_CAPTURE'' then
        emitLeafLine ind (error_capture_line b) b @ serializeChildList childInd cs
      else if isFlowKeywordAction (bRawType b) then
        emitLeafLine ind (flow_keyword_line b) b @ serializeChildList childInd cs
      else if bRawType b = ''REGION'' then
        writeLine ind (''**REGION '' @ bName b) @ serializeChildList childInd cs
        @ writeLine ind ''**ENDREGION''
      else if isKeywordControl (bType b) (bRawType b) then
        emitLeafLine ind (control_line b) b @ serializeChildList childInd cs
        @ (if bType b \<noteq> BlockTypeWait then writeLine ind ''END'' else [])
      else
        emitLeafLine ind (serializeGenericAction b) b @ serializeChildList childInd cs
        @ (if isContainerType (bType b) then writeLine ind ''END'' else []))"
  by pat_completeness auto
termination
  by (relation "measure (case_sum (\<lambda>(_, cs). 2 * sum_list (map nodes cs) + 1) (\<lambda>(_, b). 2 * nodes b))")
    (auto simp: less_Suc_eq_le intro: order.trans [OF nodes_parts(3)] order.trans [OF nodes_parts(5)]
      order.trans [OF nodes_parts(4)] nodes_parts)

definition SerializeSubflow :: "Subflow \<Rightarrow> string" where
  "SerializeSubflow sf =
     writeLine [] (''#Region '' @ [dquote] @ sanitizeRegionName (sfName sf) @ [dquote])
     @ serializeChildList padIndentUnit (sfBlocks sf)
     @ writeLine [] ''#EndRegion''"

definition SerializeDocument :: "FlowDocument \<Rightarrow> string" where
  "SerializeDocument doc = Join (map SerializeSubflow (Subflows doc)) [nl]"

definition add_to_file :: "(string \<times> string) list \<Rightarrow> Subflow \<Rightarrow> (string \<times> string) list" where
  "add_to_file files sf =
     (let name = (if sfSourceFile sf = [] then ''Main.txt'' else sfSourceFile sf) in
      case map_of files name of
        None \<Rightarrow> AList.update name (SerializeSubflow sf) files
      | Some old \<Rightarrow> AList.update name (old @ [nl] @ SerializeSubflow sf) files)"

definition SerializeFiles :: "FlowDocument \<Rightarrow> (string \<times> string) list" where
  "SerializeFiles doc =
     (if Subflows doc = [] then [(''Main.txt'', [])] else foldl add_to_file [] (Subflows doc))"

section \<open>Values survive the scanner\<close>

text \<open>What follows a value on a line: nothing, or a blank and the next key.\<close>

definition value_ends :: "string \<Rightarrow> bool" where
  "value_ends rest \<longleftrightarrow> rest = [] \<or>
     (\<exists>k r. rest = sp # k @ CHR '':'' # r \<and> k \<noteq> [] \<and> list_all isKeyChar k \<and>
        (r = [] \<or> hd r = sp \<or> hd r = tab))"

lemma not_key_chars [simp]:
  "\<not> isKeyChar sp" "\<not> isKeyChar quote" "\<not> isKeyChar (CHR ''$'')" "\<not> isKeyChar (CHR '':'')"
  "\<not> isKeyChar dquote" "\<not> isKeyChar tab"
  by (simp_all add: isKeyChar_def char_class_simps)

lemma key_boundary_Cons: "key_boundary (d # s) = (d = CHR '':'' \<and> (s = [] \<or> hd s = sp \<or> hd s = tab))"
  by simp

text \<open>The scanner stops after the blank that precedes the next key.\<close>

lemma scan_value_ends: "value_ends rest \<Longrightarrow> scan_value rest \<le> 1 \<and> take (scan_value rest) rest = take (scan_value rest) [sp]"
proof -
  assume "value_ends rest"
  then consider "rest = []" | k r where "rest = sp # k @ CHR '':'' # r" "k \<noteq> []" "list_all isKeyChar k"
      "r = [] \<or> hd r = sp \<or> hd r = tab"
    unfolding value_ends_def by blast
  then show ?thesis
  proof cases
    case 2
    then obtain c k' where k: "k = c # k'" "isKeyChar c" "list_all isKeyChar k'" by (cases k) auto
    have c: "c \<noteq> CHR ''$''" "c \<noteq> quote" using k(2) by auto
    have "dropWhile isKeyChar (k' @ CHR '':'' # r) = CHR '':'' # r"
      using k(3) by (subst dropWhile_append2) (auto simp: list_all_iff)
    then have "scan_value (k @ CHR '':'' # r) = 0"
      using k c 2 by simp
    with 2(1) show ?thesis by simp
  qed simp
qed

text \<open>A bare value: no blank and no quote, and not ending like a key.\<close>

definition looks_like_key :: "string \<Rightarrow> bool" where
  "looks_like_key v \<longleftrightarrow> (\<exists>w c. v = w @ [c, CHR '':''] \<and> isKeyChar c)"

lemma looks_like_key_suffix: "looks_like_key v \<Longrightarrow> looks_like_key (u @ v)"
  unfolding looks_like_key_def by (metis append.assoc)

lemma takeWhile_key_run:
  assumes "value_ends rest"
  shows "takeWhile isKeyChar (s @ rest) = takeWhile isKeyChar s"
    and "dropWhile isKeyChar (s @ rest) = dropWhile isKeyChar s @ rest"
proof -
  have r: "takeWhile isKeyChar rest = []" "dropWhile isKeyChar rest = rest"
    using assms by (auto simp: value_ends_def)
  show "takeWhile isKeyChar (s @ rest) = takeWhile isKeyChar s"
    "dropWhile isKeyChar (s @ rest) = dropWhile isKeyChar s @ rest"
    by (induction s) (simp_all add: r)
qed

lemma scan_bare:
  assumes "value_ends rest"
  shows "\<not> ContainsAny v [sp, tab, cr, nl, quote, dquote] \<Longrightarrow> \<not> looks_like_key v \<Longrightarrow>
    scan_value (v @ rest) = length v + scan_value rest"
proof (induction "length v" arbitrary: v rule: less_induct)
  case less
  show ?case
  proof (cases v)
    case (Cons c s)
    have q: "quote \<notin> set v" "sp \<notin> set v" "tab \<notin> set v"
      using less.prems(1) by (auto simp: ContainsAny_def list_ex_iff)
    have sub: "\<not> ContainsAny u [sp, tab, cr, nl, quote, dquote]" "\<not> looks_like_key u"
      if "v = w @ u" for u w
      using less.prems looks_like_key_suffix [of u w] that by (auto simp: ContainsAny_def list_ex_iff)
    have hd_rest: "rest = [] \<or> hd rest = sp" using assms by (auto simp: value_ends_def)
    have pre: "\<not> HasPrefix (s @ rest) triple"
      using q hd_rest Cons unfolding triple_def by (cases s; cases rest) auto
    show ?thesis
    proof (cases "isKeyChar c")
      case False
      have "scan_value (s @ rest) = length s + scan_value rest"
        using Cons sub [of "[c]" s] by (intro less.hyps) simp_all
      with False Cons pre q show ?thesis by auto
    next
      case True
      let ?d = "dropWhile isKeyChar s"
      have v: "v = (c # takeWhile isKeyChar s) @ ?d" using Cons by simp
      have nb: "\<not> key_boundary (?d @ rest)"
      proof
        assume kb: "key_boundary (?d @ rest)"
        then obtain d where d: "?d = CHR '':'' # d" "d @ rest = [] \<or> hd (d @ rest) = sp \<or> hd (d @ rest) = tab"
          using hd_rest assms by (cases ?d; cases rest) auto
        moreover have "sp \<notin> set d" "tab \<notin> set d" using q v d(1) by (metis Un_iff list.set_intros(2) set_append)+
        ultimately have "d = []" by (cases d) auto
        with d v have "v = (butlast (c # takeWhile isKeyChar s)) @ [last (c # takeWhile isKeyChar s), CHR '':'']"
          by (metis append.assoc append_Cons append_Nil append_butlast_last_id list.discI)
        moreover have "isKeyChar (last (c # takeWhile isKeyChar s))"
          using True by (metis last_in_set list.discI set_ConsD set_takeWhileD)
        ultimately show False using less.prems(2) unfolding looks_like_key_def by blast
      qed
      have "length ?d < length v" using Cons by (simp add: le_imp_less_Suc length_dropWhile_le)
      then have "scan_value (?d @ rest) = length ?d + scan_value rest"
        using sub [OF v] by (intro less.hyps) simp_all
      moreover have "c \<noteq> CHR ''$''" "c \<noteq> quote" using True by auto
      moreover have "length s = length (takeWhile isKeyChar s) + length ?d"
        by (metis length_append takeWhile_dropWhile_id)
      ultimately show ?thesis
        using Cons True nb by (simp add: takeWhile_key_run [OF assms])
    qed
  qed simp
qed

subsection \<open>Trimming\<close>

lemma strip_words_keep:
  "\<not> list_ex (\<lambda>w. w \<noteq> [] \<and> HasPrefix s w) words \<Longrightarrow> strip_words words s = s"
proof -
  assume "\<not> list_ex (\<lambda>w. w \<noteq> [] \<and> HasPrefix s w) words"
  then have "find (\<lambda>w. w \<noteq> [] \<and> HasPrefix s w) words = None" by (auto simp: find_None_iff list_ex_iff)
  then show ?thesis by (subst strip_words.simps) simp
qed

lemma strip_words_shorter:
  "list_ex (\<lambda>w. w \<noteq> [] \<and> HasPrefix s w) words \<Longrightarrow> length (strip_words words s) < length s"
  "length (strip_words words s) \<le> length s"
proof -
  have le: "length (strip_words words s) \<le> length s" for s
  proof (induction words s rule: strip_words.induct)
    case (1 words s)
    then show ?case
      by (subst strip_words.simps) (auto split: option.split intro: order.trans)
  qed
  show "length (strip_words words s) \<le> length s" by (rule le)
  assume "list_ex (\<lambda>w. w \<noteq> [] \<and> HasPrefix s w) words"
  then have "find (\<lambda>w. w \<noteq> [] \<and> HasPrefix s w) words \<noteq> None" by (auto simp: find_None_iff list_ex_iff)
  then obtain w where w: "find (\<lambda>w. w \<noteq> [] \<and> HasPrefix s w) words = Some w" by auto
  then have "w \<noteq> []" "HasPrefix s w" by (auto simp: find_Some_iff)
  then have "length (drop (length w) s) < length s"
    using HasPrefix_length by (cases w; cases s) auto
  with w le [of "drop (length w) s"] show "length (strip_words words s) < length s"
    by (subst strip_words.simps) simp
qed

lemma TrimSpace_fixed:
  assumes "TrimSpace q = q"
  shows "\<not> list_ex (\<lambda>w. w \<noteq> [] \<and> HasPrefix q w) space_runes"
    and "\<not> list_ex (\<lambda>w. w \<noteq> [] \<and> HasPrefix (rev q) w) (map rev space_runes)"
proof -
  have len: "length (TrimSpace q) \<le> length (TrimSpaceLeft q)"
    using strip_words_shorter(2) [of "map rev space_runes" "rev (TrimSpaceLeft q)"]
    by (simp add: TrimSpace_def TrimSpaceRight_def)
  show *: "\<not> list_ex (\<lambda>w. w \<noteq> [] \<and> HasPrefix q w) space_runes"
    using strip_words_shorter(1) [of q space_runes] len assms by (auto simp: TrimSpaceLeft_def)
  then have "TrimSpaceLeft q = q" by (simp add: TrimSpaceLeft_def strip_words_keep)
  with assms have "TrimSpaceRight q = q" by (simp add: TrimSpace_def)
  then have "strip_words (map rev space_runes) (rev q) = rev q"
    by (simp add: TrimSpaceRight_def rev_swap)
  then show "\<not> list_ex (\<lambda>w. w \<noteq> [] \<and> HasPrefix (rev q) w) (map rev space_runes)"
    using strip_words_shorter(1) [of "rev q" "map rev space_runes"] by auto
qed

lemma space_runes_sp: "list_all (\<lambda>w. sp \<in> set w \<longrightarrow> w = [sp]) space_runes"
  by (simp add: space_runes_def)

lemma TrimSpaceLeft_sp: "TrimSpaceLeft (sp # x) = TrimSpaceLeft x"
  unfolding TrimSpaceLeft_def by (subst strip_words.simps) (simp add: space_runes_def)

lemma TrimSpaceRight_sp: "TrimSpaceRight (x @ [sp]) = TrimSpaceRight x"
  unfolding TrimSpaceRight_def by (subst strip_words.simps) (simp add: space_runes_def)

lemma TrimSpace_padded:
  assumes "TrimSpace q = q" "q \<noteq> []"
  shows "TrimSpace (sp # q) = q" and "TrimSpace (sp # q @ [sp]) = q"
proof -
  note fx = TrimSpace_fixed [OF assms(1)]
  have right: "TrimSpaceRight q = q" "TrimSpaceLeft q = q"
    using fx by (simp_all add: TrimSpaceRight_def TrimSpaceLeft_def strip_words_keep)
  then show "TrimSpace (sp # q) = q" by (simp add: TrimSpace_def TrimSpaceLeft_sp)
  have "\<not> list_ex (\<lambda>w. w \<noteq> [] \<and> HasPrefix (q @ [sp]) w) space_runes"
  proof
    assume "list_ex (\<lambda>w. w \<noteq> [] \<and> HasPrefix (q @ [sp]) w) space_runes"
    then obtain w where w: "w \<in> set space_runes" "w \<noteq> []" "prefix w (q @ [sp])"
      by (auto simp: list_ex_iff HasPrefix_iff_prefix)
    from w(3) have "w = q @ [sp] \<or> prefix w q" by (simp only: prefix_snoc)
    moreover have "\<not> prefix w q"
      using fx(1) w(1,2) unfolding list_ex_iff HasPrefix_iff_prefix by blast
    ultimately have weq: "w = q @ [sp]" by blast
    then have "sp \<in> set w" by simp
    with space_runes_sp w(1) have "w = [sp]" unfolding list_all_iff by blast
    with weq assms(2) show False by simp
  qed
  then have "TrimSpaceLeft (q @ [sp]) = q @ [sp]" by (simp add: TrimSpaceLeft_def strip_words_keep)
  then show "TrimSpace (sp # q @ [sp]) = q"
    using right by (simp add: TrimSpace_def TrimSpaceLeft_sp TrimSpaceRight_sp)
qed

lemma TrimSpace_literal: "TrimSpace (CHR ''$'' # x @ [quote]) = CHR ''$'' # x @ [quote]"
  "TrimSpace (quote # x @ [quote]) = quote # x @ [quote]"
  by (simp_all add: TrimSpace_def TrimSpaceLeft_def TrimSpaceRight_def strip_words_keep space_runes_def)

subsection \<open>Quoted values\<close>

lemma Contains_iff: "Contains s p \<longleftrightarrow> (\<exists>u z. s = u @ p @ z)"
proof
  show "Contains s p \<Longrightarrow> \<exists>u z. s = u @ p @ z"
  proof (induction s)
    case Nil
    then show ?case by (simp add: Contains_def split: if_splits)
  next
    case (Cons c s)
    show ?case
    proof (cases "HasPrefix (c # s) p")
      case True
      then show ?thesis by (metis HasPrefix_iff_prefix append_Nil prefix_def)
    next
      case False
      with Cons show ?thesis by (auto simp: Contains_def) (metis append_Cons)
    qed
  qed
next
  assume "\<exists>u z. s = u @ p @ z"
  then obtain u z where "s = u @ p @ z" by blast
  then show "Contains s p"
  proof (induction u arbitrary: s)
    case Nil
    then have "HasPrefix s p" by simp
    then show ?case by (cases s) (auto simp: Contains_def HasPrefix_def)
  next
    case (Cons c u)
    then show ?case by (auto simp: Contains_def)
  qed
qed

lemma trailing_quotes:
  assumes "\<not> Contains v triple"
  obtains w t where "v = w @ replicate t quote" "w = [] \<or> last w \<noteq> quote" "t \<le> 2"
    "\<not> Contains w triple"
proof -
  let ?r = "rev v"
  let ?t = "length (takeWhile (\<lambda>c. c = quote) ?r)" and ?w = "rev (dropWhile (\<lambda>c. c = quote) ?r)"
  have tw: "takeWhile (\<lambda>c. c = quote) ?r = replicate ?t quote"
    by (rule nth_equalityI) (auto dest: nth_mem set_takeWhileD)
  have v: "v = ?w @ replicate ?t quote"
    by (metis (no_types, lifting) rev_append rev_replicate rev_rev_ident takeWhile_dropWhile_id tw)
  have w: "?w = [] \<or> last ?w \<noteq> quote"
    by (metis (mono_tags, lifting) hd_dropWhile last_rev rev.simps(1))
  have "?t \<le> 2"
  proof (rule ccontr)
    assume "\<not> ?t \<le> 2"
    then have "replicate ?t quote = triple @ replicate (?t - 3) quote"
      by (simp add: triple_def numeral_3_eq_3 replicate_app_Cons_same flip: replicate_Suc)
    with v have "v = ?w @ triple @ replicate (?t - 3) quote" by simp
    with assms show False unfolding Contains_iff by blast
  qed
  moreover have "\<not> Contains ?w triple"
    using assms v unfolding Contains_iff by (metis append.assoc)
  ultimately show ?thesis using that v w by blast
qed

lemma triple_end_found:
  "w = [] \<or> last w \<noteq> quote \<Longrightarrow> \<not> Contains w triple \<Longrightarrow>
     findTripleQuoteEnd (w @ triple @ z) = Some (length w + 3)"
proof (induction w)
  case Nil
  show ?case by (simp add: triple_def)
next
  case (Cons c w)
  have "\<not> HasPrefix (c # w @ triple @ z) triple"
  proof
    assume pre: "HasPrefix (c # w @ triple @ z) triple"
    then have c: "c = quote" by (simp add: triple_def)
    with Cons.prems(1) obtain d w' where w: "w = d # w'" by (cases w) auto
    with pre have d: "d = quote" by (simp add: triple_def)
    with Cons.prems(1) w obtain e w'' where w': "w' = e # w''" by (cases w') auto
    with pre w have "e = quote" by (simp add: triple_def)
    then have "c # w = [] @ triple @ w''" using c d w w' by (simp add: triple_def)
    with Cons.prems(2) show False unfolding Contains_iff by blast
  qed
  moreover have "\<not> Contains w triple"
    using Cons.prems(2) unfolding Contains_iff by (metis append_Cons)
  moreover have "w = [] \<or> last w \<noteq> quote" using Cons.prems(1) by (auto split: if_splits)
  ultimately show ?case using Cons.IH by simp
qed

lemma scan_few_quotes:
  assumes "value_ends rest" "t \<le> 2"
  shows "scan_value (replicate t quote @ rest) = t + scan_value rest"
proof -
  have r: "\<not> HasPrefix rest [quote]" "\<not> HasPrefix rest [quote, quote]"
    using assms(1) by (auto simp: value_ends_def)
  from assms(2) consider "t = 0" | "t = 1" | "t = 2" by linarith
  then show ?thesis using r by cases (simp_all add: numeral_2_eq_2)
qed

lemma scan_quoted:
  assumes "value_ends rest" "\<not> Contains v triple"
  shows "scan_value (CHR ''$'' # triple @ v @ triple @ rest) = length v + 7 + scan_value rest"
proof -
  from assms(2) obtain w t where v: "v = w @ replicate t quote" and w: "w = [] \<or> last w \<noteq> quote"
    and t: "t \<le> 2" and nt: "\<not> Contains w triple" by (rule trailing_quotes)
  have "replicate t quote @ triple = triple @ replicate t quote"
    by (simp add: triple_def replicate_app_Cons_same)
  then have eq: "v @ triple @ rest = w @ triple @ (replicate t quote @ rest)" using v by simp
  have e: "findTripleQuoteEnd (v @ triple @ rest) = Some (length w + 3)"
    unfolding eq using w nt by (rule triple_end_found)
  have d: "drop (length w + 3) (v @ triple @ rest) = replicate t quote @ rest"
    unfolding eq by (simp add: triple_def)
  have drop3: "drop (3 + n) (triple @ x) = drop n x" "drop 3 (triple @ x) = x" for n and x :: string
    by (simp_all add: triple_def numeral_3_eq_3)
  have "scan_value (CHR ''$'' # triple @ v @ triple @ rest) =
      4 + (length w + 3) + scan_value (drop (length w + 3) (v @ triple @ rest))"
    unfolding scan_value.simps(2) drop3 e by (simp only: drop3 HasPrefix_append option.case) simp
  then have "scan_value (CHR ''$'' # triple @ v @ triple @ rest) = 4 + (length w + 3) + (t + scan_value rest)"
    unfolding d scan_few_quotes [OF assms(1) t] .
  moreover have "length v = length w + t" by (simp add: v)
  ultimately show ?thesis by linarith
qed

lemma scan_empty:
  assumes "value_ends rest"
  shows "scan_value (triple @ triple @ rest) = 6 + scan_value rest"
  by (simp add: triple_def numeral_3_eq_3)

text \<open>The parsed value: the text up to the end of the value, trimmed and unquoted.\<close>

definition scanned_value :: "string \<Rightarrow> string" where
  "scanned_value s = stripQuotes (TrimSpace (take (findValueEnd s) s))"

lemma scanned_value_eq:
  assumes rest: "value_ends rest" and q: "q \<noteq> []" "hd q \<noteq> sp" "hd q \<noteq> tab" "TrimSpace q = q"
    and scan: "scan_value (q @ rest) = length q + scan_value rest"
  shows "scanned_value (sp # q @ rest) = stripQuotes q"
proof -
  from q obtain c s where cs: "q = c # s" by (cases q) auto
  have "findValueEnd (sp # q @ rest) = Suc (length q + scan_value rest)"
    using q scan by (simp add: findValueEnd_def cs)
  then have tk: "take (findValueEnd (sp # q @ rest)) (sp # q @ rest) = sp # q @ take (scan_value rest) rest"
    by simp
  have "take (scan_value rest) rest = [] \<or> take (scan_value rest) rest = [sp]"
    using scan_value_ends [OF rest] by (cases "scan_value rest") auto
  with TrimSpace_padded [OF q(4,1)] show ?thesis
    unfolding scanned_value_def tk by auto
qed

lemma stripQuotes_literal: "stripQuotes (CHR ''$'' # triple @ v @ triple) = v"
proof -
  let ?s = "CHR ''$'' # triple @ v @ triple"
  have pre: "HasPrefix ?s (CHR ''$'' # triple)" by simp
  have suf: "HasSuffix ?s triple" using HasSuffix_append [of "CHR ''$'' # triple @ v" triple] by simp
  have len: "length ?s = length v + 7" by (simp add: triple_def)
  have "slice ?s 4 (length ?s - 3) = v"
    unfolding slice_def len by (simp add: triple_def numeral_eq_Suc)
  with pre suf len show ?thesis unfolding stripQuotes_def by simp
qed

lemma stripQuotes_bare:
  "quote \<notin> set v \<Longrightarrow> dquote \<notin> set v \<Longrightarrow> stripQuotes v = v"
proof -
  assume q: "quote \<notin> set v" "dquote \<notin> set v"
  have "\<not> HasPrefix v (CHR ''$'' # triple)" "\<not> HasPrefix v triple"
    using q(1) set_mono_prefix [of "CHR ''$'' # triple" v] set_mono_prefix [of triple v]
    by (auto simp: HasPrefix_iff_prefix triple_def)
  moreover have "hd v \<noteq> quote" "hd v \<noteq> dquote" if "2 \<le> length v"
    using q that hd_in_set [of v] by (cases v; force)+
  ultimately show ?thesis unfolding stripQuotes_def by auto
qed

text \<open>
  C39: quoting round trip: a property value that embeds no triple quote, written with
  \<open>QuoteValue\<close> after its key and followed by the end of the line or by the next key, is read
  back unchanged by the value scanner. A value that is written bare (no blank, no quote) must
  not be trimmed by \<open>TrimSpace\<close> and must not end like a key.
\<close>

theorem quote_value_roundtrip:
  assumes "value_ends rest" "\<not> Contains v triple"
    and "ContainsAny v [sp, tab, cr, nl, quote, dquote] \<or> TrimSpace v = v \<and> \<not> looks_like_key v"
  shows "scanned_value (sp # QuoteValue v @ rest) = v"
proof -
  consider (empty) "v = []"
    | (bare) "v \<noteq> []" "\<not> ContainsAny v [sp, tab, cr, nl, quote, dquote]"
    | (quoted) "v \<noteq> []" "ContainsAny v [sp, tab, cr, nl, quote, dquote]" by blast
  then show ?thesis
  proof cases
    case empty
    have "TrimSpace (triple @ triple) = triple @ triple"
      using TrimSpace_literal(2) [of "[quote, quote, quote, quote]"] by (simp add: triple_def)
    then have "scanned_value (sp # (triple @ triple) @ rest) = stripQuotes (triple @ triple)"
      using scan_empty [OF assms(1)] by (intro scanned_value_eq [OF assms(1)]) (simp_all add: triple_def)
    with empty show ?thesis
      by (simp add: QuoteValue_def stripQuotes_def triple_def slice_def HasSuffix_def)
  next
    case bare
    then have no: "sp \<notin> set v" "tab \<notin> set v" "quote \<notin> set v" "dquote \<notin> set v"
      by (auto simp: ContainsAny_def list_ex_iff)
    have "scanned_value (sp # v @ rest) = stripQuotes v"
      using assms bare scan_bare [OF assms(1)] no
      by (intro scanned_value_eq [OF assms(1)]) (auto dest: hd_in_set)
    with bare assms(2) no show ?thesis by (simp add: QuoteValue_def stripQuotes_bare)
  next
    case quoted
    let ?q = "CHR ''$'' # triple @ v @ triple"
    have "TrimSpace ?q = ?q"
      using TrimSpace_literal(1) [of "triple @ v @ [quote, quote]"] by (simp add: triple_def)
    then have "scanned_value (sp # ?q @ rest) = stripQuotes ?q"
      using scan_quoted [OF assms(1,2)]
      by (intro scanned_value_eq [OF assms(1)]) (simp_all add: triple_def)
    with quoted assms(2) show ?thesis by (simp add: QuoteValue_def stripQuotes_literal)
  qed
qed

theorem quote_value_roundtrip_witness:
  "scanned_value (sp # QuoteValue ''it is' '' @ '' Next: 1'') = ''it is' ''"
proof -
  have "value_ends '' Next: 1''"
    unfolding value_ends_def
    by (intro disjI2 exI [where x = "''Next''"] exI [where x = "'' 1''"])
      (simp add: isKeyChar_def char_class_simps)
  moreover have "\<not> Contains ''it is' '' triple" by code_simp
  moreover have "ContainsAny ''it is' '' [sp, tab, cr, nl, quote, dquote]" by code_simp
  ultimately show ?thesis by (intro quote_value_roundtrip) blast+
qed

text \<open>
  the condition on bare values is needed: a value such as \<open>C:\<close> is written without quotes
  and is then read back as an empty value followed by a new key.
\<close>

theorem bare_value_read_as_key:
  "QuoteValue ''C:'' = ''C:'' \<and> scanned_value (sp # QuoteValue ''C:'') = [] \<and>
   extractKeyValuePairs (''Path: '' @ QuoteValue ''C:'') [] = [(''Path'', []), (''C'', [])]"
  by code_simp

section \<open>Layout\<close>

lemma sanitize_chars:
  "nl \<notin> set (sanitizeRegionName name)" "cr \<notin> set (sanitizeRegionName name)"
  "dquote \<notin> set (sanitizeRegionName name)"
  using set_TrimSpace [of "ReplaceByte (ReplaceByte (ReplaceByte name cr sp) nl sp) dquote quote"]
  by (auto simp: sanitizeRegionName_def ReplaceByte_def split: if_splits)

text \<open>
  the framing of a serialized subflow cannot be broken by its name: the text starts with a
  region header that is one physical line with the name between its only two double quotes, and
  ends with the region's end line.
\<close>

theorem serialize_subflow_framing:
  "\<exists>name body. SerializeSubflow sf =
     ''#Region '' @ [dquote] @ name @ [dquote, nl] @ body @ ''#EndRegion'' @ [nl] \<and>
     nl \<notin> set name \<and> cr \<notin> set name \<and> dquote \<notin> set name"
  using sanitize_chars [of "sfName sf"]
  by (intro exI [where x = "sanitizeRegionName (sfName sf)"]
        exI [where x = "serializeChildList padIndentUnit (sfBlocks sf)"])
    (simp add: SerializeSubflow_def writeLine_def)

text \<open>A block with everything reset that a parse derives from the layout of the source.\<close>

definition canon_info :: "block_info \<Rightarrow> block_info" where
  "canon_info b = b\<lparr>bID := [], bIndent := 0, bLineNumber := 0, bEndLineNumber := 0, bVariables := [],
     bTokens := [], bParentID := [], bSubflowID := []\<rparr>"

primrec canon :: "Block \<Rightarrow> Block" where
  "canon (Block b cs) = Block (canon_info b) (map canon cs)"

lemma canon_info_frame [simp]:
  "bName (canon_info b) = bName b" "bType (canon_info b) = bType b"
  "bRawType (canon_info b) = bRawType b" "bProperties (canon_info b) = bProperties b"
  by (simp_all add: canon_info_def)

lemma binfo_canon [simp]: "binfo (canon b) = canon_info (binfo b)"
  by (cases b) simp

lemma canon_lines [simp]:
  "else_line (canon_info b) = else_line b" "call_line (canon_info b) = call_line b"
  "error_capture_line (canon_info b) = error_capture_line b"
  "flow_keyword_line (canon_info b) = flow_keyword_line b"
  "control_line (canon_info b) = control_line b"
  "serializeGenericAction (canon_info b) = serializeGenericAction b"
  "emitLeafLine ind line (canon_info b) = emitLeafLine ind line b"
  unfolding else_line_def call_line_def error_capture_line_def flow_keyword_line_def
    control_line_def serializeGenericAction_def emitLeafLine_def endsWithThenSuffix_def
    serializePropsSuffix_def canon_info_frame
  by (rule refl)+

lemma index_marker_canon [simp]:
  "indexOfOnBlockErrorChild (map canon cs) = indexOfOnBlockErrorChild cs"
  by (induction cs) (simp_all add: is_marker_def)

lemma end_split_canon [simp]:
  "takeWhile (\<lambda>c. \<not> is_end c) (map canon cs) = map canon (takeWhile (\<lambda>c. \<not> is_end c) cs)"
  "dropWhile (\<lambda>c. \<not> is_end c) (map canon cs) = map canon (dropWhile (\<lambda>c. \<not> is_end c) cs)"
  by (induction cs) simp_all

lemma serializeBlock_canon:
  assumes H: "\<And>ind ds. sum_list (map nodes ds) \<le> sum_list (map nodes cs) \<Longrightarrow>
      serializeChildList ind (map canon ds) = serializeChildList ind ds"
  shows "serializeBlock ind (canon (Block b cs)) = serializeBlock ind (Block b cs)"
proof -
  let ?ne = "\<lambda>c. \<not> is_end c"
  have parts: "serializeChildList i (map canon cs) = serializeChildList i cs"
    "serializeChildList i (take n (map canon cs)) = serializeChildList i (take n cs)"
    "serializeChildList i (takeWhile ?ne (drop n (map canon cs))) = serializeChildList i (takeWhile ?ne (drop n cs))"
    "serializeChildList i (tl (dropWhile ?ne (drop n (map canon cs)))) =
       serializeChildList i (tl (dropWhile ?ne (drop n cs)))"
    "(dropWhile ?ne (drop n (map canon cs)) \<noteq> []) = (dropWhile ?ne (drop n cs) \<noteq> [])" for i n
    unfolding take_map drop_map end_split_canon map_tl [symmetric]
    by (simp_all add: H nodes_parts order.trans [OF nodes_parts(3) nodes_parts(2)]
        order.trans [OF nodes_parts(5) order.trans [OF nodes_parts(4) nodes_parts(2)]])
  show ?thesis
    unfolding canon.simps serializeBlock.simps Let_def canon_info_frame canon_lines
      index_marker_canon parts ..
qed

lemma serializeChildList_canon: "serializeChildList ind (map canon bs) = serializeChildList ind bs"
proof (induction "sum_list (map nodes bs)" arbitrary: ind bs rule: less_induct)
  case less
  show ?case
  proof (cases bs)
    case (Cons c cs)
    obtain b ds where c: "c = Block b ds" by (cases c)
    have sub: "serializeChildList i (map canon es) = serializeChildList i es"
      if "sum_list (map nodes es) \<le> sum_list (map nodes ds)" for i es
      using that by (intro less) (simp add: Cons c)
    have 1: "serializeChildList i (map canon ds) = serializeChildList i ds" for i by (rule sub) simp
    have 2: "serializeChildList i (map canon cs) = serializeChildList i cs" for i
      by (rule less) (simp add: Cons)
    have 3: "serializeBlock i (Block (canon_info b) (map canon ds)) = serializeBlock i (Block b ds)" for i
      using serializeBlock_canon [OF sub] by simp
    show ?thesis
      unfolding Cons c list.map canon.simps serializeChildList.simps Let_def canon_info_frame
        canon_lines 1 2 3 ..
  qed simp
qed

text \<open>
  serialization is canonical: it depends on the tree only through types, names, raw types and
  properties; identifiers, indentation, line numbers and display data have no effect.
\<close>

theorem serialize_ignores_layout:
  "SerializeDocument (doc\<lparr>Subflows := map (\<lambda>sf. sf\<lparr>sfBlocks := map canon (sfBlocks sf)\<rparr>) (Subflows doc)\<rparr>)
     = SerializeDocument doc"
proof -
  have "SerializeSubflow (sf\<lparr>sfBlocks := map canon (sfBlocks sf)\<rparr>) = SerializeSubflow sf" for sf :: Subflow
    by (simp add: SerializeSubflow_def serializeChildList_canon)
  then show ?thesis by (simp add: SerializeDocument_def comp_def)
qed

end
