(* ===== verification/Findings.thy ===== *)
theory Findings
  imports Prelude Models "HOL-Library.Multiset" "HOL-Library.List_Lexorder" "HOL-Library.Char_ord"
begin

text \<open>
  core/models/analysis.go and core/analyzer/dedup.go, gate.go and the stamping pass of engine.go:
  findings, deduplication and grouping, which findings may fail a gate, and how they are
  counted. The table of rule metadata that \<open>metaTable()\<close> reads is an argument (rule identifier to
  metadata); the content hash of a fingerprint (SHA-256, hexadecimal) is an argument too.
\<close>

section \<open>Model\<close>

subsection \<open>Severities and findings\<close>

type_synonym Severity = string

definition SeverityError :: Severity where "SeverityError = ''error''"

definition SeverityWarning :: Severity where "SeverityWarning = ''warning''"

definition SeverityInfo :: Severity where "SeverityInfo = ''info''"

definition Valid :: "Severity \<Rightarrow> bool" where
  "Valid s \<longleftrightarrow> s = SeverityError \<or> s = SeverityWarning \<or> s = SeverityInfo"

text \<open>A value of the metadata map: deduplication asks only whether it is a string.\<close>

datatype metaValue = MetaString string | MetaOther

record Finding =
  fID :: string
  fFingerprint :: string
  fRuleID :: string
  fSeverity :: Severity
  fConfidence :: string
  fTitle :: string
  fDescription :: string
  fBlockID :: string
  fSubflowID :: string
  fSuggestion :: string
  fAutoFixHint :: string
  fAutoFix :: string
  fCategory :: string
  fMetadata :: "(string \<times> metaValue) list"
  fStage :: string

definition Key :: "Finding \<Rightarrow> string" where
  "Key f = fRuleID f @ '':'' @ fBlockID f"

record RuleMeta =
  mConfidence :: string
  mAutoFix :: string
  mDirectFixes :: "string list"
  mStage :: string
  mDisabledByDefault :: bool
  mIntroducedIn :: int
  mRevision :: int

type_synonym ruleMetaTable = "(string \<times> RuleMeta) list"

subsection \<open>Deduplication\<close>

definition subjectKeys :: "string list" where
  "subjectKeys = [''variable'', ''property'', ''resource'']"

definition subject_of :: "Finding \<Rightarrow> string \<Rightarrow> string option" where
  "subject_of f k = (case map_of (fMetadata f) k of
     Some (MetaString v) \<Rightarrow> if v \<noteq> [] then Some v else None | _ \<Rightarrow> None)"

definition findingSubjects :: "Finding \<Rightarrow> string list" where
  "findingSubjects f =
     List.map_filter (\<lambda>k. map_option (\<lambda>v. k @ ''='' @ v) (subject_of f k)) subjectKeys"

definition findingDiscriminator :: "Finding \<Rightarrow> string" where
  "findingDiscriminator f = Join (findingSubjects f) [CHR 0x00]"

type_synonym dedup_key = "string \<times> string \<times> string"

definition dedupKey :: "Finding \<Rightarrow> dedup_key" where
  "dedupKey f = (fBlockID f, fTitle f, findingDiscriminator f)"

fun dedup_loop :: "dedup_key list \<Rightarrow> Finding list \<Rightarrow> bool list" where
  "dedup_loop seen [] = []"
| "dedup_loop seen (f # fs) =
     (if dedupKey f \<in> set seen then False # dedup_loop seen fs
      else True # dedup_loop (dedupKey f # seen) fs)"

definition dedupKeep :: "Finding list \<Rightarrow> bool list" where
  "dedupKeep fs = dedup_loop [] fs"

definition keptFindings :: "Finding list \<Rightarrow> bool list \<Rightarrow> Finding list" where
  "keptFindings fs keep = map fst (filter snd (zip fs keep))"

record FindingGroup =
  gBlockID :: string
  gFindings :: "Finding list"
  gPrimary :: Finding
  gDuplicateCount :: nat

fun count_dups :: "string list \<Rightarrow> Finding list \<Rightarrow> nat" where
  "count_dups titles [] = 0"
| "count_dups titles (f # fs) =
     (let tk = fTitle f @ [CHR 0x00] @ findingDiscriminator f in
      (if tk \<in> set titles then 1 else 0) + count_dups (tk # titles) fs)"

text \<open>
  The Go code fills a map from block to findings and sorts the groups by block, a key no two
  groups share; the result is the sorted list of blocks, each with its findings in order.
\<close>

definition group_of :: "Finding list \<Rightarrow> string \<Rightarrow> FindingGroup" where
  "group_of fs b =
     (let bfs = filter (\<lambda>f. fBlockID f = b) fs in
      \<lparr>gBlockID = b, gFindings = bfs, gPrimary = hd bfs, gDuplicateCount = count_dups [] bfs\<rparr>)"

definition buildFindingGroups :: "Finding list \<Rightarrow> FindingGroup list" where
  "buildFindingGroups fs = map (group_of fs) (sort (remdups (map fBlockID fs)))"

definition DeduplicateFindings :: "Finding list \<Rightarrow> Finding list \<times> FindingGroup list" where
  "DeduplicateFindings fs = (keptFindings fs (dedupKeep fs), buildFindingGroups fs)"

definition FindRelatedFindings :: "Finding list \<Rightarrow> string \<Rightarrow> Finding list" where
  "FindRelatedFindings fs blockID =
     (let blockSubjects = concat (map findingSubjects (filter (\<lambda>f. fBlockID f = blockID) fs)) in
      filter (\<lambda>f. fBlockID f \<noteq> blockID \<and> list_ex (\<lambda>s. s \<in> set blockSubjects) (findingSubjects f)) fs)"

subsection \<open>Gates\<close>

definition StagePreview :: string where "StagePreview = ''preview''"

definition StageStable :: string where "StageStable = ''stable''"

definition gates :: "ruleMetaTable \<Rightarrow> Finding \<Rightarrow> bool" where
  "gates t f \<longleftrightarrow>
     (if fStage f = StagePreview then False
      else if fStage f = StageStable then True
      else (case map_of t (fRuleID f) of None \<Rightarrow> True | Some m \<Rightarrow> mStage m \<noteq> StagePreview))"

definition GatingFindings :: "ruleMetaTable \<Rightarrow> Finding list \<Rightarrow> Finding list \<times> nat" where
  "GatingFindings t fs =
     (let preview = length (filter (\<lambda>f. \<not> gates t f) fs) in
      if preview = 0 then (fs, 0) else (filter (gates t) fs, preview))"

definition NormalizeSeverity :: "string \<Rightarrow> Severity" where
  "NormalizeSeverity s =
     (let sev = ToLower (TrimSpace s) in if sev = [] \<or> Valid sev then sev else SeverityError)"

definition gateSeverity :: "Severity \<Rightarrow> Severity" where
  "gateSeverity s =
     (if Valid s then s
      else if NormalizeSeverity s \<noteq> [] then NormalizeSeverity s
      else SeverityError)"

record GateCounts =
  gcErrors :: nat
  gcWarnings :: nat
  gcInfo :: nat
  gcPreview :: nat

definition count_step :: "ruleMetaTable \<Rightarrow> GateCounts \<Rightarrow> Finding \<Rightarrow> GateCounts" where
  "count_step t c f =
     (if \<not> gates t f then c\<lparr>gcPreview := gcPreview c + 1\<rparr>
      else (let s = gateSeverity (fSeverity f) in
        if s = SeverityError then c\<lparr>gcErrors := gcErrors c + 1\<rparr>
        else if s = SeverityWarning then c\<lparr>gcWarnings := gcWarnings c + 1\<rparr>
        else if s = SeverityInfo then c\<lparr>gcInfo := gcInfo c + 1\<rparr>
        else c))"

definition CountGating :: "ruleMetaTable \<Rightarrow> Finding list \<Rightarrow> GateCounts" where
  "CountGating t fs =
     foldl (count_step t) \<lparr>gcErrors = 0, gcWarnings = 0, gcInfo = 0, gcPreview = 0\<rparr> fs"

subsection \<open>Stamping\<close>

fun decimal :: "nat \<Rightarrow> string" where
  "decimal n = (if n < 10 then [] else decimal (n div 10)) @ [char_of (48 + n mod 10)]"

declare decimal.simps [simp del]

text \<open>\<open>fmt.Sprintf("F-%03d", n)\<close>\<close>

definition finding_id :: "nat \<Rightarrow> string" where
  "finding_id n = ''F-'' @ replicate (3 - length (decimal n)) (CHR ''0'') @ decimal n"

definition first_subject :: "Finding \<Rightarrow> string" where
  "first_subject f = (case List.map_filter (subject_of f) subjectKeys of [] \<Rightarrow> [] | v # _ \<Rightarrow> v)"

definition findingContentKey :: "(string \<Rightarrow> string) \<Rightarrow> FlowDocument \<Rightarrow> Finding \<Rightarrow> string" where
  "findingContentKey hash16 flow f =
     (case map_of (BlocksByID flow) (fBlockID f) of
        None \<Rightarrow> Key f
      | Some block \<Rightarrow>
          (let subflowName = (case map_of (BlockSubflow flow) (fBlockID f) of
                 None \<Rightarrow> [] | Some sf \<Rightarrow> sfName sf);
               payload = Join [subflowName, bRawType (binfo block), bName (binfo block),
                 decimal (bLineNumber (binfo block)), first_subject f] ''|''
           in fRuleID f @ '':'' @ hash16 payload))"

definition stamp_finding ::
    "(string \<Rightarrow> string) \<Rightarrow> ruleMetaTable \<Rightarrow> FlowDocument \<Rightarrow> nat \<Rightarrow> Finding \<Rightarrow> Finding" where
  "stamp_finding hash16 t flow n f =
     (let m = (if fStage f = StageStable then None else map_of t (fRuleID f));
          f1 = f\<lparr>fID := finding_id n, fFingerprint := findingContentKey hash16 flow f,
                 fConfidence := (if fConfidence f = [] then
                    (case m of Some r \<Rightarrow> if mConfidence r \<noteq> [] then mConfidence r else ''medium''
                     | None \<Rightarrow> ''medium'') else fConfidence f)\<rparr>
      in case m of
           None \<Rightarrow> f1
         | Some r \<Rightarrow> f1\<lparr>fAutoFix := (if fAutoFix f = [] then mAutoFix r else fAutoFix f),
              fStage := (if fStage f = [] \<and> mStage r = StagePreview then StagePreview else fStage f)\<rparr>)"

fun stamp_loop ::
    "(string \<Rightarrow> string) \<Rightarrow> ruleMetaTable \<Rightarrow> FlowDocument \<Rightarrow> nat \<Rightarrow> Finding list \<Rightarrow> bool list \<Rightarrow> Finding list" where
  "stamp_loop hash16 t flow n (f # fs) (k # ks) =
     (if k then stamp_finding hash16 t flow (n + 1) f # stamp_loop hash16 t flow (n + 1) fs ks
      else f # stamp_loop hash16 t flow n fs ks)"
| "stamp_loop hash16 t flow n fs ks = fs"

definition stampFindings ::
    "(string \<Rightarrow> string) \<Rightarrow> ruleMetaTable \<Rightarrow> Finding list \<Rightarrow> bool list \<Rightarrow> FlowDocument \<Rightarrow> Finding list" where
  "stampFindings hash16 t fs keep flow = stamp_loop hash16 t flow 0 fs keep"

section \<open>Deduplication keeps the first of each key\<close>

lemma dedup_loop_length [simp]: "length (dedup_loop seen fs) = length fs"
  by (induction seen fs rule: dedup_loop.induct) simp_all

lemma dedup_loop_nth:
  "i < length fs \<Longrightarrow> dedup_loop seen fs ! i \<longleftrightarrow>
     dedupKey (fs ! i) \<notin> set seen \<and> (\<forall>j<i. dedupKey (fs ! j) \<noteq> dedupKey (fs ! i))"
proof (induction seen fs arbitrary: i rule: dedup_loop.induct)
  case (2 seen f fs)
  show ?case
  proof (cases i)
    case (Suc k)
    with 2 show ?thesis by (auto simp: All_less_Suc2)
  qed simp
qed simp

definition first_of_key :: "Finding list \<Rightarrow> nat \<Rightarrow> bool" where
  "first_of_key fs i \<longleftrightarrow> (\<forall>j<i. dedupKey (fs ! j) \<noteq> dedupKey (fs ! i))"

lemma keptFindings_nths:
  "length keep = length fs \<Longrightarrow> keptFindings fs keep = nths fs {i. keep ! i}"
proof (induction fs arbitrary: keep)
  case Nil
  then show ?case by (simp add: keptFindings_def)
next
  case (Cons f fs)
  then obtain k ks where keep: "keep = k # ks" "length ks = length fs" by (cases keep) auto
  have "{j. Suc j \<in> {i. keep ! i}} = {i. ks ! i}" by (simp add: keep)
  then show ?case using Cons.IH [OF keep(2)] by (simp add: nths_Cons keptFindings_def keep)
qed

lemma nths_cong: "(\<And>i. i < length xs \<Longrightarrow> (i \<in> A) = (i \<in> B)) \<Longrightarrow> nths xs A = nths xs B"
  unfolding nths_def by (intro arg_cong [where f = "map fst"] filter_cong) (auto simp: set_zip)

lemma dedup_nths: "fst (DeduplicateFindings fs) = nths fs {i. first_of_key fs i}"
proof -
  have "fst (DeduplicateFindings fs) = nths fs {i. dedupKeep fs ! i}"
    by (simp add: DeduplicateFindings_def keptFindings_nths dedupKeep_def)
  also have "\<dots> = nths fs {i. first_of_key fs i}"
    by (rule nths_cong) (simp add: dedupKeep_def dedup_loop_nth first_of_key_def)
  finally show ?thesis .
qed

interpretation dedup: filtering_stage "\<lambda>fs. fst (DeduplicateFindings fs)" first_of_key
  by unfold_locales (rule dedup_nths)

lemma keptFindings_simps [simp]:
  "keptFindings [] ks = []"
  "keptFindings (f # fs) (k # ks) = (if k then f # keptFindings fs ks else keptFindings fs ks)"
  by (simp_all add: keptFindings_def)

lemma keptFindings_loop_keys:
  "distinct (map dedupKey (keptFindings fs (dedup_loop seen fs))) \<and>
   set (map dedupKey (keptFindings fs (dedup_loop seen fs))) = dedupKey ` set fs - set seen"
proof (induction seen fs rule: dedup_loop.induct)
  case (2 seen f fs)
  show ?case
  proof (cases "dedupKey f \<in> set seen")
    case True
    with 2(1) [OF True] show ?thesis by auto
  next
    case False
    with 2(2) [OF False] show ?thesis by auto
  qed
qed simp

lemma kept_is_first:
  "f \<in> set (keptFindings fs (dedup_loop seen fs)) \<Longrightarrow> find (\<lambda>g. dedupKey g = dedupKey f) fs = Some f"
proof (induction seen fs rule: dedup_loop.induct)
  case (2 seen g fs)
  show ?case
  proof (cases "dedupKey g \<in> set seen")
    case True
    with 2(3) have f: "f \<in> set (keptFindings fs (dedup_loop seen fs))" by simp
    then have "dedupKey f \<in> set (map dedupKey (keptFindings fs (dedup_loop seen fs)))" by simp
    then have "dedupKey f \<notin> set seen" using keptFindings_loop_keys [of fs seen] by simp
    with 2(1) [OF True f] True show ?thesis by auto
  next
    case False
    show ?thesis
    proof (cases "f = g")
      case ne: False
      with 2(3) False have f: "f \<in> set (keptFindings fs (dedup_loop (dedupKey g # seen) fs))" by simp
      then have "dedupKey f \<in> set (map dedupKey (keptFindings fs (dedup_loop (dedupKey g # seen) fs)))"
        by simp
      then have "dedupKey f \<noteq> dedupKey g"
        using keptFindings_loop_keys [of fs "dedupKey g # seen"] by auto
      with 2(2) [OF False f] show ?thesis by auto
    qed simp
  qed
qed simp

lemma kept_loop_indexes:
  "keptFindings fs (dedup_loop seen fs) = map ((!) fs) (filter
     (\<lambda>i. dedupKey (fs ! i) \<notin> set seen \<union> dedupKey ` set (take i fs)) [0..<length fs])"
proof (induction seen fs rule: dedup_loop.induct)
  case (2 seen f fs)
  have upt: "[0..<length (f # fs)] = 0 # map Suc [0..<length fs]"
    by (simp add: map_Suc_upt upt_conv_Cons del: upt_Suc)
  show ?case
  proof (cases "dedupKey f \<in> set seen")
    case True
    with 2(1) [OF True] show ?thesis
      unfolding upt by (auto simp: filter_map comp_def intro!: arg_cong [where f = "map _"] filter_cong)
  next
    case False
    with 2(2) [OF False] show ?thesis
      unfolding upt by (simp add: filter_map comp_def conj_left_commute)
  qed
qed simp

text \<open>
  deduplication keeps, in order, exactly the first finding of every (block, title, subject)
  key: no key is lost, no key occurs twice, and what is kept is the earliest finding of its key.
\<close>

theorem dedup_keeps_first:
  "let kept = fst (DeduplicateFindings fs) in
     subseq kept fs \<and> distinct (map dedupKey kept) \<and>
     set (map dedupKey kept) = set (map dedupKey fs) \<and>
     list_all (\<lambda>f. find (\<lambda>g. dedupKey g = dedupKey f) fs = Some f) kept"
proof -
  have eq: "fst (DeduplicateFindings fs) = keptFindings fs (dedup_loop [] fs)"
    by (simp add: DeduplicateFindings_def dedupKeep_def)
  show ?thesis
    using dedup.stage_subseq [of fs] keptFindings_loop_keys [of fs "[]"] kept_is_first [of _ fs "[]"]
    unfolding Let_def eq by (simp add: list_all_iff)
qed

section \<open>Groups\<close>

lemma mset_filter_partition:
  assumes "distinct bs" "set (map key xs) \<subseteq> set bs"
  shows "mset (concat (map (\<lambda>b. filter (\<lambda>x. key x = b) xs) bs)) = mset xs"
  using assms(2)
proof (induction xs)
  case Nil
  show ?case by (induction bs) simp_all
next
  case (Cons x xs)
  have split: "mset (concat (map (\<lambda>b. filter (\<lambda>y. key y = b) (x # xs)) bs)) =
      mset (concat (map (\<lambda>b. if key x = b then [x] else []) bs)) +
      mset (concat (map (\<lambda>b. filter (\<lambda>y. key y = b) xs) bs))"
    by (induction bs) simp_all
  have "mset (concat (map (\<lambda>b. if key x = b then [x] else []) bs)) = (if key x \<in> set bs then {#x#} else {#})"
    using assms(1) by (induction bs) auto
  with Cons show ?case unfolding split by simp
qed

lemma length_concat_map: "length (concat (map f bs)) = sum_list (map (\<lambda>b. length (f b)) bs)"
  by (induction bs) simp_all

definition title_key :: "Finding \<Rightarrow> string" where
  "title_key f = fTitle f @ [CHR 0x00] @ findingDiscriminator f"

lemma title_key_inj:
  assumes "CHR 0x00 \<notin> set (fTitle f)" "CHR 0x00 \<notin> set (fTitle g)"
  shows "title_key f = title_key g \<longleftrightarrow> fTitle f = fTitle g \<and> findingDiscriminator f = findingDiscriminator g"
proof
  assume eq: "title_key f = title_key g"
  have tw: "takeWhile (\<lambda>c. c \<noteq> CHR 0x00) (title_key h) = fTitle h" if "CHR 0x00 \<notin> set (fTitle h)" for h
    unfolding title_key_def using that by (subst takeWhile_append2) auto
  have "fTitle f = fTitle g" using tw [OF assms(1)] tw [OF assms(2)] eq by simp
  with eq show "fTitle f = fTitle g \<and> findingDiscriminator f = findingDiscriminator g"
    by (simp add: title_key_def)
qed (simp add: title_key_def)

text \<open>Within one block, the duplicates counted are those deduplication drops.\<close>

lemma count_dups_dedup:
  assumes "list_all (\<lambda>f. CHR 0x00 \<notin> set (fTitle f) \<and> fBlockID f = b) fs"
    and "\<And>f. f \<in> set fs \<Longrightarrow> title_key f \<in> set titles \<longleftrightarrow> dedupKey f \<in> set seen"
  shows "count_dups titles fs + length (keptFindings fs (dedup_loop seen fs)) = length fs"
  using assms
proof (induction fs arbitrary: titles seen)
  case (Cons f fs)
  have inj: "title_key g = title_key f \<longleftrightarrow> dedupKey g = dedupKey f" if "g \<in> set (f # fs)" for g
    using Cons.prems(1) that title_key_inj [of g f] by (auto simp: list_all_iff dedupKey_def)
  show ?case
  proof (cases "dedupKey f \<in> set seen")
    case True
    have "count_dups (title_key f # titles) fs + length (keptFindings fs (dedup_loop seen fs)) = length fs"
      using Cons.prems True inj by (intro Cons.IH) auto
    with True Cons.prems(2) [of f] show ?thesis by (simp add: title_key_def Let_def)
  next
    case False
    have "count_dups (title_key f # titles) fs + length (keptFindings fs (dedup_loop (dedupKey f # seen) fs)) = length fs"
      using Cons.prems inj by (intro Cons.IH) auto
    with False Cons.prems(2) [of f] show ?thesis by (simp add: title_key_def Let_def)
  qed
qed simp

lemma dedup_filter_block:
  assumes "\<And>k. fst k = b \<Longrightarrow> k \<in> set seen \<longleftrightarrow> k \<in> set seen'"
  shows "keptFindings (filter (\<lambda>f. fBlockID f = b) fs) (dedup_loop seen (filter (\<lambda>f. fBlockID f = b) fs)) =
    filter (\<lambda>f. fBlockID f = b) (keptFindings fs (dedup_loop seen' fs))"
  using assms
proof (induction fs arbitrary: seen seen')
  case (Cons f fs)
  show ?case
  proof (cases "fBlockID f = b")
    case True
    then have "dedupKey f \<in> set seen \<longleftrightarrow> dedupKey f \<in> set seen'"
      using Cons.prems [of "dedupKey f"] by (simp add: dedupKey_def)
    then show ?thesis
      using True Cons.IH [of seen seen'] Cons.IH [of "dedupKey f # seen" "dedupKey f # seen'"] Cons.prems
      by auto
  next
    case False
    have "\<And>k. fst k = b \<Longrightarrow> k \<in> set seen \<longleftrightarrow> k \<in> set (dedupKey f # seen')"
      using Cons.prems False by (auto simp: dedupKey_def)
    then show ?thesis
      using False Cons.IH [of seen seen'] Cons.IH [of seen "dedupKey f # seen'"] Cons.prems by auto
  qed
qed simp

text \<open>
  grouping by block loses nothing: the groups are in strictly increasing block order and hold
  every finding exactly once, each group's primary finding is its first, and the duplicates
  counted over all groups are exactly the findings deduplication drops (when no title contains
  the NUL byte that separates title and subject).
\<close>

theorem groups_partition_findings:
  assumes "list_all (\<lambda>f. CHR 0x00 \<notin> set (fTitle f)) fs"
  shows "let (kept, groups) = DeduplicateFindings fs in
     sorted_wrt (<) (map gBlockID groups) \<and>
     mset (concat (map gFindings groups)) = mset fs \<and>
     list_all (\<lambda>g. gFindings g \<noteq> [] \<and> gPrimary g = hd (gFindings g)) groups \<and>
     sum_list (map gDuplicateCount groups) + length kept = length fs"
proof -
  let ?bs = "sort (remdups (map fBlockID fs))"
  let ?k = "keptFindings fs (dedup_loop [] fs)"
  have bs: "distinct ?bs" "set ?bs = set (map fBlockID fs)" by simp_all
  have sorted: "sorted_wrt (<) ?bs" by (simp add: strict_sorted_iff)
  have part: "mset (concat (map (\<lambda>b. filter (\<lambda>f. fBlockID f = b) fs) ?bs)) = mset fs"
    using bs by (intro mset_filter_partition) simp_all
  have kset: "set (map fBlockID ?k) \<subseteq> set ?bs"
    using dedup.stage_set [of fs] by (auto simp: DeduplicateFindings_def dedupKeep_def)
  have kpart: "mset (concat (map (\<lambda>b. filter (\<lambda>f. fBlockID f = b) ?k) ?bs)) = mset ?k"
    using bs(1) kset by (rule mset_filter_partition)
  have one: "count_dups [] (filter (\<lambda>f. fBlockID f = b) fs) + length (filter (\<lambda>f. fBlockID f = b) ?k) =
      length (filter (\<lambda>f. fBlockID f = b) fs)" for b
    using count_dups_dedup [of b "filter (\<lambda>f. fBlockID f = b) fs" "[]" "[]"] assms
      dedup_filter_block [of b "[]" "[]" fs] by (simp add: list_all_iff)
  have "sum_list (map (\<lambda>b. count_dups [] (filter (\<lambda>f. fBlockID f = b) fs)) ?bs) +
      sum_list (map (\<lambda>b. length (filter (\<lambda>f. fBlockID f = b) ?k)) ?bs) =
      sum_list (map (\<lambda>b. length (filter (\<lambda>f. fBlockID f = b) fs)) ?bs)"
    by (simp add: one flip: sum_list_addf)
  moreover have "sum_list (map (\<lambda>b. length (filter (\<lambda>f. fBlockID f = b) ?k)) ?bs) = length ?k"
    using arg_cong [OF kpart, of size] by (simp only: size_mset length_concat_map)
  moreover have "sum_list (map (\<lambda>b. length (filter (\<lambda>f. fBlockID f = b) fs)) ?bs) = length fs"
    using arg_cong [OF part, of size] by (simp only: size_mset length_concat_map)
  moreover have "filter (\<lambda>f. fBlockID f = b) fs \<noteq> []" if "b \<in> set ?bs" for b
    using that by (auto simp: filter_empty_conv)
  ultimately show ?thesis
    using sorted part
    by (simp add: DeduplicateFindings_def dedupKeep_def buildFindingGroups_def group_of_def Let_def
        comp_def list_all_iff)
qed

definition sample_finding :: "string \<Rightarrow> string \<Rightarrow> Finding" where
  "sample_finding rule block = \<lparr>fID = [], fFingerprint = [], fRuleID = rule, fSeverity = ''critical'',
     fConfidence = [], fTitle = rule, fDescription = [], fBlockID = block, fSubflowID = [],
     fSuggestion = [], fAutoFixHint = [], fAutoFix = [], fCategory = [], fMetadata = [], fStage = []\<rparr>"

theorem groups_partition_findings_witness:
  "let (kept, groups) = DeduplicateFindings [sample_finding ''r'' ''b'', sample_finding ''r'' ''b''] in
     length kept = 1 \<and> sum_list (map gDuplicateCount groups) = 1"
proof -
  let ?fs = "[sample_finding ''r'' ''b'', sample_finding ''r'' ''b'']"
  have 1: "list_all (\<lambda>f. CHR 0x00 \<notin> set (fTitle f)) ?fs" by code_simp
  have 2: "length (fst (DeduplicateFindings ?fs)) = 1" by code_simp
  from groups_partition_findings [OF 1] 2 show ?thesis by (simp add: split_beta Let_def)
qed

section \<open>Gates fail closed\<close>

lemma Valid_severities [simp]: "Valid SeverityError" "Valid SeverityWarning" "Valid SeverityInfo"
  by (simp_all add: Valid_def)

lemma not_valid_Nil [simp]: "\<not> Valid []"
  by (simp add: Valid_def SeverityError_def SeverityWarning_def SeverityInfo_def)

lemma gateSeverity_valid: "Valid (gateSeverity s)"
  by (auto simp: gateSeverity_def NormalizeSeverity_def Let_def)

interpretation gating: filtering_stage "\<lambda>fs. fst (GatingFindings t fs)" "\<lambda>fs i. gates t (fs ! i)"
proof
  fix fs
  have "filter (gates t) fs = fs" if "filter (\<lambda>f. \<not> gates t f) fs = []"
    using that by (auto simp: filter_empty_conv filter_id_conv)
  then show "fst (GatingFindings t fs) = nths fs {i. gates t (fs ! i)}"
    by (auto simp: GatingFindings_def Let_def nths_filter_all)
qed

text \<open>
  splitting findings into gating and preview loses nothing and reorders nothing: the gating
  list is exactly the gating findings in report order, and its length plus the preview count is the
  number of findings.
\<close>

theorem gating_findings_split:
  "fst (GatingFindings t fs) = filter (gates t) fs \<and> subseq (fst (GatingFindings t fs)) fs \<and>
   length (fst (GatingFindings t fs)) + snd (GatingFindings t fs) = length fs"
proof -
  have "fst (GatingFindings t fs) = filter (gates t) fs"
    using gating.stage_nths [of t fs] by (simp add: nths_filter_all)
  moreover have "snd (GatingFindings t fs) = length (filter (\<lambda>f. \<not> gates t f) fs)"
    by (simp add: GatingFindings_def Let_def)
  ultimately show ?thesis
    using gating.stage_subseq [of t fs] sum_length_filter_compl [of "gates t" fs] by simp
qed

lemma severities_distinct [simp]:
  "SeverityError \<noteq> SeverityWarning" "SeverityWarning \<noteq> SeverityError"
  "SeverityError \<noteq> SeverityInfo" "SeverityInfo \<noteq> SeverityError"
  "SeverityWarning \<noteq> SeverityInfo" "SeverityInfo \<noteq> SeverityWarning"
  "SeverityError \<noteq> []" "SeverityWarning \<noteq> []" "SeverityInfo \<noteq> []"
  "[] \<noteq> SeverityError" "[] \<noteq> SeverityWarning" "[] \<noteq> SeverityInfo"
  by (simp_all add: SeverityError_def SeverityWarning_def SeverityInfo_def)

definition gated_at :: "ruleMetaTable \<Rightarrow> Severity \<Rightarrow> Finding \<Rightarrow> bool" where
  "gated_at t s f \<longleftrightarrow> gates t f \<and> gateSeverity (fSeverity f) = s"

lemma count_step_run:
  "foldl (count_step t) c fs =
     \<lparr>gcErrors = gcErrors c + length (filter (gated_at t SeverityError) fs),
      gcWarnings = gcWarnings c + length (filter (gated_at t SeverityWarning) fs),
      gcInfo = gcInfo c + length (filter (gated_at t SeverityInfo) fs),
      gcPreview = gcPreview c + length (filter (\<lambda>f. \<not> gates t f) fs)\<rparr>"
proof (induction fs arbitrary: c)
  case (Cons f fs)
  have "gateSeverity (fSeverity f) \<in> {SeverityError, SeverityWarning, SeverityInfo}"
    using gateSeverity_valid [of "fSeverity f"] by (auto simp: Valid_def)
  then show ?case using Cons.IH by (auto simp: count_step_def gated_at_def Let_def)
qed simp

text \<open>
  the gate's tally fails closed: every finding is counted exactly once, as an error, a
  warning, an info or a preview, and a finding whose severity is none of the three known ones even
  after normalisation is an error. No finding vanishes from the counts.
\<close>

theorem count_gating_fails_closed:
  "let c = CountGating t fs in
     gcErrors c + gcWarnings c + gcInfo c + gcPreview c = length fs \<and>
     gcErrors c = length (filter (\<lambda>f. gates t f \<and>
       (let s = fSeverity f; n = ToLower (TrimSpace s) in
        s = SeverityError \<or> \<not> Valid s \<and> n \<noteq> SeverityWarning \<and> n \<noteq> SeverityInfo)) fs)"
proof -
  have err: "gateSeverity s = SeverityError \<longleftrightarrow>
      s = SeverityError \<or> \<not> Valid s \<and> ToLower (TrimSpace s) \<noteq> SeverityWarning \<and> ToLower (TrimSpace s) \<noteq> SeverityInfo" for s
    by (auto simp: gateSeverity_def NormalizeSeverity_def Let_def Valid_def)
  have "length (filter (gated_at t SeverityError) fs) + length (filter (gated_at t SeverityWarning) fs) +
      length (filter (gated_at t SeverityInfo) fs) + length (filter (\<lambda>f. \<not> gates t f) fs) = length fs"
  proof (induction fs)
    case (Cons f fs)
    have "gateSeverity (fSeverity f) \<in> {SeverityError, SeverityWarning, SeverityInfo}"
      using gateSeverity_valid [of "fSeverity f"] by (auto simp: Valid_def)
    with Cons show ?case by (auto simp: gated_at_def)
  qed simp
  then show ?thesis
    by (simp add: CountGating_def count_step_run Let_def gated_at_def [abs_def] err)
qed

section \<open>Stamping\<close>

lemma stamp_gates: "gates t (stamp_finding hash16 t flow n f) = gates t f"
  by (auto simp: gates_def stamp_finding_def Let_def StagePreview_def StageStable_def
      split: option.split if_splits)

lemma stamp_severity: "fSeverity (stamp_finding hash16 t flow n f) = fSeverity f"
  by (simp add: stamp_finding_def Let_def split: option.split)

lemma stamp_ID: "fID (stamp_finding hash16 t flow n f) = finding_id n"
  by (simp add: stamp_finding_def Let_def split: option.split)

lemma stamp_loop_count:
  "foldl (count_step t) c (stamp_loop hash16 t flow n fs ks) = foldl (count_step t) c fs"
proof (induction hash16 t flow n fs ks arbitrary: c rule: stamp_loop.induct)
  case (1 hash16 t flow n f fs k ks)
  have "count_step t c (stamp_finding hash16 t flow (n + 1) f) = count_step t c f"
    by (simp add: count_step_def stamp_gates stamp_severity)
  with 1 show ?case by simp
qed simp_all

lemma stamp_loop_ids:
  "length fs = length ks \<Longrightarrow>
     map fID (keptFindings (stamp_loop hash16 t flow n fs ks) ks) =
     map finding_id [Suc n..<Suc n + length (filter id ks)]"
proof (induction hash16 t flow n fs ks rule: stamp_loop.induct)
  case (1 hash16 t flow n f fs k ks)
  then show ?case by (simp add: stamp_ID upt_conv_Cons del: upt_Suc)
qed (auto simp: keptFindings_def)

definition digits_value :: "string \<Rightarrow> nat" where
  "digits_value s = foldl (\<lambda>a c. 10 * a + (of_char c - 48)) 0 s"

lemma digits_value_snoc: "digits_value (s @ [c]) = 10 * digits_value s + (of_char c - 48)"
  by (simp add: digits_value_def)

lemma digits_value_decimal: "digits_value (decimal n) = n"
proof (induction n rule: decimal.induct)
  case (1 n)
  have "of_char (char_of (48 + n mod 10)) - 48 = n mod (10::nat)"
    by (simp add: of_char_of take_bit_eq_mod)
  with 1 show ?case
    by (cases "n < 10") (subst decimal.simps; simp add: digits_value_snoc digits_value_def)+
qed

lemma digits_value_zeros: "digits_value (replicate k (CHR ''0'') @ s) = digits_value s"
proof -
  have "foldl (\<lambda>a c. 10 * a + (of_char c - 48)) (0::nat) (replicate k (CHR ''0'')) = 0"
    by (induction k) simp_all
  then show ?thesis by (simp add: digits_value_def)
qed

lemma finding_id_inj: "inj finding_id"
proof (rule injI)
  fix m n assume "finding_id m = finding_id n"
  then have "digits_value (drop 2 (finding_id m)) = digits_value (drop 2 (finding_id n))" by simp
  then show "m = n" by (simp add: finding_id_def digits_value_zeros digits_value_decimal)
qed

text \<open>
  stamping numbers the kept findings F-001, F-002, ... in order, so no two share an identifier,
  and never changes a verdict: the gate counts before and after stamping are the same.
\<close>

theorem stamping_ids_and_gates:
  "let keep = dedupKeep fs; stamped = stampFindings hash16 t fs keep flow;
       ids = map fID (keptFindings stamped keep) in
     ids = map finding_id [1..<Suc (length (filter id keep))] \<and> distinct ids \<and>
     CountGating t stamped = CountGating t fs"
proof -
  let ?k = "dedupKeep fs"
  have "map fID (keptFindings (stampFindings hash16 t fs ?k flow) ?k) =
      map finding_id [1..<Suc (length (filter id ?k))]"
    using stamp_loop_ids [of fs ?k hash16 t flow 0] by (simp add: stampFindings_def dedupKeep_def)
  moreover have "distinct (map finding_id [1..<Suc (length (filter id ?k))])"
    using inj_on_subset [OF finding_id_inj subset_UNIV] by (simp add: distinct_map del: upt_Suc)
  ultimately show ?thesis
    unfolding Let_def by (simp add: CountGating_def stampFindings_def stamp_loop_count del: upt_Suc)
qed

end
