(* ===== verification/Policy_Gate.thy ===== *)
theory Policy_Gate
  imports Findings
begin

text \<open>
  core/models/policy.go and core/analyzer/policy.go: governance policies and their evaluation
  against a report. Times are integers; the current time and the rule metadata are arguments.
  A missing report (a nil pointer) is \<open>None\<close>. The loop's maps are association lists.
\<close>

section \<open>Model\<close>

record PolicyRule =
  prRuleID :: string
  prEnabled :: bool
  prSeverity :: Severity
  prMaxCount :: "int option"

record PolicyWaiver =
  pwFindingKey :: string
  pwExpiresAt :: "int option"

record Policy =
  polID :: string
  polName :: string
  polRules :: "PolicyRule list"
  polGateSeverity :: Severity
  polWaivers :: "PolicyWaiver list"
  polMaxErrors :: "int option"
  polMaxWarnings :: "int option"
  polMaxInfo :: "int option"

definition or_zero :: "int option \<Rightarrow> int" where
  "or_zero b = (case b of None \<Rightarrow> 0 | Some n \<Rightarrow> n)"

definition BudgetFor :: "Policy \<Rightarrow> Severity \<Rightarrow> int" where
  "BudgetFor p sev =
     (if sev = SeverityError then or_zero (polMaxErrors p)
      else if sev = SeverityWarning then or_zero (polMaxWarnings p)
      else if sev = SeverityInfo then or_zero (polMaxInfo p)
      else 0)"

definition HasSeverityBudget :: "Policy \<Rightarrow> bool" where
  "HasSeverityBudget p \<longleftrightarrow> polMaxErrors p \<noteq> None \<or> polMaxWarnings p \<noteq> None \<or> polMaxInfo p \<noteq> None"

record PolicyResult =
  resPolicyID :: string
  resPolicyName :: string
  resPassed :: bool
  resViolations :: "Finding list"
  resErrors :: nat
  resWarnings :: nat
  resInfo :: nat
  resEvaluated :: nat
  resWaived :: nat
  resPreview :: nat

definition policySeverityRank :: "Severity \<Rightarrow> nat" where
  "policySeverityRank s =
     (if s = SeverityInfo then 1 else if s = SeverityWarning then 2 else if s = SeverityError then 3
      else 0)"

definition findingWaiverKey :: "Finding \<Rightarrow> string" where
  "findingWaiverKey f = (if fFingerprint f \<noteq> [] then fFingerprint f else Key f)"

text \<open>The three tables built before the loop; a later rule entry replaces an earlier one.\<close>

definition enabled_rules :: "Policy \<Rightarrow> (string \<times> Severity) list" where
  "enabled_rules p =
     foldl (\<lambda>m pr. if prEnabled pr then AList.update (prRuleID pr) (prSeverity pr) m else m) [] (polRules p)"

definition rule_budgets :: "Policy \<Rightarrow> (string \<times> int) list" where
  "rule_budgets p =
     foldl (\<lambda>m pr. case prMaxCount pr of
              Some n \<Rightarrow> if prEnabled pr then AList.update (prRuleID pr) n m else m
            | None \<Rightarrow> m) [] (polRules p)"

definition live_waivers :: "int \<Rightarrow> Policy \<Rightarrow> string list" where
  "live_waivers now p =
     map pwFindingKey (filter (\<lambda>w. case pwExpiresAt w of None \<Rightarrow> True | Some e \<Rightarrow> \<not> now > e) (polWaivers p))"

definition gate_rank :: "Policy \<Rightarrow> nat" where
  "gate_rank p = policySeverityRank (ToLower (TrimSpace (polGateSeverity p)))"

definition effective :: "Severity \<Rightarrow> Finding \<Rightarrow> Severity" where
  "effective override f =
     (let ov = NormalizeSeverity override
      in gateSeverity (if ov \<noteq> [] then ov else fSeverity f))"

record policyLoop =
  plResult :: PolicyResult
  plRuleOrdinal :: "(string \<times> nat) list"
  plSevOrdinal :: "(Severity \<times> nat) list"

definition ordinal :: "(string \<times> nat) list \<Rightarrow> string \<Rightarrow> nat" where
  "ordinal m k = (case map_of m k of None \<Rightarrow> 0 | Some n \<Rightarrow> n)"

definition count_severity :: "Severity \<Rightarrow> PolicyResult \<Rightarrow> PolicyResult" where
  "count_severity eff res =
     (let res = res\<lparr>resEvaluated := resEvaluated res + 1\<rparr> in
      if eff = SeverityError then res\<lparr>resErrors := resErrors res + 1\<rparr>
      else if eff = SeverityWarning then res\<lparr>resWarnings := resWarnings res + 1\<rparr>
      else if eff = SeverityInfo then res\<lparr>resInfo := resInfo res + 1\<rparr>
      else res)"

definition add_violation :: "bool \<Rightarrow> Severity \<Rightarrow> Finding \<Rightarrow> PolicyResult \<Rightarrow> PolicyResult" where
  "add_violation violates eff f res =
     (if violates then res\<lparr>resViolations := resViolations res @ [f\<lparr>fSeverity := eff\<rparr>]\<rparr> else res)"

definition policy_step ::
    "ruleMetaTable \<Rightarrow> int \<Rightarrow> Policy \<Rightarrow> policyLoop \<Rightarrow> Finding \<Rightarrow> policyLoop" where
  "policy_step t now p l f =
     (case map_of (enabled_rules p) (fRuleID f) of
        None \<Rightarrow> l
      | Some override \<Rightarrow>
        if \<not> gates t f then
          l\<lparr>plResult := (plResult l)\<lparr>resPreview := resPreview (plResult l) + 1\<rparr>\<rparr>
        else if findingWaiverKey f \<in> set (live_waivers now p) then
          l\<lparr>plResult := (plResult l)\<lparr>resWaived := resWaived (plResult l) + 1\<rparr>\<rparr>
        else
          (let eff = effective override f;
               res = count_severity eff (plResult l)
           in case map_of (rule_budgets p) (fRuleID f) of
                Some budget \<Rightarrow>
                  (let ord = ordinal (plRuleOrdinal l) (fRuleID f) in
                   \<lparr>plResult = add_violation (int ord \<ge> budget) eff f res,
                    plRuleOrdinal = AList.update (fRuleID f) (ord + 1) (plRuleOrdinal l),
                    plSevOrdinal = plSevOrdinal l\<rparr>)
              | None \<Rightarrow>
                  if gate_rank p > 0 \<and> policySeverityRank eff \<ge> gate_rank p then
                    (let ord = ordinal (plSevOrdinal l) eff in
                     \<lparr>plResult = add_violation (int ord \<ge> BudgetFor p eff) eff f res,
                      plRuleOrdinal = plRuleOrdinal l,
                      plSevOrdinal = AList.update eff (ord + 1) (plSevOrdinal l)\<rparr>)
                  else l\<lparr>plResult := res\<rparr>))"

definition initial_result :: "Policy \<Rightarrow> PolicyResult" where
  "initial_result p = \<lparr>resPolicyID = polID p, resPolicyName = polName p, resPassed = True,
     resViolations = [], resErrors = 0, resWarnings = 0, resInfo = 0, resEvaluated = 0,
     resWaived = 0, resPreview = 0\<rparr>"

definition policy_loop :: "ruleMetaTable \<Rightarrow> int \<Rightarrow> Policy \<Rightarrow> Finding list \<Rightarrow> policyLoop" where
  "policy_loop t now p fs =
     foldl (policy_step t now p)
       \<lparr>plResult = initial_result p, plRuleOrdinal = [], plSevOrdinal = []\<rparr> fs"

definition EvaluatePolicy ::
    "ruleMetaTable \<Rightarrow> int \<Rightarrow> Finding list option \<Rightarrow> Policy \<Rightarrow> PolicyResult" where
  "EvaluatePolicy t now report p =
     (case report of
        None \<Rightarrow> initial_result p
      | Some fs \<Rightarrow>
          (let res = plResult (policy_loop t now p fs)
           in res\<lparr>resPassed := (resViolations res = [])\<rparr>))"

section \<open>Which findings are evaluated, and how\<close>

definition in_policy :: "Policy \<Rightarrow> Finding \<Rightarrow> bool" where
  "in_policy p f \<longleftrightarrow> map_of (enabled_rules p) (fRuleID f) \<noteq> None"

definition eff_sev :: "Policy \<Rightarrow> Finding \<Rightarrow> Severity" where
  "eff_sev p f = effective (the (map_of (enabled_rules p) (fRuleID f))) f"

definition evaluated :: "ruleMetaTable \<Rightarrow> int \<Rightarrow> Policy \<Rightarrow> Finding \<Rightarrow> bool" where
  "evaluated t now p f \<longleftrightarrow> in_policy p f \<and> gates t f \<and> findingWaiverKey f \<notin> set (live_waivers now p)"

definition capped :: "Policy \<Rightarrow> Finding \<Rightarrow> bool" where
  "capped p f \<longleftrightarrow> map_of (rule_budgets p) (fRuleID f) \<noteq> None"

definition meets_gate :: "Policy \<Rightarrow> Severity \<Rightarrow> bool" where
  "meets_gate p s \<longleftrightarrow> gate_rank p > 0 \<and> policySeverityRank s \<ge> gate_rank p"

definition number :: "('a \<Rightarrow> bool) \<Rightarrow> 'a list \<Rightarrow> nat" where
  "number P xs = length (filter P xs)"

lemma number_simps [simp]: "number P [] = 0" "number P (xs @ ys) = number P xs + number P ys"
  "number P [x] = (if P x then 1 else 0)"
  by (simp_all add: number_def)

lemma ordinal_update [simp]:
  "ordinal (AList.update k v m) j = (if j = k then v else ordinal m j)"
  by (simp add: ordinal_def update_conv')

lemma effective_valid: "Valid (effective ov f)"
  by (simp add: effective_def Let_def gateSeverity_valid)

section \<open>The loop invariant\<close>

lemma count_severity_frame [simp]:
  "resViolations (count_severity eff res) = resViolations res"
  "resEvaluated (count_severity eff res) = resEvaluated res + 1"
  "resWaived (count_severity eff res) = resWaived res"
  "resPreview (count_severity eff res) = resPreview res"
  by (simp_all add: count_severity_def Let_def)

lemma add_violation_frame [simp]:
  "resEvaluated (add_violation b eff f res) = resEvaluated res"
  "resWaived (add_violation b eff f res) = resWaived res"
  "resPreview (add_violation b eff f res) = resPreview res"
  "resErrors (add_violation b eff f res) = resErrors res"
  "resWarnings (add_violation b eff f res) = resWarnings res"
  "resInfo (add_violation b eff f res) = resInfo res"
  "resViolations (add_violation b eff f res) =
     resViolations res @ (if b then [f\<lparr>fSeverity := eff\<rparr>] else [])"
  by (simp_all add: add_violation_def)

text \<open>What the accumulators say about the findings already seen.\<close>

definition loop_ok :: "ruleMetaTable \<Rightarrow> int \<Rightarrow> Policy \<Rightarrow> Finding list \<Rightarrow> policyLoop \<Rightarrow> bool" where
  "loop_ok t now p fs l \<longleftrightarrow>
     (\<forall>r. ordinal (plRuleOrdinal l) r =
        number (\<lambda>f. evaluated t now p f \<and> capped p f \<and> fRuleID f = r) fs) \<and>
     (\<forall>s. ordinal (plSevOrdinal l) s =
        number (\<lambda>f. evaluated t now p f \<and> \<not> capped p f \<and> meets_gate p s \<and> eff_sev p f = s) fs) \<and>
     (\<forall>r B. map_of (rule_budgets p) r = Some B \<longrightarrow>
        int (number (\<lambda>v. fRuleID v = r) (resViolations (plResult l))) =
          max 0 (int (ordinal (plRuleOrdinal l) r) - max 0 B)) \<and>
     (\<forall>s. int (number (\<lambda>v. \<not> capped p v \<and> fSeverity v = s) (resViolations (plResult l))) =
          max 0 (int (ordinal (plSevOrdinal l) s) - max 0 (BudgetFor p s))) \<and>
     (\<forall>v\<in>set (resViolations (plResult l)). (capped p v \<or> meets_gate p (fSeverity v)) \<and>
        (\<exists>f\<in>set fs. evaluated t now p f \<and> v = f\<lparr>fSeverity := eff_sev p f\<rparr>))"

lemma capped_severity [simp]: "capped p (f\<lparr>fSeverity := s\<rparr>) = capped p f"
  by (simp add: capped_def)

text \<open>The four ways a finding is handled.\<close>

lemma policy_step_cases:
  obtains (skip) "\<not> evaluated t now p f" "plRuleOrdinal (policy_step t now p l f) = plRuleOrdinal l"
      "plSevOrdinal (policy_step t now p l f) = plSevOrdinal l"
      "resViolations (plResult (policy_step t now p l f)) = resViolations (plResult l)"
  | (cap) B where "evaluated t now p f" "map_of (rule_budgets p) (fRuleID f) = Some B"
      "plRuleOrdinal (policy_step t now p l f) =
         AList.update (fRuleID f) (ordinal (plRuleOrdinal l) (fRuleID f) + 1) (plRuleOrdinal l)"
      "plSevOrdinal (policy_step t now p l f) = plSevOrdinal l"
      "resViolations (plResult (policy_step t now p l f)) = resViolations (plResult l) @
         (if int (ordinal (plRuleOrdinal l) (fRuleID f)) \<ge> B then [f\<lparr>fSeverity := eff_sev p f\<rparr>] else [])"
  | (gate) "evaluated t now p f" "\<not> capped p f" "meets_gate p (eff_sev p f)"
      "plRuleOrdinal (policy_step t now p l f) = plRuleOrdinal l"
      "plSevOrdinal (policy_step t now p l f) =
         AList.update (eff_sev p f) (ordinal (plSevOrdinal l) (eff_sev p f) + 1) (plSevOrdinal l)"
      "resViolations (plResult (policy_step t now p l f)) = resViolations (plResult l) @
         (if int (ordinal (plSevOrdinal l) (eff_sev p f)) \<ge> BudgetFor p (eff_sev p f)
          then [f\<lparr>fSeverity := eff_sev p f\<rparr>] else [])"
  | (below) "evaluated t now p f" "\<not> capped p f" "\<not> meets_gate p (eff_sev p f)"
      "plRuleOrdinal (policy_step t now p l f) = plRuleOrdinal l"
      "plSevOrdinal (policy_step t now p l f) = plSevOrdinal l"
      "resViolations (plResult (policy_step t now p l f)) = resViolations (plResult l)"
proof (cases "evaluated t now p f")
  case False
  then show ?thesis
    using skip by (auto simp: policy_step_def evaluated_def in_policy_def split: option.splits)
next
  case True
  then obtain ov where ov: "map_of (enabled_rules p) (fRuleID f) = Some ov" "gates t f"
    "findingWaiverKey f \<notin> set (live_waivers now p)" "eff_sev p f = effective ov f"
    by (auto simp: evaluated_def in_policy_def eff_sev_def)
  show ?thesis
  proof (cases "map_of (rule_budgets p) (fRuleID f)")
    case (Some B)
    with ov show ?thesis
      by (intro cap [OF True Some]) (auto simp: policy_step_def Let_def)
  next
    case None
    then have nc: "\<not> capped p f" by (simp add: capped_def)
    show ?thesis
    proof (cases "meets_gate p (eff_sev p f)")
      case m: True
      with True ov None nc show ?thesis
        by (intro gate) (simp_all add: policy_step_def Let_def meets_gate_def)
    next
      case False
      with True ov None nc show ?thesis
        by (intro below) (auto simp: policy_step_def Let_def meets_gate_def)
    qed
  qed
qed

lemma budget_step:
  "max 0 (int (n + 1) - max 0 B) = max 0 (int n - max 0 B) + (if int n \<ge> B then 1 else 0)"
  by (auto simp: max_def)

lemma loop_ok_step:
  assumes "loop_ok t now p fs l"
  shows "loop_ok t now p (fs @ [f]) (policy_step t now p l f)"
proof -
  let ?l = "policy_step t now p l f"
  note ok = assms [unfolded loop_ok_def]
  show ?thesis
  proof (cases rule: policy_step_cases [of t now p f l])
    case skip
    with ok show ?thesis unfolding loop_ok_def by auto
  next
    case below
    with ok show ?thesis unfolding loop_ok_def by auto
  next
    case (cap B)
    then have c: "capped p f" by (simp add: capped_def)
    have "int (number (\<lambda>v. fRuleID v = r) (resViolations (plResult ?l))) =
        max 0 (int (ordinal (plRuleOrdinal ?l) r) - max 0 B')"
      if "map_of (rule_budgets p) r = Some B'" for r B'
    proof -
      have "int (number (\<lambda>v. fRuleID v = r) (resViolations (plResult l))) =
          max 0 (int (ordinal (plRuleOrdinal l) r) - max 0 B')" using ok that by blast
      with cap that show ?thesis using budget_step [of "ordinal (plRuleOrdinal l) r" B'] by auto
    qed
    moreover have "\<forall>v\<in>set (resViolations (plResult ?l)). (capped p v \<or> meets_gate p (fSeverity v)) \<and>
        (\<exists>g\<in>set (fs @ [f]). evaluated t now p g \<and> v = g\<lparr>fSeverity := eff_sev p g\<rparr>)"
      using ok cap(1,5) c by (auto split: if_splits)
    ultimately show ?thesis using ok cap(1,3,4,5) c unfolding loop_ok_def by auto
  next
    case gate
    have "int (number (\<lambda>v. \<not> capped p v \<and> fSeverity v = s) (resViolations (plResult ?l))) =
        max 0 (int (ordinal (plSevOrdinal ?l) s) - max 0 (BudgetFor p s))" for s
    proof -
      have "int (number (\<lambda>v. \<not> capped p v \<and> fSeverity v = s) (resViolations (plResult l))) =
          max 0 (int (ordinal (plSevOrdinal l) s) - max 0 (BudgetFor p s))" using ok by blast
      with gate show ?thesis
        using budget_step [of "ordinal (plSevOrdinal l) s" "BudgetFor p s"] by auto
    qed
    moreover have "\<forall>v\<in>set (resViolations (plResult ?l)). (capped p v \<or> meets_gate p (fSeverity v)) \<and>
        (\<exists>g\<in>set (fs @ [f]). evaluated t now p g \<and> v = g\<lparr>fSeverity := eff_sev p g\<rparr>)"
      using ok gate(1,3,6) by (auto split: if_splits)
    moreover have "map_of (rule_budgets p) (fRuleID f) = None" using gate(2) by (simp add: capped_def)
    ultimately show ?thesis using ok gate unfolding loop_ok_def by auto
  qed
qed

lemma loop_ok_run: "loop_ok t now p fs (policy_loop t now p fs)"
proof (induction fs rule: rev_induct)
  case Nil
  show ?case by (simp add: loop_ok_def policy_loop_def ordinal_def initial_result_def)
next
  case (snoc f fs)
  then show ?case using loop_ok_step by (simp add: policy_loop_def)
qed

section \<open>Properties\<close>

definition counts_ok :: "ruleMetaTable \<Rightarrow> int \<Rightarrow> Policy \<Rightarrow> Finding list \<Rightarrow> PolicyResult \<Rightarrow> bool" where
  "counts_ok t now p fs r \<longleftrightarrow>
     resErrors r + resWarnings r + resInfo r = resEvaluated r \<and>
     resEvaluated r = number (evaluated t now p) fs \<and>
     resPreview r = number (\<lambda>f. in_policy p f \<and> \<not> gates t f) fs \<and>
     resEvaluated r + resWaived r + resPreview r = number (in_policy p) fs"

lemma count_severity_total:
  "Valid eff \<Longrightarrow> resErrors (count_severity eff r) + resWarnings (count_severity eff r) +
     resInfo (count_severity eff r) = Suc (resErrors r + resWarnings r + resInfo r)"
  by (auto simp: count_severity_def Let_def Valid_def)

lemma counts_ok_step:
  assumes "counts_ok t now p fs (plResult l)"
  shows "counts_ok t now p (fs @ [f]) (plResult (policy_step t now p l f))"
proof (cases "map_of (enabled_rules p) (fRuleID f)")
  case None
  with assms show ?thesis by (simp add: counts_ok_def policy_step_def evaluated_def in_policy_def)
next
  case (Some ov)
  consider "\<not> gates t f" | "gates t f" "findingWaiverKey f \<in> set (live_waivers now p)"
    | "gates t f" "findingWaiverKey f \<notin> set (live_waivers now p)" by blast
  then show ?thesis
    using assms Some count_severity_total [OF effective_valid, of ov f "plResult l"]
    by cases (auto simp: counts_ok_def policy_step_def evaluated_def in_policy_def Let_def
        split: option.split)
qed

lemma counts_ok_run: "counts_ok t now p fs (plResult (policy_loop t now p fs))"
proof (induction fs rule: rev_induct)
  case Nil
  show ?case by (simp add: counts_ok_def policy_loop_def initial_result_def)
next
  case (snoc f fs)
  then show ?case using counts_ok_step by (simp add: policy_loop_def)
qed

text \<open>
  a policy's counters account for every finding of its enabled rules exactly once: evaluated,
  waived or preview; and every evaluated finding is counted as an error, a warning or an info,
  whatever string its severity or the override is.
\<close>

theorem policy_counts_every_finding:
  "let r = EvaluatePolicy t now (Some fs) p in
     resErrors r + resWarnings r + resInfo r = resEvaluated r \<and>
     resEvaluated r = number (evaluated t now p) fs \<and>
     resEvaluated r + resWaived r + resPreview r = number (in_policy p) fs"
  using counts_ok_run [of t now p fs] by (simp add: EvaluatePolicy_def counts_ok_def Let_def)

text \<open>
  a rule's own budget is exact: of the evaluated findings of a rule with a cap of B, the first
  B are tolerated and every later one is a violation, whatever the gate and the severities.
\<close>

theorem rule_budget_exact:
  assumes "map_of (rule_budgets p) r = Some B"
  shows "int (number (\<lambda>v. fRuleID v = r) (resViolations (EvaluatePolicy t now (Some fs) p))) =
    max 0 (int (number (\<lambda>f. evaluated t now p f \<and> fRuleID f = r) fs) - max 0 B)"
proof -
  have "number (\<lambda>f. evaluated t now p f \<and> capped p f \<and> fRuleID f = r) fs =
      number (\<lambda>f. evaluated t now p f \<and> fRuleID f = r) fs"
    unfolding number_def using assms
    by (intro arg_cong [where f = length] filter_cong) (auto simp: capped_def)
  then show ?thesis
    using loop_ok_run [of t now p fs] assms unfolding loop_ok_def
    by (simp add: EvaluatePolicy_def Let_def)
qed

text \<open>
  the severity gate is exact: for a severity at or above the gate, of the evaluated findings
  of that effective severity from rules without a cap, as many violate as exceed the budget; below
  the gate, and for every severity of a report-only policy, none does.
\<close>

theorem severity_budget_exact:
  "int (number (\<lambda>v. \<not> capped p v \<and> fSeverity v = s) (resViolations (EvaluatePolicy t now (Some fs) p))) =
     (if meets_gate p s
      then max 0 (int (number (\<lambda>f. evaluated t now p f \<and> \<not> capped p f \<and> eff_sev p f = s) fs)
             - max 0 (BudgetFor p s))
      else 0)"
proof -
  let ?l = "policy_loop t now p fs"
  have ok: "int (number (\<lambda>v. \<not> capped p v \<and> fSeverity v = s) (resViolations (plResult ?l))) =
      max 0 (int (number (\<lambda>f. evaluated t now p f \<and> \<not> capped p f \<and> meets_gate p s \<and> eff_sev p f = s) fs)
        - max 0 (BudgetFor p s))"
    using loop_ok_run [of t now p fs] unfolding loop_ok_def by metis
  show ?thesis
    using ok by (cases "meets_gate p s") (simp_all add: EvaluatePolicy_def Let_def number_def max_def)
qed

text \<open>
  a violation is always a finding of the report that the policy evaluates: from an enabled
  rule, not a preview finding, not waived, with its effective severity; and the policy passes
  exactly when there is none.
\<close>

theorem policy_violations_sound:
  "let r = EvaluatePolicy t now (Some fs) p in
     (resPassed r \<longleftrightarrow> resViolations r = []) \<and>
     list_all (\<lambda>v. (capped p v \<or> meets_gate p (fSeverity v)) \<and>
       list_ex (\<lambda>f. evaluated t now p f \<and> v = f\<lparr>fSeverity := eff_sev p f\<rparr>) fs) (resViolations r)"
  using loop_ok_run [of t now p fs] unfolding loop_ok_def
  by (simp add: EvaluatePolicy_def Let_def list_all_iff list_ex_iff)

lemma policy_step_log: "prefix (resViolations (plResult l)) (resViolations (plResult (policy_step t now p l f)))"
  by (cases rule: policy_step_cases [of t now p f l]) auto

interpretation policy_log: growing_log "policy_step t now p" "\<lambda>l. resViolations (plResult l)"
  by unfold_locales (rule policy_step_log)

text \<open>
  a failed policy stays failed when a report only gains findings at its end: the violations of
  the shorter report are a prefix of the violations of the longer one.
\<close>

theorem policy_violations_monotone:
  "prefix (resViolations (EvaluatePolicy t now (Some fs) p))
     (resViolations (EvaluatePolicy t now (Some (fs @ gs)) p))"
  using policy_log.run_grows [of "policy_loop t now p fs" t now p gs]
  by (simp add: EvaluatePolicy_def Let_def policy_loop_def)

definition sample_policy :: "int option \<Rightarrow> Policy" where
  "sample_policy cap = \<lparr>polID = ''p'', polName = ''p'',
     polRules = [\<lparr>prRuleID = ''r'', prEnabled = True, prSeverity = [], prMaxCount = cap\<rparr>],
     polGateSeverity = [], polWaivers = [], polMaxErrors = None, polMaxWarnings = None,
     polMaxInfo = None\<rparr>"

theorem rule_budget_exact_witness:
  "int (number (\<lambda>v. fRuleID v = ''r'') (resViolations (EvaluatePolicy [] 0
     (Some [sample_finding ''r'' ''a'', sample_finding ''r'' ''b'']) (sample_policy (Some 1))))) = 1"
proof -
  have 1: "map_of (rule_budgets (sample_policy (Some 1))) ''r'' = Some 1" by code_simp
  have 2: "number (\<lambda>f. evaluated [] 0 (sample_policy (Some 1)) f \<and> fRuleID f = ''r'')
      [sample_finding ''r'' ''a'', sample_finding ''r'' ''b''] = 2" by code_simp
  show ?thesis
    using rule_budget_exact [OF 1, of "[]" 0 "[sample_finding ''r'' ''a'', sample_finding ''r'' ''b'']"] 2
    by simp
qed

text \<open>
  a policy without a gate severity is not always report-only: with a cap of zero on one of
  its rules it fails on the first finding of that rule.
\<close>

theorem report_only_policy_can_fail:
  "gate_rank (sample_policy (Some 0)) = 0 \<and>
   \<not> resPassed (EvaluatePolicy [] 0 (Some [sample_finding ''r'' ''a'']) (sample_policy (Some 0)))"
  by code_simp

end
