(* ===== verification/Analysis_Context.thy ===== *)
theory Analysis_Context
  imports Findings Parser_Correct
begin

text \<open>
  core/analyzer/facts.go and block_patterns.go: the structural indexes the rules read.
  \<open>collectBlocks\<close> fills them group by group; a group is the list of children of one block, or the
  top level of a subflow. Maps are association lists; a pointer to a block or a subflow is the
  block or the subflow it points to.
\<close>

section \<open>Vendor constructs\<close>

definition terminatorNames :: "string list" where
  "terminatorNames = [''ExitSubflow'', ''Exit subflow'', ''End flow'', ''EndFlow'', ''Return'',
     ''TerminateFlow'', ''EXIT'', ''EXIT FUNCTION'']"

definition exitLoopNames :: "string list" where
  "exitLoopNames = [''ExitLoop'', ''Exit loop'', ''Break'', ''Return'', ''End flow'', ''ExitSubflow'',
     ''Exit subflow'']"

definition isRawTypeWordByte :: "char \<Rightarrow> bool" where
  "isRawTypeWordByte c \<longleftrightarrow> c = CHR ''_'' \<or> is_lower c \<or> is_upper c \<or> is_digit c"

definition matchesRawTypeToken :: "string \<Rightarrow> string \<Rightarrow> bool" where
  "matchesRawTypeToken rawType p \<longleftrightarrow>
     (if length rawType < length p \<or> \<not> EqualFold (take (length p) rawType) p then False
      else if length rawType = length p then True
      else \<not> isRawTypeWordByte (rawType ! length p))"

definition matchesAny :: "block_info \<Rightarrow> string list \<Rightarrow> bool" where
  "matchesAny b patterns \<longleftrightarrow> bType b \<noteq> BlockTypeComment \<and>
     list_ex (\<lambda>p. EqualFold (TrimSpace (bName b)) p \<or> matchesRawTypeToken (bRawType b) p) patterns"

definition isTerminator :: "block_info \<Rightarrow> bool" where
  "isTerminator b \<longleftrightarrow> bType b = BlockTypeEnd \<or> matchesAny b terminatorNames"

definition isExitLoop :: "block_info \<Rightarrow> bool" where
  "isExitLoop b \<longleftrightarrow> matchesAny b exitLoopNames"

definition outputVar :: "block_info \<Rightarrow> string" where
  "outputVar b = (let v = getprop (bProperties b) ''_output''
     in if v \<noteq> [] then v else getprop (bProperties b) ''_var'')"

section \<open>Indexes\<close>

record RuleContext =
  ctxFlow :: FlowDocument
  AllBlocks :: "(string \<times> Block) list"
  ParentMap :: "(string \<times> string) list"
  SiblingMap :: "(string \<times> Block list) list"
  SiblingKey :: "(string \<times> string) list"
  BlockIndex :: "(string \<times> nat) list"
  TerminatorIndex :: "(string \<times> nat) list"
  BlockDepth :: "(string \<times> nat) list"
  WritersByVar :: "(string \<times> string list) list"
  ReadersByVar :: "(string \<times> string list) list"
  FirstReaderByVar :: "(string \<times> string) list"
  SubflowByID :: "(string \<times> Subflow) list"
  SubflowByName :: "(string \<times> Subflow) list"
  DescendantCount :: "(string \<times> nat) list"
  GroupHasHandler :: "(string \<times> bool) list"
  totalBlocks :: nat

definition empty_context :: "FlowDocument \<Rightarrow> RuleContext" where
  "empty_context flow = \<lparr>ctxFlow = flow, AllBlocks = [], ParentMap = [], SiblingMap = [], SiblingKey = [],
     BlockIndex = [], TerminatorIndex = [], BlockDepth = [], WritersByVar = [], ReadersByVar = [],
     FirstReaderByVar = [], SubflowByID = [], SubflowByName = [], DescendantCount = [],
     GroupHasHandler = [], totalBlocks = 0\<rparr>"

text \<open>Reading a missing key of a map gives the zero value.\<close>

definition list_at :: "(string \<times> 'a list) list \<Rightarrow> string \<Rightarrow> 'a list" where
  "list_at m k = (case map_of m k of None \<Rightarrow> [] | Some xs \<Rightarrow> xs)"

definition nat_at :: "(string \<times> nat) list \<Rightarrow> string \<Rightarrow> nat" where
  "nat_at m k = (case map_of m k of None \<Rightarrow> 0 | Some n \<Rightarrow> n)"

definition append_at :: "string \<Rightarrow> 'a \<Rightarrow> (string \<times> 'a list) list \<Rightarrow> (string \<times> 'a list) list" where
  "append_at k x m = AList.update k (list_at m k @ [x]) m"

definition not_end :: "Block \<Rightarrow> bool" where
  "not_end b \<longleftrightarrow> bType (binfo b) \<noteq> BlockTypeEnd"

text \<open>What the loop over a group records for its \<open>i\<close>-th block.\<close>

definition index_writes :: "block_info \<Rightarrow> (string \<times> string list) list \<Rightarrow> (string \<times> string list) list" where
  "index_writes b m =
     (let out = getprop (bProperties b) ''_output''; v = getprop (bProperties b) ''_var'';
          m = (if out \<noteq> [] then append_at out (bID b) m else m)
      in if v \<noteq> [] then append_at v (bID b) m else m)"

definition index_reads :: "block_info \<Rightarrow> (string \<times> string list) list \<Rightarrow> (string \<times> string list) list" where
  "index_reads b m = foldl (\<lambda>m v. append_at v (bID b) m) m (bVariables b)"

definition index_block ::
    "string \<Rightarrow> string \<Rightarrow> nat \<Rightarrow> RuleContext \<Rightarrow> nat \<times> Block \<Rightarrow> RuleContext" where
  "index_block parentID siblingKey depth ctx ib =
     (case ib of (i, blk) \<Rightarrow> let b = binfo blk in
      ctx\<lparr>BlockIndex := AList.update (bID b) i (BlockIndex ctx),
          SiblingKey := AList.update (bID b) siblingKey (SiblingKey ctx),
          AllBlocks := AList.update (bID b) blk (AllBlocks ctx),
          ParentMap := (if parentID \<noteq> [] then AList.update (bID b) parentID (ParentMap ctx) else ParentMap ctx),
          BlockDepth := AList.update (bID b) depth (BlockDepth ctx),
          totalBlocks := totalBlocks ctx + 1,
          WritersByVar := index_writes b (WritersByVar ctx),
          ReadersByVar := index_reads b (ReadersByVar ctx)\<rparr>)"

definition first_terminator :: "Block list \<Rightarrow> nat option" where
  "first_terminator ptrs = map_option fst (find (\<lambda>(i, b). isTerminator (binfo b)) (enumerate 0 ptrs))"

definition index_group ::
    "RuleContext \<Rightarrow> Block list \<Rightarrow> string \<Rightarrow> string \<Rightarrow> nat \<Rightarrow> RuleContext" where
  "index_group ctx blocks parentID subflowID depth =
     (let ptrs = filter not_end blocks;
          siblingKey = (if parentID = [] then subflowID else parentID);
          ctx = foldl (index_block parentID siblingKey depth) ctx (enumerate 0 ptrs);
          ctx = ctx\<lparr>SiblingMap := AList.update siblingKey ptrs (SiblingMap ctx)\<rparr>;
          ctx = (case first_terminator ptrs of
                   Some i \<Rightarrow> ctx\<lparr>TerminatorIndex := AList.update siblingKey i (TerminatorIndex ctx)\<rparr>
                 | None \<Rightarrow> ctx)
      in if list_ex (\<lambda>b. bType (binfo b) = BlockTypeErrorHandler) ptrs
         then ctx\<lparr>GroupHasHandler := AList.update siblingKey True (GroupHasHandler ctx)\<rparr> else ctx)"

definition credit_descendants :: "RuleContext \<Rightarrow> Block list \<Rightarrow> string \<Rightarrow> RuleContext" where
  "credit_descendants ctx blocks parentID =
     (let subtree = sum_list (map (\<lambda>b.
            (if bType (binfo b) \<noteq> BlockTypeEnd \<and> bType (binfo b) \<noteq> BlockTypeComment then 1 else 0)
            + nat_at (DescendantCount ctx) (bID (binfo b))) blocks)
      in if parentID \<noteq> [] then ctx\<lparr>DescendantCount := AList.update parentID subtree (DescendantCount ctx)\<rparr>
         else ctx)"

lemma size_Block_children [termination_simp]: "size_list size cs < Suc (size_list size cs)"
  by simp

function (sequential) collectBlocks :: "RuleContext \<Rightarrow> Block list \<Rightarrow> string \<Rightarrow> string \<Rightarrow> nat \<Rightarrow> RuleContext"
  and collect_children :: "RuleContext \<Rightarrow> Block list \<Rightarrow> string \<Rightarrow> nat \<Rightarrow> RuleContext" where
  "collectBlocks ctx blocks parentID subflowID depth =
     credit_descendants
       (collect_children (index_group ctx blocks parentID subflowID depth) blocks subflowID depth)
       blocks parentID"
| "collect_children ctx [] subflowID depth = ctx"
| "collect_children ctx (Block b cs # bs) subflowID depth =
     collect_children
       (if cs \<noteq> [] then collectBlocks ctx cs (bID b) subflowID (depth + 1) else ctx) bs subflowID depth"
  by pat_completeness auto
termination
  by (relation "measure (case_sum (\<lambda>(_, bs, _). 2 * size_list size bs + 1) (\<lambda>(_, bs, _). 2 * size_list size bs))")
    auto

declare collectBlocks.simps [simp del]

definition context_subflow :: "RuleContext \<Rightarrow> Subflow \<Rightarrow> RuleContext" where
  "context_subflow ctx sf =
     (let ctx = collectBlocks ctx (sfBlocks sf) [] (sfID sf) 0 in
      ctx\<lparr>SubflowByID := AList.update (sfID sf) sf (SubflowByID ctx),
          SubflowByName := (if map_of (SubflowByName ctx) (sfName sf) = None
                            then AList.update (sfName sf) sf (SubflowByName ctx) else SubflowByName ctx)\<rparr>)"

definition earliest_step :: "RuleContext \<Rightarrow> (nat \<times> string) option \<Rightarrow> string \<Rightarrow> (nat \<times> string) option" where
  "earliest_step ctx best k =
     (case map_of (AllBlocks ctx) k of
        None \<Rightarrow> best
      | Some b \<Rightarrow>
          (case best of
             None \<Rightarrow> Some (bLineNumber (binfo b), k)
           | Some (l, _) \<Rightarrow> if bLineNumber (binfo b) < l then Some (bLineNumber (binfo b), k) else best))"

definition first_reader :: "RuleContext \<Rightarrow> string list \<Rightarrow> string" where
  "first_reader ctx ids = (case foldl (earliest_step ctx) None ids of None \<Rightarrow> [] | Some (_, k) \<Rightarrow> k)"

definition buildContext :: "FlowDocument \<Rightarrow> RuleContext" where
  "buildContext flow =
     (let ctx = foldl context_subflow (empty_context flow) (Subflows flow) in
      ctx\<lparr>FirstReaderByVar := map (\<lambda>(v, ids). (v, first_reader ctx ids)) (ReadersByVar ctx)\<rparr>)"

section \<open>Accessors\<close>

definition walkBlocks :: "FlowDocument \<Rightarrow> Block list" where
  "walkBlocks flow = doc_blocks (Subflows flow)"

definition docPosition :: "RuleContext \<Rightarrow> (string \<times> nat) list" where
  "docPosition ctx =
     foldl (\<lambda>pos (n, b). if map_of pos (bID (binfo b)) = None then AList.update (bID (binfo b)) n pos else pos)
       [] (enumerate 0 (walkBlocks (ctxFlow ctx)))"

definition GetSiblings :: "RuleContext \<Rightarrow> block_info \<Rightarrow> Block list" where
  "GetSiblings ctx b = list_at (SiblingMap ctx)
     (case map_of (SiblingKey ctx) (bID b) of None \<Rightarrow> [] | Some k \<Rightarrow> k)"

definition siblingPosition :: "RuleContext \<Rightarrow> block_info \<Rightarrow> (Block list \<times> nat) option" where
  "siblingPosition ctx b =
     (let siblings = GetSiblings ctx b in
      case map_of (BlockIndex ctx) (bID b) of
        None \<Rightarrow> None
      | Some idx \<Rightarrow>
          if idx \<ge> length siblings \<or> bID (binfo (siblings ! idx)) \<noteq> bID b then None else Some (siblings, idx))"

definition GetParent :: "RuleContext \<Rightarrow> block_info \<Rightarrow> Block option" where
  "GetParent ctx b = (case map_of (ParentMap ctx) (bID b) of
     None \<Rightarrow> None | Some pid \<Rightarrow> map_of (AllBlocks ctx) pid)"

section \<open>What indexing leaves alone\<close>

lemma collect_frame:
  "ctxFlow (collectBlocks ctx bs p s d) = ctxFlow ctx \<and> SubflowByID (collectBlocks ctx bs p s d) = SubflowByID ctx"
  "ctxFlow (collect_children ctx bs s d) = ctxFlow ctx \<and> SubflowByID (collect_children ctx bs s d) = SubflowByID ctx"
proof (induction ctx bs p s d and ctx bs s d rule: collectBlocks_collect_children.induct)
  case (1 ctx blocks parentID subflowID depth)
  have "ctxFlow (foldl (index_block a b c) x ys) = ctxFlow x \<and> SubflowByID (foldl (index_block a b c) x ys) = SubflowByID x" for a b c x ys
    by (induction ys arbitrary: x) (auto simp: index_block_def Let_def)
  then have "ctxFlow (index_group ctx blocks parentID subflowID depth) = ctxFlow ctx \<and>
      SubflowByID (index_group ctx blocks parentID subflowID depth) = SubflowByID ctx"
    by (simp add: index_group_def Let_def split: option.split)
  with 1 show ?case by (cases "parentID = []") (simp_all add: collectBlocks.simps credit_descendants_def Let_def)
qed simp_all

lemma ctxFlow_buildContext [simp]: "ctxFlow (buildContext flow) = flow"
proof -
  have "ctxFlow (foldl context_subflow x sfs) = ctxFlow x" for x sfs
    by (induction sfs arbitrary: x) (simp_all add: context_subflow_def Let_def collect_frame)
  then show ?thesis by (simp add: buildContext_def Let_def empty_context_def)
qed

end
