(* ===== verification/Suppress.thy ===== *)
theory Suppress
  imports Findings Go_Regexp
begin

text \<open>
  core/analyzer/suppress.go: inline \<open>pad-ignore\<close> directives. A set of rule identifiers is a list
  without repetitions; a map from block to rule set is an association list. \<open>walk\<close> is the
  recursive closure of \<open>collectInlineSuppressions\<close>.
\<close>

section \<open>Model\<close>

subsection \<open>Directives\<close>

definition rePadIgnoreRules :: rx where
  "rePadIgnoreRules = seqs [WordB, lit_ci ''pad-ignore'', Opt (lit_ci ''-next-line''), chr (CHR ''[''),
     Grp 1 (Star (Cls (\<lambda>c. c \<noteq> CHR '']''))), chr (CHR '']'')]"

definition rePadIgnoreAll :: rx where
  "rePadIgnoreAll = seqs [Bot, lit_ci ''pad-ignore'', Opt (lit_ci ''-next-line''), Eot]"

definition suppressAll :: string where
  "suppressAll = ''*''"

text \<open>\<open>None\<close>: no directive; \<open>Some (all, rules)\<close> otherwise.\<close>

definition directive_text :: "string \<Rightarrow> string" where
  "directive_text s = TrimSpace (TrimSuffix (TrimPrefix (TrimSpace s) ''/#'') ''#/'')"

definition parsePadIgnore :: "string \<Rightarrow> (bool \<times> string list) option" where
  "parsePadIgnore s =
     (let t = directive_text s in
      case FindStringSubmatch rePadIgnoreRules t of
        None \<Rightarrow> if MatchString rePadIgnoreAll t then Some (True, []) else None
      | Some m \<Rightarrow>
          (let inside = TrimSpace (group_text m 1) in
           if inside = [] then Some (True, [])
           else (let rules = filter (\<lambda>p. p \<noteq> [])
                       (map (\<lambda>part. ToLower (TrimSpace part)) (SplitByte inside (CHR '','')))
                 in if rules = [] then Some (True, []) else Some (False, rules))))"

subsection \<open>Scopes\<close>

type_synonym rule_set = "string list"

record inlineSuppressions =
  isBlocks :: "(string \<times> rule_set) list"
  isSubflows :: "(string \<times> rule_set) list"
  isFile :: rule_set

definition ruleSetHas :: "rule_set \<Rightarrow> string \<Rightarrow> bool" where
  "ruleSetHas rs rule \<longleftrightarrow> suppressAll \<in> set rs \<or> rule \<in> set rs"

text \<open>Reading a missing key gives the nil map, which has no member.\<close>

definition rules_at :: "(string \<times> rule_set) list \<Rightarrow> string \<Rightarrow> rule_set" where
  "rules_at m k = (case map_of m k of None \<Rightarrow> [] | Some rs \<Rightarrow> rs)"

definition suppressions_empty :: "inlineSuppressions \<Rightarrow> bool" where
  "suppressions_empty s \<longleftrightarrow> isBlocks s = [] \<and> isSubflows s = [] \<and> isFile s = []"

definition suppresses :: "inlineSuppressions \<Rightarrow> Finding \<Rightarrow> bool" where
  "suppresses s f \<longleftrightarrow>
     (if ruleSetHas (rules_at (isBlocks s) (fBlockID f)) (fRuleID f) then True
      else if fBlockID f \<noteq> [] then False
      else ruleSetHas (rules_at (isSubflows s) (fSubflowID f)) (fRuleID f) \<or>
           ruleSetHas (isFile s) (fRuleID f))"

definition union_rules :: "rule_set \<Rightarrow> string list \<Rightarrow> rule_set" where
  "union_rules rs xs = foldl (\<lambda>acc r. List.insert r acc) rs xs"

definition mergeDirective :: "rule_set \<Rightarrow> bool \<times> string list \<Rightarrow> rule_set" where
  "mergeDirective rs d = union_rules (if fst d then List.insert suppressAll rs else rs) (snd d)"

definition mergeRuleSet :: "(string \<times> rule_set) list \<Rightarrow> string \<Rightarrow> rule_set \<Rightarrow> (string \<times> rule_set) list" where
  "mergeRuleSet dst k src = AList.update k (union_rules (rules_at dst k) src) dst"

definition is_comment :: "Block \<Rightarrow> bool" where
  "is_comment b \<longleftrightarrow> bType (binfo b) = BlockTypeComment"

definition leadingCommentIDs :: "Block list \<Rightarrow> string list" where
  "leadingCommentIDs bs = map (bID \<circ> binfo) (takeWhile is_comment bs)"

text \<open>
  One sibling group: the directives pending for the next block, whether the group's leading
  comments are still being read, the header so far, and the block map. Nested groups have no
  header.
\<close>

fun walk_loop ::
    "Block list \<Rightarrow> rule_set \<Rightarrow> bool \<Rightarrow> rule_set \<Rightarrow> (string \<times> rule_set) list \<Rightarrow> rule_set \<times> (string \<times> rule_set) list" where
  "walk_loop [] pending inHeader header m = (header, m)"
| "walk_loop (Block b cs # bs) pending inHeader header m =
     (if bType b = BlockTypeComment then
        (case parsePadIgnore (bName b) of
           Some d \<Rightarrow> walk_loop bs (mergeDirective pending d) inHeader
                       (if inHeader then mergeDirective header d else header) m
         | None \<Rightarrow> walk_loop bs pending inHeader header m)
      else
        (let m = (if pending \<noteq> [] then mergeRuleSet m (bID b) pending else m);
             m = (if cs \<noteq> [] then snd (walk_loop cs [] False [] m) else m)
         in walk_loop bs [] False header m))"

definition walk :: "Block list \<Rightarrow> (string \<times> rule_set) list \<Rightarrow> rule_set \<times> (string \<times> rule_set) list" where
  "walk bs m =
     (case walk_loop bs [] True [] m of
        (header, m) \<Rightarrow>
          (header,
           if header \<noteq> [] then foldl (\<lambda>m i. mergeRuleSet m i header) m (leadingCommentIDs bs) else m))"

definition collect_step :: "inlineSuppressions \<times> bool \<Rightarrow> Subflow \<Rightarrow> inlineSuppressions \<times> bool" where
  "collect_step st sf =
     (case st of (supp, fileScoped) \<Rightarrow>
      case walk (sfBlocks sf) (isBlocks supp) of (header, m) \<Rightarrow>
        (let supp = supp\<lparr>isBlocks := m\<rparr>;
             supp = (if header \<noteq> [] then
                       supp\<lparr>isSubflows := AList.update (sfID sf) header (isSubflows supp)\<rparr> else supp)
         in if \<not> fileScoped \<and> sfBlocks sf \<noteq> []
            then (if header \<noteq> [] then supp\<lparr>isFile := header\<rparr> else supp, True)
            else (supp, fileScoped)))"

definition no_suppressions :: inlineSuppressions where
  "no_suppressions = \<lparr>isBlocks = [], isSubflows = [], isFile = []\<rparr>"

definition collectInlineSuppressions :: "FlowDocument \<Rightarrow> inlineSuppressions" where
  "collectInlineSuppressions flow = fst (foldl collect_step (no_suppressions, False) (Subflows flow))"

definition applyInlineSuppressions :: "Finding list \<Rightarrow> inlineSuppressions \<Rightarrow> Finding list \<times> nat" where
  "applyInlineSuppressions fs supp =
     (if suppressions_empty supp then (fs, 0)
      else (filter (\<lambda>f. \<not> suppresses supp f) fs, length (filter (suppresses supp) fs)))"

section \<open>Sets of rules\<close>

lemma set_union_rules [simp]: "set (union_rules rs xs) = set rs \<union> set xs"
  unfolding union_rules_def by (induction xs arbitrary: rs) auto

lemma set_mergeDirective [simp]:
  "set (mergeDirective rs d) = set rs \<union> (if fst d then {suppressAll} else {}) \<union> set (snd d)"
  by (simp add: mergeDirective_def)

lemma rules_at_merge [simp]:
  "set (rules_at (mergeRuleSet m k src) j) = set (rules_at m j) \<union> (if j = k then set src else {})"
  by (auto simp: rules_at_def mergeRuleSet_def update_conv' split: option.split)

lemma rules_at_update [simp]: "rules_at (AList.update k v m) j = (if j = k then v else rules_at m j)"
  by (simp add: rules_at_def update_conv')

lemma rules_at_Nil [simp]: "rules_at [] k = []"
  by (simp add: rules_at_def)

definition has_rule :: "string set \<Rightarrow> string \<Rightarrow> bool" where
  "has_rule R rule \<longleftrightarrow> suppressAll \<in> R \<or> rule \<in> R"

lemma ruleSetHas_set: "ruleSetHas rs rule = has_rule (set rs) rule"
  by (simp add: ruleSetHas_def has_rule_def)

section \<open>What a directive reaches\<close>

text \<open>
  The specification of next-block scope: for every block that is not a comment, in the order of
  the walk, the rules named by the directives among the comments just before it in its own
  sibling group.
\<close>

definition directive_rules :: "Block \<Rightarrow> string set" where
  "directive_rules b =
     (if is_comment b then
        (case parsePadIgnore (bName (binfo b)) of
           None \<Rightarrow> {}
         | Some d \<Rightarrow> (if fst d then {suppressAll} else {}) \<union> set (snd d))
      else {})"

fun targets :: "string set \<Rightarrow> Block list \<Rightarrow> (string \<times> string set) list" where
  "targets pending [] = []"
| "targets pending (Block b cs # bs) =
     (if bType b = BlockTypeComment then targets (pending \<union> directive_rules (Block b cs)) bs
      else (bID b, pending) # targets {} cs @ targets {} bs)"

definition reached :: "(string \<times> string set) list \<Rightarrow> string \<Rightarrow> string set" where
  "reached ts k = \<Union> (snd ` {t \<in> set ts. fst t = k})"

lemma reached_simps [simp]:
  "reached [] k = {}" "reached (ts @ us) k = reached ts k \<union> reached us k"
  "reached (t # ts) k = (if fst t = k then snd t else {}) \<union> reached ts k"
  by (auto simp: reached_def)

lemma walk_loop_blocks:
  "set (rules_at (snd (walk_loop bs pending inHeader header m)) k) =
     set (rules_at m k) \<union> reached (targets (set pending) bs) k"
proof (induction bs pending inHeader header m rule: walk_loop.induct)
  case (2 b cs bs pending inHeader header m)
  show ?case
  proof (cases "bType b = BlockTypeComment")
    case True
    then show ?thesis using 2(1,2)
      by (cases "parsePadIgnore (bName b)") (simp_all add: directive_rules_def is_comment_def Un_assoc)
  next
    case False
    let ?m1 = "if pending \<noteq> [] then mergeRuleSet m (bID b) pending else m"
    let ?m2 = "if cs \<noteq> [] then snd (walk_loop cs [] False [] ?m1) else ?m1"
    have m1: "set (rules_at ?m1 k) = set (rules_at m k) \<union> (if bID b = k then set pending else {})"
      by auto
    have m2: "set (rules_at ?m2 k) = set (rules_at ?m1 k) \<union> reached (targets {} cs) k"
      using 2(3) [OF False refl] by (cases "cs = []") auto
    have "set (rules_at (snd (walk_loop bs [] False header ?m2)) k) =
        set (rules_at ?m2 k) \<union> reached (targets {} bs) k"
      using 2(4) [OF False refl refl] by simp
    with False m1 m2 show ?thesis by (auto simp: Let_def)
  qed
qed simp

definition header_rules :: "Block list \<Rightarrow> string set" where
  "header_rules bs = \<Union> (directive_rules ` set (takeWhile is_comment bs))"

lemma header_rules_simps [simp]:
  "header_rules [] = {}"
  "header_rules (b # bs) = (if is_comment b then directive_rules b \<union> header_rules bs else {})"
  by (auto simp: header_rules_def)

lemma walk_loop_header:
  "set (fst (walk_loop bs pending inHeader header m)) =
     set header \<union> (if inHeader then header_rules bs else {})"
proof (induction bs pending inHeader header m rule: walk_loop.induct)
  case (2 b cs bs pending inHeader header m)
  show ?case
  proof (cases "bType b = BlockTypeComment")
    case True
    then show ?thesis using 2(1,2)
      by (cases "parsePadIgnore (bName b)") (auto simp: directive_rules_def is_comment_def)
  next
    case False
    then show ?thesis using 2(4) [OF False refl refl] by (auto simp: is_comment_def Let_def)
  qed
qed simp

lemma merge_many:
  "set (rules_at (foldl (\<lambda>m i. mergeRuleSet m i rs) m ids) k) =
     set (rules_at m k) \<union> (if k \<in> set ids then set rs else {})"
  by (induction ids arbitrary: m) auto

text \<open>Everything a subflow's directives say about block \<open>k\<close>.\<close>

definition block_rules :: "Subflow \<Rightarrow> string \<Rightarrow> string set" where
  "block_rules sf k = reached (targets {} (sfBlocks sf)) k \<union>
     (if k \<in> set (leadingCommentIDs (sfBlocks sf)) then header_rules (sfBlocks sf) else {})"

lemma walk_spec:
  "set (fst (walk bs m)) = header_rules bs"
  "set (rules_at (snd (walk bs m)) k) = set (rules_at m k) \<union> reached (targets {} bs) k \<union>
     (if k \<in> set (leadingCommentIDs bs) then header_rules bs else {})"
proof -
  obtain h m' where w: "walk_loop bs [] True [] m = (h, m')" by force
  have h: "set h = header_rules bs" using walk_loop_header [of bs "[]" True "[]" m] w by simp
  have m': "set (rules_at m' k) = set (rules_at m k) \<union> reached (targets {} bs) k"
    using walk_loop_blocks [of bs "[]" True "[]" m k] w by simp
  show "set (fst (walk bs m)) = header_rules bs" using h by (simp add: walk_def w)
  show "set (rules_at (snd (walk bs m)) k) = set (rules_at m k) \<union> reached (targets {} bs) k \<union>
     (if k \<in> set (leadingCommentIDs bs) then header_rules bs else {})"
    using h m' by (cases "h = []") (auto simp: walk_def w merge_many)
qed

definition first_header :: "Subflow list \<Rightarrow> string set" where
  "first_header sfs = (case filter (\<lambda>sf. sfBlocks sf \<noteq> []) sfs of [] \<Rightarrow> {} | sf # _ \<Rightarrow> header_rules (sfBlocks sf))"

definition collect_ok :: "Subflow list \<Rightarrow> inlineSuppressions \<times> bool \<Rightarrow> bool" where
  "collect_ok sfs st \<longleftrightarrow>
     (\<forall>k. set (rules_at (isBlocks (fst st)) k) = (\<Union>sf\<in>set sfs. block_rules sf k)) \<and>
     (\<forall>k. set (rules_at (isSubflows (fst st)) k) = (\<Union>sf\<in>{sf \<in> set sfs. sfID sf = k}. header_rules (sfBlocks sf))) \<and>
     set (isFile (fst st)) = first_header sfs \<and>
     (snd st \<longleftrightarrow> list_ex (\<lambda>sf. sfBlocks sf \<noteq> []) sfs)"

lemma collect_ok_step:
  assumes ok: "collect_ok sfs st" and new: "sfID sf \<notin> sfID ` set sfs"
  shows "collect_ok (sfs @ [sf]) (collect_step st sf)"
proof -
  obtain supp fs where st: "st = (supp, fs)" by force
  obtain h m where w: "walk (sfBlocks sf) (isBlocks supp) = (h, m)" by force
  note ws = walk_spec [of "sfBlocks sf" "isBlocks supp", unfolded w]
  have b: "isBlocks (fst (collect_step st sf)) = m"
    by (simp add: st collect_step_def w Let_def)
  have s: "isSubflows (fst (collect_step st sf)) =
      (if h \<noteq> [] then AList.update (sfID sf) h (isSubflows supp) else isSubflows supp)"
    by (simp add: st collect_step_def w Let_def)
  have f: "isFile (fst (collect_step st sf)) = (if \<not> fs \<and> sfBlocks sf \<noteq> [] \<and> h \<noteq> [] then h else isFile supp)"
    by (simp add: st collect_step_def w Let_def)
  have fl: "snd (collect_step st sf) = (fs \<or> sfBlocks sf \<noteq> [])"
    by (simp add: st collect_step_def w Let_def)
  have hd: "set h = header_rules (sfBlocks sf)" using ws(1) by simp
  have "set (rules_at m k) = (\<Union>sf\<in>set (sfs @ [sf]). block_rules sf k)" for k
  proof -
    have "set (rules_at (isBlocks supp) k) = (\<Union>sf\<in>set sfs. block_rules sf k)"
      using ok by (simp add: collect_ok_def st)
    then show ?thesis using ws(2) [of k] by (auto simp: block_rules_def)
  qed
  moreover have "set (rules_at (isSubflows (fst (collect_step st sf))) k) =
      (\<Union>sf\<in>{s \<in> set (sfs @ [sf]). sfID s = k}. header_rules (sfBlocks sf))" for k
  proof -
    have old: "set (rules_at (isSubflows supp) k) = (\<Union>sf\<in>{sf \<in> set sfs. sfID sf = k}. header_rules (sfBlocks sf))"
      using ok by (simp add: collect_ok_def st)
    have "{s \<in> set sfs. sfID s = sfID sf} = {}" using new by (metis (mono_tags, lifting) Collect_empty_eq imageI)
    then have e: "sfID sf = k \<Longrightarrow> {s \<in> set sfs. sfID s = k} = {}" by (simp only:)
    with old have none: "sfID sf = k \<Longrightarrow> rules_at (isSubflows supp) k = []"
      by (simp only: UN_empty set_empty)
    have split: "{s \<in> set (sfs @ [sf]). sfID s = k} = {s \<in> set sfs. sfID s = k} \<union> (if sfID sf = k then {sf} else {})"
      by auto
    show ?thesis
    proof (cases "sfID sf = k")
      case True
      with none [OF True] hd show ?thesis unfolding split s e [OF True] by auto
    next
      case False
      with old show ?thesis unfolding split s by auto
    qed
  qed
  moreover have "set (isFile (fst (collect_step st sf))) = first_header (sfs @ [sf])"
    using ok hd unfolding f by (auto simp: collect_ok_def st first_header_def list_ex_iff filter_empty_conv
        split: list.splits)
  ultimately show ?thesis
    using ok unfolding collect_ok_def b fl by (simp add: st)
qed

lemma collect_ok_run:
  "distinct (map sfID sfs) \<Longrightarrow> collect_ok sfs (foldl collect_step (no_suppressions, False) sfs)"
proof (induction sfs rule: rev_induct)
  case Nil
  show ?case by (simp add: collect_ok_def no_suppressions_def first_header_def)
next
  case (snoc sf sfs)
  then show ?case by (simp add: collect_ok_step)
qed

section \<open>Properties\<close>

lemma empty_suppresses_nothing: "suppressions_empty supp \<Longrightarrow> \<not> suppresses supp f"
  by (simp add: suppressions_empty_def suppresses_def ruleSetHas_def)

lemma apply_filter:
  "applyInlineSuppressions fs supp =
     (filter (\<lambda>f. \<not> suppresses supp f) fs, length (filter (suppresses supp) fs))"
  by (auto simp: applyInlineSuppressions_def empty_suppresses_nothing filter_id_conv)

interpretation suppression: filtering_stage "\<lambda>fs. fst (applyInlineSuppressions fs supp)"
    "\<lambda>fs i. \<not> suppresses supp (fs ! i)"
  by unfold_locales
    (simp add: apply_filter nths_filter_all [where P = "\<lambda>f. \<not> suppresses supp f"])

text \<open>
  applying suppressions removes exactly the suppressed findings, keeps the order of the rest,
  and the reported count is the number removed: kept plus suppressed is the number of findings.
\<close>

theorem suppression_counts:
  "let (kept, n) = applyInlineSuppressions fs supp in
     subseq kept fs \<and> kept = filter (\<lambda>f. \<not> suppresses supp f) fs \<and> length kept + n = length fs"
  using suppression.stage_subseq [of fs supp] sum_length_filter_compl [of "suppresses supp" fs]
  by (simp add: apply_filter)

text \<open>
  what a directive reaches. A finding on a block is suppressed exactly when a directive names
  its rule (or all rules) and the directive is among the comments immediately before that block
  in the same sibling group, or among the header comments of its subflow when the block is itself
  one of them. Only a finding without a block is also covered by the header of its subflow and by
  the header of the first subflow that has blocks.
\<close>

theorem suppression_scope:
  assumes "distinct (map sfID (Subflows flow))"
  shows "suppresses (collectInlineSuppressions flow) f \<longleftrightarrow>
    has_rule (\<Union>sf\<in>set (Subflows flow). block_rules sf (fBlockID f)) (fRuleID f) \<or>
    fBlockID f = [] \<and>
      (has_rule (\<Union>sf\<in>{sf \<in> set (Subflows flow). sfID sf = fSubflowID f}. header_rules (sfBlocks sf)) (fRuleID f) \<or>
       has_rule (first_header (Subflows flow)) (fRuleID f))"
  using collect_ok_run [OF assms] unfolding collect_ok_def
  by (simp add: suppresses_def collectInlineSuppressions_def ruleSetHas_set)

definition note_block :: "BlockType \<Rightarrow> string \<Rightarrow> string \<Rightarrow> Block" where
  "note_block ty i n = Block \<lparr>bID = i, bName = n, bType = ty, bRawType = [],
     bIndent = 0, bLineNumber = 1, bEndLineNumber = 0, bProperties = [], bVariables = [],
     bTokens = [], bParentID = [], bSubflowID = ''s''\<rparr> []"

definition suppress_sample :: "string \<Rightarrow> FlowDocument" where
  "suppress_sample directive = \<lparr>docID = [], docName = [], StableID = [], FilePath = [],
     Subflows = [\<lparr>sfID = ''s'', sfName = ''Main'', sfSourceFile = [],
       sfBlocks = [note_block BlockTypeComment ''c'' directive, note_block BlockTypeAction ''x'' ''x'',
                   note_block BlockTypeAction ''y'' ''y''], sfVariables = []\<rparr>],
     ParseErrors = [], Metadata = \<lparr>BlockCount = 3, SubflowCount = 1, MaxDepth = 1, FileSize = 0,
     RawLineCount = 3\<rparr>, Files = [], IsFolder = False, BlocksByID = [], BlockSubflow = [],
     SubflowsByID = []\<rparr>"

theorem suppression_scope_witness:
  "suppresses (collectInlineSuppressions (suppress_sample ''pad-ignore[r, q]'')) (sample_finding ''r'' ''x'') \<and>
   \<not> suppresses (collectInlineSuppressions (suppress_sample ''pad-ignore[r, q]'')) (sample_finding ''r'' ''y'')"
proof -
  let ?flow = "suppress_sample ''pad-ignore[r, q]''"
  have d: "distinct (map sfID (Subflows ?flow))" by code_simp
  have p: "parsePadIgnore ''pad-ignore[r, q]'' = Some (False, [''r'', ''q''])" by code_simp
  have t: "block_rules sf ''x'' = {''r'', ''q''}" "block_rules sf ''y'' = {}" if "sf \<in> set (Subflows ?flow)" for sf
    using that p by (auto simp: suppress_sample_def note_block_def block_rules_def leadingCommentIDs_def
        is_comment_def directive_rules_def)
  have "Subflows ?flow \<noteq> []" by (simp add: suppress_sample_def)
  then show ?thesis
    using suppression_scope [OF d, of "sample_finding ''r'' ''x''"]
      suppression_scope [OF d, of "sample_finding ''r'' ''y''"] t
    by (auto simp: sample_finding_def has_rule_def suppressAll_def dest: hd_in_set)
qed

section \<open>Prose never suppresses\<close>

lemma outs_seqs_Cons: "outs (seqs (r # rs)) st = concat (map (outs (seqs rs)) (outs r st))"
proof -
  have "concat (map (outs Eps) xs) = xs" for xs by (induction xs) simp_all
  then show ?thesis by (cases rs) simp_all
qed

lemma find_from_none:
  fixes st :: mstate
  assumes "\<And>st' :: mstate. suffix (mrest st') (mrest st) \<Longrightarrow> outs r st' = []"
  shows "find_from r subj st = None"
  using assms
proof (induction r subj st rule: find_from.induct)
  case (1 r subj st)
  have o: "outs r (st\<lparr>mcaps := []\<rparr>) = []" by (rule 1(2)) simp
  have "find_from r subj (advance st) = None" if "mrest st \<noteq> []"
  proof (rule 1(1) [OF o that])
    fix st' :: mstate
    assume "suffix (mrest st') (mrest (advance st))"
    then have "suffix (mrest st') (mrest st)" by (metis advance_simps(3) suffix_order.trans suffix_tl)
    then show "outs r st' = []" by (rule 1(2))
  qed
  with o show ?case by (subst find_from.simps) simp
qed

lemma consumes_suffix: "consumes st st' \<Longrightarrow> suffix (mrest st') (mrest st)"
  by (auto simp: consumes_def suffix_def)

lemma outs_seqs_Cons_Nil:
  "(\<And>s. s \<in> set (outs r st) \<Longrightarrow> outs (seqs rs) s = []) \<Longrightarrow> outs (seqs (r # rs)) st = []"
  unfolding outs_seqs_Cons by simp

lemma rules_need_bracket:
  assumes "CHR ''['' \<notin> set (mrest st)"
  shows "outs rePadIgnoreRules st = []"
  unfolding rePadIgnoreRules_def
proof (rule outs_seqs_Cons_Nil, rule outs_seqs_Cons_Nil, rule outs_seqs_Cons_Nil, rule outs_seqs_Cons_Nil)
  fix s1 s2 s3 s4
  assume s: "s1 \<in> set (outs WordB st)" "s2 \<in> set (outs (lit_ci ''pad-ignore'') s1)"
    "s3 \<in> set (outs (Opt (lit_ci ''-next-line'')) s2)" "s4 \<in> set (outs (chr (CHR ''['')) s3)"
  have "consumes st s3"
    using consumes_trans [OF consumes_trans [OF outs_consumes [OF s(1)] outs_consumes [OF s(2)]] outs_consumes [OF s(3)]] .
  then have "suffix (mrest s3) (mrest st)" by (rule consumes_suffix)
  with assms have "CHR ''['' \<notin> set (mrest s3)" by (meson set_mono_suffix subsetD)
  then have "outs (chr (CHR ''['')) s3 = []" by (auto simp: chr_def split: list.split)
  with s(4) show "outs (seqs [Grp 1 (Star (Cls (\<lambda>c. c \<noteq> CHR '']''))), chr (CHR '']'')]) s4 = []" by simp
qed

text \<open>A literal under \<open>(?i)\<close> without the two letters that have a non-ASCII case variant.\<close>

definition plain_fold :: "string \<Rightarrow> bool" where
  "plain_fold cs \<longleftrightarrow> list_all (\<lambda>c. lower c \<noteq> CHR ''s'' \<and> lower c \<noteq> CHR ''k'') cs"

definition skip_chars :: "nat \<Rightarrow> mstate \<Rightarrow> mstate" where
  "skip_chars n st = (advance ^^ n) st"

lemma mrest_skip: "mrest (skip_chars n st) = drop n (mrest st)"
  unfolding skip_chars_def
proof (induction n)
  case (Suc n)
  then show ?case by (simp add: drop_Suc tl_drop)
qed simp

lemma lit_ci_outs:
  "plain_fold cs \<Longrightarrow> outs (lit_ci cs) st =
     (if length cs \<le> length (mrest st) \<and> map lower (take (length cs) (mrest st)) = map lower cs
      then [skip_chars (length cs) st] else [])"
proof (induction cs arbitrary: st)
  case Nil
  show ?case by (simp add: lit_ci_def skip_chars_def)
next
  case (Cons c cs)
  have c: "ci c = Cls (\<lambda>d. lower d = lower c)"
    using Cons.prems by (simp add: plain_fold_def ci_def Let_def)
  have IH: "outs (seqs (map ci cs)) st' =
     (if length cs \<le> length (mrest st') \<and> map lower (take (length cs) (mrest st')) = map lower cs
      then [skip_chars (length cs) st'] else [])" for st'
    using Cons by (simp add: plain_fold_def lit_ci_def)
  have sk: "skip_chars (length cs) (advance st) = skip_chars (Suc (length cs)) st"
    by (simp add: skip_chars_def funpow_swap1)
  show ?case
    unfolding lit_ci_def list.map outs_seqs_Cons c
    by (cases "mrest st") (auto simp: IH sk simp del: advance_simps(1))
qed

lemma map_exact:
  "length a \<le> length x \<and> map f (take (length a) x) = a \<and> drop (length a) x = [] \<longleftrightarrow> map f x = a"
proof
  assume h: "length a \<le> length x \<and> map f (take (length a) x) = a \<and> drop (length a) x = []"
  then have "length x = length a" by simp
  with h show "map f x = a" by simp
next
  assume eq: "map f x = a"
  then have "length x = length a" by auto
  with eq show "length a \<le> length x \<and> map f (take (length a) x) = a \<and> drop (length a) x = []" by simp
qed

lemma map_append_exact:
  "map f x = a @ b \<longleftrightarrow> length a \<le> length x \<and> map f (take (length a) x) = a \<and> map f (drop (length a) x) = b"
proof
  assume eq: "map f x = a @ b"
  then have "length a \<le> length x" by (metis le_add1 length_append length_map)
  moreover from eq have "take (length a) (map f x) = a" "drop (length a) (map f x) = b" by simp_all
  ultimately show "length a \<le> length x \<and> map f (take (length a) x) = a \<and> map f (drop (length a) x) = b"
    by (simp add: take_map drop_map)
next
  assume "length a \<le> length x \<and> map f (take (length a) x) = a \<and> map f (drop (length a) x) = b"
  then show "map f x = a @ b" by (metis append_take_drop_id map_append)
qed

lemma lit_ci_Eot:
  assumes "plain_fold q" "map lower q = q"
  shows "outs (seqs [lit_ci q, Eot]) st \<noteq> [] \<longleftrightarrow> map lower (mrest st) = q"
proof -
  have "outs (seqs [lit_ci q, Eot]) st \<noteq> [] \<longleftrightarrow>
      length q \<le> length (mrest st) \<and> map lower (take (length q) (mrest st)) = q \<and> drop (length q) (mrest st) = []"
    unfolding outs_seqs_Cons lit_ci_outs [OF assms(1)] assms(2)
    by (auto simp: mrest_skip simp del: drop_eq_Nil)
  then show ?thesis unfolding map_exact .
qed

lemma opt_ci_Eot:
  assumes "plain_fold q" "map lower q = q"
  shows "outs (seqs [Opt (lit_ci q), Eot]) st \<noteq> [] \<longleftrightarrow> mrest st = [] \<or> map lower (mrest st) = q"
proof -
  have "outs (seqs [Opt (lit_ci q), Eot]) st = outs (seqs [lit_ci q, Eot]) st @ outs Eot st"
    by (simp add: Opt_def)
  then show ?thesis using lit_ci_Eot [OF assms, of st] by auto
qed

lemma bare_outs:
  assumes "plain_fold p" "map lower p = p" "plain_fold q" "map lower q = q"
  shows "outs (seqs [lit_ci p, Opt (lit_ci q), Eot]) st \<noteq> [] \<longleftrightarrow>
    map lower (mrest st) = p \<or> map lower (mrest st) = p @ q"
proof -
  have "outs (seqs [lit_ci p, Opt (lit_ci q), Eot]) st \<noteq> [] \<longleftrightarrow>
      length p \<le> length (mrest st) \<and> map lower (take (length p) (mrest st)) = p \<and>
      outs (seqs [Opt (lit_ci q), Eot]) (skip_chars (length p) st) \<noteq> []"
    unfolding outs_seqs_Cons [of "lit_ci p"] lit_ci_outs [OF assms(1)] assms(2)
    by (auto simp del: seqs.simps)
  also have "\<dots> \<longleftrightarrow> length p \<le> length (mrest st) \<and> map lower (take (length p) (mrest st)) = p \<and>
      (drop (length p) (mrest st) = [] \<or> map lower (drop (length p) (mrest st)) = q)"
    unfolding opt_ci_Eot [OF assms(3,4)] mrest_skip ..
  also have "\<dots> \<longleftrightarrow> map lower (mrest st) = p \<or> map lower (mrest st) = p @ q"
    using map_exact [of p "mrest st" lower] map_append_exact [of lower "mrest st" p q] by blast
  finally show ?thesis .
qed

lemma bare_directive_match:
  "MatchString rePadIgnoreAll s \<longleftrightarrow>
     map lower s = ''pad-ignore'' \<or> map lower s = ''pad-ignore-next-line''"
proof -
  let ?p = "''pad-ignore''" and ?q = "''-next-line''"
  have p: "plain_fold ?p" "map lower ?p = ?p" by code_simp+
  have q: "plain_fold ?q" "map lower ?q = ?q" by code_simp+
  have "MatchString rePadIgnoreAll s \<longleftrightarrow> outs (seqs [lit_ci ?p, Opt (lit_ci ?q), Eot]) (start_state s) \<noteq> []"
    unfolding rePadIgnoreAll_def by (rule MatchString_Bot)
  also have "\<dots> \<longleftrightarrow> map lower s = ?p \<or> map lower s = ?p @ ?q"
    unfolding bare_outs [OF p q] by (simp only: start_state_def mstate.simps)
  finally show ?thesis by simp
qed

lemma set_TrimPrefix: "set (TrimPrefix s p) \<subseteq> set s"
  by (auto simp: TrimPrefix_def dest: in_set_dropD)

lemma set_TrimSuffix: "set (TrimSuffix s p) \<subseteq> set s"
  by (auto simp: TrimSuffix_def dest: in_set_takeD)

lemma directive_text_chars: "set (directive_text s) \<subseteq> set s"
  using set_TrimSpace [of "TrimSuffix (TrimPrefix (TrimSpace s) ''/#'') ''#/''"]
    set_TrimSuffix [of "TrimPrefix (TrimSpace s) ''/#''" "''#/''"]
    set_TrimPrefix [of "TrimSpace s" "''/#''"] set_TrimSpace [of s]
  unfolding directive_text_def by blast

text \<open>
  a comment without a rule list suppresses only when the directive is the entire comment, up
  to case, surrounding blanks and comment framing; any other text, prose that mentions
  \<open>pad-ignore\<close> included, is not a directive.
\<close>

theorem blanket_directive_is_whole_comment:
  assumes "CHR ''['' \<notin> set s"
  shows "parsePadIgnore s =
    (if map lower (directive_text s) \<in> {''pad-ignore'', ''pad-ignore-next-line''}
     then Some (True, []) else None)"
proof -
  have br: "CHR ''['' \<notin> set (directive_text s)" using assms directive_text_chars by blast
  have "find_from rePadIgnoreRules (directive_text s) (start_state (directive_text s)) = None"
  proof (rule find_from_none)
    fix st' :: mstate
    assume "suffix (mrest st') (mrest (start_state (directive_text s)))"
    with br have "CHR ''['' \<notin> set (mrest st')" by (auto dest: set_mono_suffix)
    then show "outs rePadIgnoreRules st' = []" by (rule rules_need_bracket)
  qed
  then show ?thesis
    by (simp add: parsePadIgnore_def Let_def FindStringSubmatch_def bare_directive_match)
qed

theorem blanket_directive_is_whole_comment_witness:
  "parsePadIgnore ''never use pad-ignore in production flows'' = None \<and>
   parsePadIgnore ''/# PAD-Ignore #/'' = Some (True, [])"
proof -
  have b: "CHR ''['' \<notin> set ''never use pad-ignore in production flows''" "CHR ''['' \<notin> set ''/# PAD-Ignore #/''"
    by code_simp+
  have t: "map lower (directive_text ''never use pad-ignore in production flows'') = ''never use pad-ignore in production flows''"
    "map lower (directive_text ''/# PAD-Ignore #/'') = ''pad-ignore''" by code_simp+
  show ?thesis
    unfolding blanket_directive_is_whole_comment [OF b(1)] blanket_directive_is_whole_comment [OF b(2)] t
    by simp
qed

end
