(* ===== verification/Engine.thy ===== *)
theory Engine
  imports Analysis_Context Suppress
begin

text \<open>
  core/analyzer/engine.go, rule.go, meta.go and parse_error_findings.go: rule dispatch over a
  document and the pipeline behind a report. A rule is a record of what the \<open>Rule\<close>,
  \<open>BlockRule\<close> and \<open>FlowRule\<close> interfaces expose and, for a custom rule, the fix its configuration names; a check that panics is \<open>None\<close>. The block
  shards run concurrently on disjoint results, so a walk is the list of its shards.
  Cancellation is an oracle: \<open>stop w i\<close> says whether shard \<open>w\<close> sees the context cancelled before its
  \<open>i\<close>-th block, \<open>stop_flow k\<close> whether the flow loop does before its \<open>k\<close>-th rule. Clocks, logging and
  progress callbacks, which no result depends on, are left out.
\<close>

section \<open>Rules and settings\<close>

datatype ruleKind = kindUnknown | kindBlock | kindFlow

record Rule =
  ruID :: string
  ruDefaultSeverity :: Severity
  ruCategory :: string
  ruCustom :: bool
  ruAutoFix :: string
  ruKind :: ruleKind
  ruCheck :: "RuleContext \<Rightarrow> Block \<Rightarrow> Finding list option"
  ruCheckFlow :: "RuleContext \<Rightarrow> Finding list option"

text \<open>
  An option value by its Go type: an integer, a float by its conversion \<open>int(x)\<close>, a \<open>json.Number\<close> by the
  result of \<open>Int64\<close>, or anything else.
\<close>

datatype optValue = OptInt int | OptFloat int | OptNumber "int option" | OptOther

record RuleConfig =
  rcEnabled :: bool
  rcSeverity :: string
  rcOptions :: "(string \<times> optValue) list"

text \<open>The rule map of the settings; \<open>None\<close> when no settings are given.\<close>

type_synonym AppSettings = "(string \<times> RuleConfig) list option"

definition RuleEnabled :: "ruleMetaTable \<Rightarrow> Rule \<Rightarrow> AppSettings \<Rightarrow> bool" where
  "RuleEnabled t r s =
     (case (case s of None \<Rightarrow> None | Some rules \<Rightarrow> map_of rules (ruID r)) of
        Some rc \<Rightarrow> rcEnabled rc
      | None \<Rightarrow>
          if ruCustom r then True
          else (case map_of t (ruID r) of None \<Rightarrow> True | Some m \<Rightarrow> \<not> mDisabledByDefault m))"

definition severityOverride :: "Rule \<Rightarrow> AppSettings \<Rightarrow> Severity" where
  "severityOverride r s =
     (case s of
        None \<Rightarrow> []
      | Some rules \<Rightarrow>
          (case map_of rules (ruID r) of
             None \<Rightarrow> []
           | Some rc \<Rightarrow>
               (let sev = NormalizeSeverity (rcSeverity rc)
                in if sev = [] \<or> sev = ruDefaultSeverity r then [] else sev)))"

section \<open>Parse errors as findings\<close>

definition maxParseErrorFindings :: nat where
  "maxParseErrorFindings = 100"

definition severityForParseError :: "string \<Rightarrow> Severity" where
  "severityForParseError s =
     (if s = ''warning'' then SeverityWarning else if s = ''info'' then SeverityInfo else SeverityError)"

definition no_finding :: Finding where
  "no_finding = \<lparr>fID = [], fFingerprint = [], fRuleID = [], fSeverity = [], fConfidence = [], fTitle = [],
     fDescription = [], fBlockID = [], fSubflowID = [], fSuggestion = [], fAutoFixHint = [], fAutoFix = [],
     fCategory = [], fMetadata = [], fStage = []\<rparr>"

definition parse_error_finding :: "string \<Rightarrow> string \<Rightarrow> ParseError \<Rightarrow> Finding" where
  "parse_error_finding blockID subflowID pe =
     no_finding\<lparr>fRuleID := ''parse-error'', fSeverity := severityForParseError (peSeverity pe),
       fTitle := ''Parse error (line '' @ decimal (peLine pe) @ '')'', fDescription := peMessage pe,
       fBlockID := blockID, fSubflowID := subflowID,
       fSuggestion := ''Fix the syntax error so the parser can produce a complete block tree.'',
       fMetadata := [(''line'', MetaOther), (''column'', MetaOther), (''snippet'', MetaString (peSnippet pe))]\<rparr>"

definition severity_rank :: "Severity \<Rightarrow> nat" where
  "severity_rank s = (if s = SeverityInfo then 1 else if s = SeverityWarning then 2
     else if s = SeverityError then 3 else 0)"

definition worst_severity :: "ParseError list \<Rightarrow> Severity" where
  "worst_severity errs = foldl (\<lambda>worst pe. let s = severityForParseError (peSeverity pe)
     in if severity_rank s > severity_rank worst then s else worst) SeverityInfo errs"

definition truncation_finding :: "string \<Rightarrow> string \<Rightarrow> ParseError list \<Rightarrow> Finding" where
  "truncation_finding blockID subflowID errs =
     (let truncated = length errs - maxParseErrorFindings in
      no_finding\<lparr>fRuleID := ''parse-error'', fSeverity := worst_severity (drop maxParseErrorFindings errs),
        fTitle := ''Parse errors truncated ('' @ decimal truncated @ '' more)'',
        fDescription := ''This flow produced '' @ decimal (length errs) @ '' parse errors; the first ''
          @ decimal maxParseErrorFindings @ '' are listed individually and '' @ decimal truncated
          @ '' more were omitted from the report. A file with this many parse errors is usually ''
          @ ''not a PAD export, or was truncated in transit.'',
        fBlockID := blockID, fSubflowID := subflowID,
        fSuggestion := ''Fix the errors listed above and re-run; the remainder are very likely the same cause.'',
        fMetadata := [(''totalParseErrors'', MetaOther), (''shown'', MetaOther), (''omitted'', MetaOther)]\<rparr>)"

definition buildParseErrorFindings :: "ParseError list \<Rightarrow> string \<Rightarrow> string \<Rightarrow> Finding list" where
  "buildParseErrorFindings errs blockID subflowID =
     map (parse_error_finding blockID subflowID) (take maxParseErrorFindings errs)
     @ (if length errs > maxParseErrorFindings then [truncation_finding blockID subflowID errs] else [])"

definition parse_error_check :: "RuleContext \<Rightarrow> Finding list option" where
  "parse_error_check ctx =
     (let flow = ctxFlow ctx in
      if ParseErrors flow = [] then Some []
      else (case Subflows flow of
          [] \<Rightarrow> Some []
        | sf # _ \<Rightarrow>
            (case sfBlocks sf of
               [] \<Rightarrow> Some []
             | anchor # _ \<Rightarrow>
                 if bType (binfo anchor) = BlockTypeEnd then Some []
                 else Some (buildParseErrorFindings (ParseErrors flow) (bID (binfo anchor))
                        (bSubflowID (binfo anchor))))))"

definition ParseErrorRule :: Rule where
  "ParseErrorRule = \<lparr>ruID = ''parse-error'', ruDefaultSeverity = SeverityError, ruCategory = ''Syntax'',
     ruCustom = False, ruAutoFix = [], ruKind = kindFlow, ruCheck = (\<lambda>_ _. Some []), ruCheckFlow = parse_error_check\<rparr>"

definition parseErrorFallback ::
    "ruleMetaTable \<Rightarrow> FlowDocument \<Rightarrow> AppSettings \<Rightarrow> Finding list \<Rightarrow> Finding list" where
  "parseErrorFallback t flow settings findings =
     (if ParseErrors flow = [] \<or> \<not> RuleEnabled t ParseErrorRule settings then []
      else if list_ex (\<lambda>f. fRuleID f = ''parse-error'') findings then []
      else
        (let anchorSF = (case Subflows flow of [] \<Rightarrow> [] | sf # _ \<Rightarrow> sfID sf);
             ov = severityOverride ParseErrorRule settings
         in map (\<lambda>f. f\<lparr>fSeverity := (if ov \<noteq> [] then ov else fSeverity f), fCategory := ruCategory ParseErrorRule\<rparr>)
              (buildParseErrorFindings (ParseErrors flow) [] anchorSF)))"

section \<open>Document order\<close>

definition MaxInt :: nat where
  "MaxInt = 2 ^ 63 - 1"

text \<open>
  One iteration of the scan: the subflow index \<open>k\<close>, the last top-level index in it (-1 for none)
  and whether a block-less finding was met; \<open>None\<close> once the answer is false.
\<close>

type_synonym order_scan = "(nat \<times> int \<times> bool) option"

definition advance_subflow :: "Subflow list \<Rightarrow> Subflow \<Rightarrow> nat \<Rightarrow> int \<Rightarrow> nat \<times> int" where
  "advance_subflow subs sf k lastIdx =
     (let n = length (takeWhile (\<lambda>x. x \<noteq> sf) (drop k subs)) in (k + n, if n = 0 then lastIdx else -1))"

definition in_order_step :: "RuleContext \<Rightarrow> order_scan \<Rightarrow> Finding \<Rightarrow> order_scan" where
  "in_order_step ctx st f =
     (case st of
        None \<Rightarrow> None
      | Some (k, lastIdx, blockless) \<Rightarrow>
          if fBlockID f = [] then Some (k, lastIdx, True)
          else (case map_of (AllBlocks ctx) (fBlockID f) of
              None \<Rightarrow> None
            | Some b \<Rightarrow>
              if blockless \<or> (case map_of (ParentMap ctx) (fBlockID f) of None \<Rightarrow> False | Some p \<Rightarrow> p \<noteq> []) then None
              else (case map_of (SubflowByID ctx) (bSubflowID (binfo b)) of
                  None \<Rightarrow> None
                | Some sf \<Rightarrow>
                  (let j = nat_at (BlockIndex ctx) (fBlockID f);
                       group = list_at (SiblingMap ctx) (sfID sf)
                   in if j \<ge> length group \<or> group ! j \<noteq> b then None
                      else (case advance_subflow (Subflows (ctxFlow ctx)) sf k lastIdx of
                          (k', lastIdx') \<Rightarrow>
                            if k' = length (Subflows (ctxFlow ctx)) \<or> int j < lastIdx' then None
                            else Some (k', int j, blockless))))))"

definition inTopLevelOrder :: "RuleContext \<Rightarrow> Finding list \<Rightarrow> bool" where
  "inTopLevelOrder ctx fs \<longleftrightarrow> length (AllBlocks ctx) = totalBlocks ctx \<and>
     foldl (in_order_step ctx) (Some (0, -1, False)) fs \<noteq> None"

definition position_key :: "(string \<times> nat) list \<Rightarrow> Finding \<Rightarrow> nat" where
  "position_key pos f =
     (case map_of pos (fBlockID f) of Some p \<Rightarrow> if fBlockID f \<noteq> [] then p else MaxInt | None \<Rightarrow> MaxInt)"

definition sortByDocPosition :: "RuleContext \<Rightarrow> Finding list \<Rightarrow> Finding list" where
  "sortByDocPosition ctx fs =
     (if length fs < 2 then fs
      else if list_all (\<lambda>f. fBlockID f = fBlockID (hd fs)) fs \<or> inTopLevelOrder ctx fs then fs
      else (let key = position_key (docPosition ctx) in
            if sorted (map key fs) then fs else sort_key key fs))"

section \<open>The walk\<close>

text \<open>An enabled rule with what the engine knows of it before the walk.\<close>

record slot =
  slRule :: Rule
  slOverride :: Severity
  slShadows :: bool

definition slot_of :: "ruleMetaTable \<Rightarrow> AppSettings \<Rightarrow> Rule \<Rightarrow> slot" where
  "slot_of t settings r = \<lparr>slRule = r, slOverride = severityOverride r settings,
     slShadows = (ruCustom r \<and> map_of t (ruID r) \<noteq> None)\<rparr>"

definition finish_finding :: "slot \<Rightarrow> Finding \<Rightarrow> Finding" where
  "finish_finding sl f =
     (let f = (if slOverride sl \<noteq> [] then f\<lparr>fSeverity := slOverride sl\<rparr> else f);
          f = (if ruCategory (slRule sl) \<noteq> [] \<and> fCategory f = [] then f\<lparr>fCategory := ruCategory (slRule sl)\<rparr> else f)
      in if slShadows sl then f\<lparr>fStage := StageStable\<rparr> else f)"

text \<open>\<open>safeCheck\<close> and \<open>safeCheckFlow\<close>: the findings, and whether the rule panicked.\<close>

definition safeCheck :: "Rule \<Rightarrow> RuleContext \<Rightarrow> Block \<Rightarrow> Finding list \<times> bool" where
  "safeCheck r ctx b = (case ruCheck r ctx b of None \<Rightarrow> ([], True) | Some fs \<Rightarrow> (fs, False))"

definition safeCheckFlow :: "Rule \<Rightarrow> RuleContext \<Rightarrow> Finding list \<times> bool" where
  "safeCheckFlow r ctx = (case ruCheckFlow r ctx of None \<Rightarrow> ([], True) | Some fs \<Rightarrow> (fs, False))"

record shardResult =
  shBuckets :: "Finding list list"
  shChecked :: "nat list"
  shSkipped :: nat
  shAborted :: bool

definition new_shard :: "nat \<Rightarrow> shardResult" where
  "new_shard n = \<lparr>shBuckets = replicate n [], shChecked = replicate n 0, shSkipped = 0, shAborted = False\<rparr>"

text \<open>One rule slot on one block: its findings, whether it counts as checked, whether it panicked.\<close>

definition visit_slot :: "RuleContext \<Rightarrow> Block \<Rightarrow> slot \<Rightarrow> Finding list \<times> nat \<times> nat" where
  "visit_slot ctx b sl =
     (case ruKind (slRule sl) of
        kindBlock \<Rightarrow> (case safeCheck (slRule sl) ctx b of (fs, panicked) \<Rightarrow>
          (map (finish_finding sl) fs, 1, if panicked then 1 else 0))
      | kindFlow \<Rightarrow> ([], 1, 0)
      | kindUnknown \<Rightarrow> ([], 0, 0))"

definition visit_block :: "RuleContext \<Rightarrow> slot list \<Rightarrow> shardResult \<Rightarrow> Block \<Rightarrow> shardResult" where
  "visit_block ctx slots r b =
     (let vs = map (visit_slot ctx b) slots in
      r\<lparr>shBuckets := map2 (\<lambda>fs v. fs @ fst v) (shBuckets r) vs,
        shChecked := map2 (\<lambda>n v. n + fst (snd v)) (shChecked r) vs,
        shSkipped := shSkipped r + sum_list (map (snd \<circ> snd) vs)\<rparr>)"

fun runShard :: "RuleContext \<Rightarrow> slot list \<Rightarrow> (nat \<Rightarrow> bool) \<Rightarrow> nat \<Rightarrow> shardResult \<Rightarrow> Block list \<Rightarrow> shardResult" where
  "runShard ctx slots stop i r [] = r"
| "runShard ctx slots stop i r (b # bs) =
     (if stop i then r\<lparr>shAborted := True\<rparr>
      else runShard ctx slots stop (i + 1) (visit_block ctx slots r b) bs)"

definition walk_workers :: "nat \<Rightarrow> nat \<Rightarrow> nat" where
  "walk_workers gomaxprocs nblocks =
     (let w = (if gomaxprocs > 8 then 8 else gomaxprocs);
          w = (if nblocks < 256 then 1 else w);
          w = (if w > nblocks then nblocks else w)
      in if w < 1 then 1 else w)"

text \<open>The slices \<open>blocks[lo:hi]\<close>; a worker past the end gets an empty slice and keeps its empty result.\<close>

definition shard_blocks :: "nat \<Rightarrow> Block list \<Rightarrow> Block list list" where
  "shard_blocks workers blocks =
     (let shardSize = (length blocks + workers - 1) div workers in
      map (\<lambda>w. take shardSize (drop (w * shardSize) blocks)) [0..<workers])"

text \<open>The flow rules, in order: findings per slot, panics, and whether the loop ran to its end.\<close>

fun run_flow_rules ::
    "RuleContext \<Rightarrow> (nat \<Rightarrow> bool) \<Rightarrow> nat \<Rightarrow> slot list \<Rightarrow> Finding list list \<times> nat \<times> bool" where
  "run_flow_rules ctx stop k [] = ([], 0, True)"
| "run_flow_rules ctx stop k (sl # sls) =
     (if ruKind (slRule sl) \<noteq> kindFlow then
        (case run_flow_rules ctx stop k sls of (fss, n, ok) \<Rightarrow> ([] # fss, n, ok))
      else if stop k then ([] # map (\<lambda>_. []) sls, 0, False)
      else
        (case safeCheckFlow (slRule sl) ctx of (fs, panicked) \<Rightarrow>
         case run_flow_rules ctx stop (k + 1) sls of (fss, n, ok) \<Rightarrow>
           (sortByDocPosition ctx (map (finish_finding sl) fs) # fss, (if panicked then 1 else 0) + n, ok)))"

record walkResult =
  wrFindings :: "Finding list"
  wrCounts :: "nat list"
  wrChecked :: "nat list"
  wrSkipped :: nat
  wrComplete :: bool

record cancellation =
  stopShard :: "nat \<Rightarrow> nat \<Rightarrow> bool"
  stopFlow :: "nat \<Rightarrow> bool"

definition collectFindings ::
    "nat \<Rightarrow> cancellation \<Rightarrow> RuleContext \<Rightarrow> slot list \<Rightarrow> walkResult" where
  "collectFindings gomaxprocs c ctx slots =
     (let n = length slots;
          blocks = filter not_end (walkBlocks (ctxFlow ctx));
          workers = walk_workers gomaxprocs (length blocks);
          results = map (\<lambda>(w, bs). runShard ctx slots (stopShard c w) 0 (new_shard n) bs)
                      (enumerate 0 (shard_blocks workers blocks));
          unknown = length (filter (\<lambda>sl. ruKind (slRule sl) = kindUnknown) slots)
      in case run_flow_rules ctx (stopFlow c) 0 slots of (flowFindings, flowSkipped, flowOk) \<Rightarrow>
        \<lparr>wrFindings = concat (map (\<lambda>i. flowFindings ! i @ concat (map (\<lambda>r. shBuckets r ! i) results)) [0..<n]),
         wrCounts = map (\<lambda>i. length (flowFindings ! i) + sum_list (map (\<lambda>r. length (shBuckets r ! i)) results)) [0..<n],
         wrChecked = map (\<lambda>i. sum_list (map (\<lambda>r. shChecked r ! i) results)) [0..<n],
         wrSkipped = unknown + flowSkipped + sum_list (map shSkipped results),
         wrComplete = (flowOk \<and> list_all (\<lambda>r. \<not> shAborted r) results)\<rparr>)"

section \<open>The report\<close>

record AnalysisStats =
  stErrors :: nat
  stWarnings :: nat
  stInfo :: nat
  stBlocksAnalyzed :: nat
  stRulesRun :: nat
  stRulesSkipped :: nat
  stSuppressed :: nat

definition stats_step :: "AnalysisStats \<Rightarrow> Finding \<Rightarrow> AnalysisStats" where
  "stats_step st f =
     (if fSeverity f = SeverityError then st\<lparr>stErrors := stErrors st + 1\<rparr>
      else if fSeverity f = SeverityWarning then st\<lparr>stWarnings := stWarnings st + 1\<rparr>
      else if fSeverity f = SeverityInfo then st\<lparr>stInfo := stInfo st + 1\<rparr>
      else st)"

definition computeStats :: "Finding list \<Rightarrow> AnalysisStats" where
  "computeStats fs = foldl stats_step \<lparr>stErrors = 0, stWarnings = 0, stInfo = 0, stBlocksAnalyzed = 0,
     stRulesRun = 0, stRulesSkipped = 0, stSuppressed = 0\<rparr> fs"

record AnalysisReport =
  arFlowID :: string
  arFlowName :: string
  arFindings :: "Finding list"
  arStats :: AnalysisStats
  arProfiles :: "(string \<times> nat \<times> nat) list"

record engine_env =
  envMeta :: ruleMetaTable
  envHash :: "string \<Rightarrow> string"
  envProcs :: nat
  envCancel :: cancellation

definition analyzeContext ::
    "engine_env \<Rightarrow> RuleContext \<Rightarrow> Rule list \<Rightarrow> AppSettings \<Rightarrow> AnalysisReport \<times> bool" where
  "analyzeContext env ctx rules settings =
     (let flow = ctxFlow ctx; t = envMeta env;
          slots = map (slot_of t settings) (filter (\<lambda>r. RuleEnabled t r settings) rules);
          w = collectFindings (envProcs env) (envCancel env) ctx slots;
          raw = wrFindings w @ parseErrorFallback t flow settings (wrFindings w);
          (unsuppressed, suppressed) = applyInlineSuppressions raw (collectInlineSuppressions flow);
          keep = dedupKeep unsuppressed;
          findings = keptFindings (stampFindings (envHash env) t unsuppressed keep flow) keep;
          stats = (computeStats findings)\<lparr>stBlocksAnalyzed := totalBlocks ctx, stRulesRun := length slots,
                     stRulesSkipped := wrSkipped w, stSuppressed := suppressed\<rparr>
      in (\<lparr>arFlowID = docID flow, arFlowName = docName flow, arFindings = findings, arStats = stats,
           arProfiles = map (\<lambda>i. (ruID (slRule (slots ! i)), wrCounts w ! i, wrChecked w ! i)) [0..<length slots]\<rparr>,
          wrComplete w))"

definition runAnalysisWalk ::
    "engine_env \<Rightarrow> FlowDocument \<Rightarrow> Rule list \<Rightarrow> AppSettings \<Rightarrow> AnalysisReport \<times> bool" where
  "runAnalysisWalk env flow rules settings = analyzeContext env (buildContext flow) rules settings"

definition RunAnalysis :: "engine_env \<Rightarrow> FlowDocument \<Rightarrow> Rule list \<Rightarrow> AppSettings \<Rightarrow> AnalysisReport" where
  "RunAnalysis env flow rules settings = fst (runAnalysisWalk env flow rules settings)"

end
