(* ===== verification/Engine_Correct.thy ===== *)
theory Engine_Correct
  imports Engine "HOL-Library.Sublist"
begin

text \<open>
  What the engine's walk and pipeline guarantee: however many shards a walk uses, and whenever its
  context is cancelled, a walk that says it is complete has the findings, counters and order of the
  sequential walk; parse errors always surface; the report is the suppressed, deduplicated and
  numbered list of what the rules found.
\<close>

section \<open>Shards\<close>

lemma concat_chunks: "concat (map (\<lambda>k. take n (drop (k * n) xs)) [0..<w]) = take (w * n) xs"
proof (induction w)
  case (Suc w)
  have "take (w * n) xs @ take n (drop (w * n) xs) = take (n + w * n) xs"
    by (metis add.commute take_add)
  with Suc show ?case by simp
qed simp

lemma div_up: "0 < w \<Longrightarrow> (n::nat) \<le> w * ((n + w - Suc 0) div w)"
proof -
  assume w: "0 < w"
  have "n + w - Suc 0 < w * Suc ((n + w - Suc 0) div w)" using w by (metis dividend_less_times_div mult.commute mult_Suc_right)
  with w show ?thesis by simp
qed

lemma concat_shards: "0 < w \<Longrightarrow> concat (shard_blocks w blocks) = blocks"
  by (simp add: shard_blocks_def Let_def concat_chunks div_up)

lemma walk_workers_pos: "0 < walk_workers g n"
  by (simp add: walk_workers_def Let_def)

text \<open>A shard that was not stopped is the fold of \<open>visit_block\<close> over its blocks.\<close>

lemma visit_block_aborted [simp]: "shAborted (visit_block ctx slots r b) = shAborted r"
  by (simp add: visit_block_def Let_def)

lemma runShard_fold:
  "\<not> shAborted (runShard ctx slots stop i r bs) \<Longrightarrow>
     runShard ctx slots stop i r bs = foldl (visit_block ctx slots) r bs"
  by (induction bs arbitrary: i r) (auto split: if_splits)

lemma foldl_visit_aborted: "shAborted (foldl (visit_block ctx slots) r bs) = shAborted r"
  by (induction bs arbitrary: r) simp_all

lemma runShard_unstopped: "(\<And>i. \<not> stop i) \<Longrightarrow> shAborted (runShard ctx slots stop i r bs) = shAborted r"
  by (induction bs arbitrary: i r) simp_all

definition shard_ok :: "slot list \<Rightarrow> shardResult \<Rightarrow> bool" where
  "shard_ok slots r \<longleftrightarrow> length (shBuckets r) = length slots \<and> length (shChecked r) = length slots"

lemma visit_block_fields:
  assumes "shard_ok slots r"
  shows "shard_ok slots (visit_block ctx slots r b)"
    and "i < length slots \<Longrightarrow> shBuckets (visit_block ctx slots r b) ! i =
      shBuckets r ! i @ fst (visit_slot ctx b (slots ! i))"
    and "i < length slots \<Longrightarrow> shChecked (visit_block ctx slots r b) ! i =
      shChecked r ! i + fst (snd (visit_slot ctx b (slots ! i)))"
    and "shSkipped (visit_block ctx slots r b) =
      shSkipped r + sum_list (map (\<lambda>sl. snd (snd (visit_slot ctx b sl))) slots)"
  using assms by (simp_all add: visit_block_def shard_ok_def Let_def comp_def)

lemma foldl_visit_buckets:
  "shard_ok slots r \<Longrightarrow> i < length slots \<Longrightarrow> shBuckets (foldl (visit_block ctx slots) r bs) ! i =
     shBuckets r ! i @ concat (map (\<lambda>b. fst (visit_slot ctx b (slots ! i))) bs)"
  by (induction bs arbitrary: r) (simp_all add: visit_block_fields)

lemma foldl_visit_checked:
  "shard_ok slots r \<Longrightarrow> i < length slots \<Longrightarrow> shChecked (foldl (visit_block ctx slots) r bs) ! i =
     shChecked r ! i + sum_list (map (\<lambda>b. fst (snd (visit_slot ctx b (slots ! i)))) bs)"
  by (induction bs arbitrary: r) (simp_all add: visit_block_fields)

lemma foldl_visit_skipped:
  "shard_ok slots r \<Longrightarrow> shSkipped (foldl (visit_block ctx slots) r bs) =
     shSkipped r + sum_list (map (\<lambda>b. sum_list (map (\<lambda>sl. snd (snd (visit_slot ctx b sl))) slots)) bs)"
  by (induction bs arbitrary: r) (simp_all add: visit_block_fields)

lemma new_shard_fields [simp]:
  "shard_ok slots (new_shard (length slots))" "shSkipped (new_shard n) = 0"
  "i < n \<Longrightarrow> shBuckets (new_shard n) ! i = []" "i < n \<Longrightarrow> shChecked (new_shard n) ! i = 0"
  by (simp_all add: new_shard_def shard_ok_def)

section \<open>The sequential walk\<close>

definition walked :: "RuleContext \<Rightarrow> Block list" where
  "walked ctx = filter not_end (walkBlocks (ctxFlow ctx))"

definition flow_findings :: "RuleContext \<Rightarrow> slot \<Rightarrow> Finding list" where
  "flow_findings ctx sl = (if ruKind (slRule sl) = kindFlow
     then sortByDocPosition ctx (map (finish_finding sl) (fst (safeCheckFlow (slRule sl) ctx))) else [])"

definition flow_panics :: "RuleContext \<Rightarrow> slot \<Rightarrow> nat" where
  "flow_panics ctx sl = (if ruKind (slRule sl) = kindFlow \<and> snd (safeCheckFlow (slRule sl) ctx) then 1 else 0)"

definition slot_findings :: "RuleContext \<Rightarrow> slot \<Rightarrow> Finding list" where
  "slot_findings ctx sl = flow_findings ctx sl @ concat (map (\<lambda>b. fst (visit_slot ctx b sl)) (walked ctx))"

definition sequential_walk :: "RuleContext \<Rightarrow> slot list \<Rightarrow> walkResult" where
  "sequential_walk ctx slots =
     \<lparr>wrFindings = concat (map (slot_findings ctx) slots),
      wrCounts = map (length \<circ> slot_findings ctx) slots,
      wrChecked = map (\<lambda>sl. if ruKind (slRule sl) = kindUnknown then 0 else length (walked ctx)) slots,
      wrSkipped = length (filter (\<lambda>sl. ruKind (slRule sl) = kindUnknown) slots) + sum_list (map (flow_panics ctx) slots)
        + sum_list (map (\<lambda>b. sum_list (map (\<lambda>sl. snd (snd (visit_slot ctx b sl))) slots)) (walked ctx)),
      wrComplete = True\<rparr>"

lemma run_flow_rules_ok:
  "snd (snd (run_flow_rules ctx stop k sls)) \<Longrightarrow>
     run_flow_rules ctx stop k sls = (map (flow_findings ctx) sls, sum_list (map (flow_panics ctx) sls), True)"
proof (induction sls arbitrary: k)
  case (Cons sl sls)
  have eq: "run_flow_rules ctx stop j sls =
      (map (flow_findings ctx) sls, sum_list (map (flow_panics ctx) sls), True)"
    if "snd (snd (run_flow_rules ctx stop j sls))" for j
    using Cons.IH that .
  show ?case
    using Cons.prems eq [of k] eq [of "k + 1"]
    by (simp add: flow_findings_def [of _ sl] flow_panics_def [of _ sl] case_prod_beta split: if_splits)
qed simp

lemma run_flow_rules_unstopped: "(\<And>k. \<not> stop k) \<Longrightarrow> snd (snd (run_flow_rules ctx stop k sls))"
  by (induction sls arbitrary: k) (simp_all add: case_prod_beta)

lemma checked_slot:
  "sum_list (map (\<lambda>b. fst (snd (visit_slot ctx b sl))) bs) =
     (if ruKind (slRule sl) = kindUnknown then 0 else length bs)"
  by (induction bs) (auto simp: visit_slot_def split: ruleKind.split prod.split)

lemma concat_map_concat: "concat (map (\<lambda>xs. concat (map f xs)) xss) = concat (map f (concat xss))"
  by (induction xss) simp_all

lemma map_nth_slots: "map (\<lambda>i. f (xs ! i)) [0..<length xs] = map f xs"
  by (rule nth_equalityI) simp_all

text \<open>The shards of a walk none of which was stopped.\<close>

definition shard_results :: "RuleContext \<Rightarrow> slot list \<Rightarrow> nat \<Rightarrow> shardResult list" where
  "shard_results ctx slots w =
     map (foldl (visit_block ctx slots) (new_shard (length slots))) (shard_blocks w (walked ctx))"

lemma shard_results_fields:
  assumes "0 < w"
  shows "i < length slots \<Longrightarrow> concat (map (\<lambda>r. shBuckets r ! i) (shard_results ctx slots w)) =
      concat (map (\<lambda>b. fst (visit_slot ctx b (slots ! i))) (walked ctx))"
    and "i < length slots \<Longrightarrow> sum_list (map (\<lambda>r. shChecked r ! i) (shard_results ctx slots w)) =
      (if ruKind (slRule (slots ! i)) = kindUnknown then 0 else length (walked ctx))"
    and "sum_list (map shSkipped (shard_results ctx slots w)) =
      sum_list (map (\<lambda>b. sum_list (map (\<lambda>sl. snd (snd (visit_slot ctx b sl))) slots)) (walked ctx))"
proof -
  note all = concat_shards [OF assms, of "walked ctx"]
  show "concat (map (\<lambda>r. shBuckets r ! i) (shard_results ctx slots w)) =
      concat (map (\<lambda>b. fst (visit_slot ctx b (slots ! i))) (walked ctx))" if "i < length slots"
    using that concat_map_concat [of "\<lambda>b. fst (visit_slot ctx b (slots ! i))" "shard_blocks w (walked ctx)"]
    by (simp add: shard_results_def comp_def foldl_visit_buckets all)
  show "sum_list (map (\<lambda>r. shChecked r ! i) (shard_results ctx slots w)) =
      (if ruKind (slRule (slots ! i)) = kindUnknown then 0 else length (walked ctx))" if "i < length slots"
    using that sum_list_concat_map [of "\<lambda>b. fst (snd (visit_slot ctx b (slots ! i)))" "shard_blocks w (walked ctx)"]
    unfolding all checked_slot by (simp add: shard_results_def comp_def foldl_visit_checked checked_slot)
  show "sum_list (map shSkipped (shard_results ctx slots w)) =
      sum_list (map (\<lambda>b. sum_list (map (\<lambda>sl. snd (snd (visit_slot ctx b sl))) slots)) (walked ctx))"
    using sum_list_concat_map [of "\<lambda>b. sum_list (map (\<lambda>sl. snd (snd (visit_slot ctx b sl))) slots)" "shard_blocks w (walked ctx)"]
    unfolding all by (simp add: shard_results_def comp_def foldl_visit_skipped)
qed

definition run_shards :: "cancellation \<Rightarrow> RuleContext \<Rightarrow> slot list \<Rightarrow> nat \<Rightarrow> shardResult list" where
  "run_shards c ctx slots w =
     map (\<lambda>(k, bs). runShard ctx slots (stopShard c k) 0 (new_shard (length slots)) bs)
       (enumerate 0 (shard_blocks w (walked ctx)))"

lemma run_shards_complete:
  assumes "list_all (\<lambda>r. \<not> shAborted r) (run_shards c ctx slots w)"
  shows "run_shards c ctx slots w = shard_results ctx slots w"
proof (rule nth_equalityI)
  show "length (run_shards c ctx slots w) = length (shard_results ctx slots w)"
    by (simp add: run_shards_def shard_results_def)
  fix i assume i: "i < length (run_shards c ctx slots w)"
  with assms have "\<not> shAborted (run_shards c ctx slots w ! i)" by (simp add: list_all_length)
  with i show "run_shards c ctx slots w ! i = shard_results ctx slots w ! i"
    by (simp add: run_shards_def shard_results_def nth_enumerate_eq runShard_fold)
qed

lemma collect_unfold:
  "collectFindings g c ctx slots =
     (let n = length slots; results = run_shards c ctx slots (walk_workers g (length (walked ctx)));
          flow = run_flow_rules ctx (stopFlow c) 0 slots in
      \<lparr>wrFindings = concat (map (\<lambda>i. fst flow ! i @ concat (map (\<lambda>r. shBuckets r ! i) results)) [0..<n]),
       wrCounts = map (\<lambda>i. length (fst flow ! i @ concat (map (\<lambda>r. shBuckets r ! i) results))) [0..<n],
       wrChecked = map (\<lambda>i. sum_list (map (\<lambda>r. shChecked r ! i) results)) [0..<n],
       wrSkipped = length (filter (\<lambda>sl. ruKind (slRule sl) = kindUnknown) slots) + fst (snd flow) + sum_list (map shSkipped results),
       wrComplete = (snd (snd flow) \<and> list_all (\<lambda>r. \<not> shAborted r) results)\<rparr>)"
  unfolding collectFindings_def Let_def walked_def [symmetric] run_shards_def [symmetric] case_prod_beta
  by (simp add: length_concat comp_def)

lemma collect_complete:
  assumes "wrComplete (collectFindings g c ctx slots)"
  shows "collectFindings g c ctx slots = sequential_walk ctx slots"
proof -
  let ?w = "walk_workers g (length (walked ctx))"
  have ok: "snd (snd (run_flow_rules ctx (stopFlow c) 0 slots))"
    "list_all (\<lambda>r. \<not> shAborted r) (run_shards c ctx slots ?w)"
    using assms by (simp_all add: collect_unfold Let_def)
  note sr = shard_results_fields [where w = ?w, OF walk_workers_pos]
  have f: "map (flow_findings ctx) slots ! i @ concat (map (\<lambda>r. shBuckets r ! i) (shard_results ctx slots ?w)) =
      slot_findings ctx (slots ! i)" if "i < length slots" for i
    using that by (simp add: sr(1) slot_findings_def)
  have F: "map (\<lambda>i. map (flow_findings ctx) slots ! i @ concat (map (\<lambda>r. shBuckets r ! i) (shard_results ctx slots ?w)))
      [0..<length slots] = map (slot_findings ctx) slots"
    by (rule nth_equalityI) (simp_all add: sr(1) slot_findings_def)
  have C: "map (\<lambda>i. sum_list (map (\<lambda>r. shChecked r ! i) (shard_results ctx slots ?w))) [0..<length slots] =
      map (\<lambda>sl. if ruKind (slRule sl) = kindUnknown then 0 else length (walked ctx)) slots"
    by (rule nth_equalityI) (simp_all add: sr(2))
  have L: "map (\<lambda>i. length (X i)) is = map length (map X is)" for X :: "nat \<Rightarrow> Finding list" and "is"
    by simp
  show ?thesis
    using ok(2) unfolding collect_unfold run_flow_rules_ok [OF ok(1)] run_shards_complete [OF ok(2)] Let_def fst_conv snd_conv L F C sr(3)
    by (simp add: sequential_walk_def comp_def)
qed

section \<open>Stopped walks\<close>

lemma runShard_prefix:
  "\<exists>n. shBuckets (runShard ctx slots stop i r bs) = shBuckets (foldl (visit_block ctx slots) r (take n bs))"
proof (induction bs arbitrary: i r)
  case (Cons b bs)
  obtain n where "shBuckets (runShard ctx slots stop (i + 1) (visit_block ctx slots r b) bs) =
      shBuckets (foldl (visit_block ctx slots) (visit_block ctx slots r b) (take n bs))"
    using Cons.IH by blast
  then show ?case
    by (cases "stop i") (auto intro: exI [of _ 0] exI [of _ "Suc n"])
qed simp

lemma subseq_concat_map: "list_all2 (\<lambda>x y. subseq (f x) (g y)) xs ys \<Longrightarrow> subseq (concat (map f xs)) (concat (map g ys))"
  by (induction rule: list_all2_induct) (auto intro: list_emb_append_mono)

lemma run_shards_bucket:
  assumes "i < length slots" "0 < w"
  shows "subseq (concat (map (\<lambda>r. shBuckets r ! i) (run_shards c ctx slots w)))
           (concat (map (\<lambda>b. fst (visit_slot ctx b (slots ! i))) (walked ctx)))"
proof -
  let ?full = "foldl (visit_block ctx slots) (new_shard (length slots))"
  have one: "subseq (shBuckets (runShard ctx slots stop 0 (new_shard (length slots)) bs) ! i) (shBuckets (?full bs) ! i)"
    for stop bs
  proof -
    obtain n where n: "shBuckets (runShard ctx slots stop 0 (new_shard (length slots)) bs) = shBuckets (?full (take n bs))"
      using runShard_prefix by blast
    have "shBuckets (?full bs) ! i = shBuckets (?full (take n bs)) ! i
        @ concat (map (\<lambda>b. fst (visit_slot ctx b (slots ! i))) (drop n bs))"
      using assms(1) by (simp add: foldl_visit_buckets flip: concat_append map_append)
    with n show ?thesis by (simp add: list_emb_append2 subseq_rev_drop_many)
  qed
  have "list_all2 (\<lambda>r r'. subseq (shBuckets r ! i) (shBuckets r' ! i)) (run_shards c ctx slots w) (shard_results ctx slots w)"
    by (rule list_all2_all_nthI) (simp_all add: run_shards_def shard_results_def nth_enumerate_eq one)
  from subseq_concat_map [OF this] show ?thesis
    using shard_results_fields(1) [OF assms(2,1)] by simp
qed

lemma run_flow_rules_prefix:
  "length (fst (run_flow_rules ctx stop k sls)) = length sls \<and>
   (\<forall>i < length sls. subseq (fst (run_flow_rules ctx stop k sls) ! i) (flow_findings ctx (sls ! i)))"
proof (induction sls arbitrary: k)
  case (Cons sl sls)
  have split: "(\<forall>i < length (sl # sls). P i) \<longleftrightarrow> P 0 \<and> (\<forall>i < length sls. P (Suc i))" for P
    using less_Suc_eq_0_disj by auto
  show ?case
    unfolding split using Cons.IH [of k] Cons.IH [of "k + 1"]
    by (simp add: case_prod_beta flow_findings_def [of _ sl])
qed simp

lemma collect_subseq:
  "subseq (wrFindings (collectFindings g c ctx slots)) (wrFindings (sequential_walk ctx slots))"
proof -
  let ?w = "walk_workers g (length (walked ctx))"
  let ?fl = "fst (run_flow_rules ctx (stopFlow c) 0 slots)"
  have slot: "subseq (?fl ! i @ concat (map (\<lambda>r. shBuckets r ! i) (run_shards c ctx slots ?w))) (slot_findings ctx (slots ! i))"
    if "i < length slots" for i
    unfolding slot_findings_def
    using run_flow_rules_prefix [of ctx "stopFlow c" 0 slots] run_shards_bucket [OF that walk_workers_pos] that
    by (intro list_emb_append_mono) auto
  have "subseq (concat (map (\<lambda>i. ?fl ! i @ concat (map (\<lambda>r. shBuckets r ! i) (run_shards c ctx slots ?w))) [0..<length slots]))
      (concat (map (\<lambda>i. slot_findings ctx (slots ! i)) [0..<length slots]))"
    by (rule subseq_concat_map) (simp add: list_all2_conv_all_nth slot)
  then show ?thesis by (simp add: collect_unfold Let_def sequential_walk_def map_nth_slots)
qed

definition never_cancelled :: cancellation where
  "never_cancelled = \<lparr>stopShard = (\<lambda>_ _. False), stopFlow = (\<lambda>_. False)\<rparr>"

lemma never_cancelled_complete: "wrComplete (collectFindings g never_cancelled ctx slots)"
  by (simp add: collect_unfold Let_def run_flow_rules_unstopped list_all_iff run_shards_def
      never_cancelled_def runShard_unstopped new_shard_def case_prod_beta)

section \<open>Parse errors\<close>

lemma foldl_max_init: "foldl max (max a b) xs = max a (foldl max b (xs :: nat list))"
  by (induction xs arbitrary: b) (simp_all add: max.assoc)

lemma foldl_max_append: "foldl max 0 (xs @ ys) = max (foldl max 0 xs) (foldl max 0 (ys :: nat list))"
  using foldl_max_init [of "foldl max 0 xs" 0 ys] by simp

lemma severity_rank_info [simp]: "severity_rank SeverityInfo = 1"
  by (simp add: severity_rank_def)

lemma parse_severity_rank: "1 \<le> severity_rank (severityForParseError s)"
  by (simp add: severityForParseError_def severity_rank_def)

abbreviation error_rank :: "ParseError \<Rightarrow> nat" where
  "error_rank pe \<equiv> severity_rank (severityForParseError (peSeverity pe))"

lemma worst_severity_rank:
  assumes "errs \<noteq> []"
  shows "severity_rank (worst_severity errs) = foldl max 0 (map error_rank errs)"
proof -
  let ?step = "\<lambda>worst pe. let s = severityForParseError (peSeverity pe)
     in if severity_rank s > severity_rank worst then s else worst"
  have run: "severity_rank (foldl ?step w es) = foldl max (severity_rank w) (map error_rank es)" for w es
    by (induction es arbitrary: w) (simp_all add: Let_def max_def)
  obtain e es where errs: "errs = e # es" using assms by (cases errs) auto
  have "max (1 :: nat) (error_rank e) = error_rank e" by (rule max_absorb2) (rule parse_severity_rank)
  then show ?thesis unfolding worst_severity_def run by (simp add: errs)
qed

lemma parse_error_finding_fields:
  "fRuleID (parse_error_finding b sf pe) = ''parse-error''" "fBlockID (parse_error_finding b sf pe) = b"
  "fSubflowID (parse_error_finding b sf pe) = sf"
  "fSeverity (parse_error_finding b sf pe) = severityForParseError (peSeverity pe)"
  by (simp_all add: parse_error_finding_def)

lemma truncation_finding_fields:
  "fRuleID (truncation_finding b sf errs) = ''parse-error''" "fBlockID (truncation_finding b sf errs) = b"
  "fSubflowID (truncation_finding b sf errs) = sf"
  "fSeverity (truncation_finding b sf errs) = worst_severity (drop maxParseErrorFindings errs)"
  by (simp_all add: truncation_finding_def Let_def)

lemmas parse_finding_fields = parse_error_finding_fields truncation_finding_fields

text \<open>
  a document with many parse errors gets at most \<open>maxParseErrorFindings\<close> + 1 parse-error
  findings, every one under the parse-error rule and anchored where the caller asked, and the
  summary finding that stands for the errors left out keeps the worst severity of them: the highest
  severity of the findings is the highest severity of all errors.
\<close>

theorem parse_error_findings_keep_worst:
  "let fs = buildParseErrorFindings errs blockID subflowID in
     length fs = min (length errs) (maxParseErrorFindings + 1) \<and>
     list_all (\<lambda>f. fRuleID f = ''parse-error'' \<and> fBlockID f = blockID \<and> fSubflowID f = subflowID) fs \<and>
     foldl max 0 (map (\<lambda>f. severity_rank (fSeverity f)) fs) = foldl max 0 (map error_rank errs)"
proof -
  let ?m = maxParseErrorFindings
  let ?fs = "buildParseErrorFindings errs blockID subflowID"
  let ?worst = "if ?m < length errs then [severity_rank (worst_severity (drop ?m errs))] else []"
  have fs: "map (\<lambda>f. severity_rank (fSeverity f)) ?fs = map error_rank (take ?m errs) @ ?worst"
    by (simp add: buildParseErrorFindings_def parse_finding_fields)
  have rest: "foldl max 0 ?worst = foldl max 0 (map error_rank (drop ?m errs))"
    using worst_severity_rank [of "drop ?m errs"] by (cases "?m < length errs") simp_all
  have errs: "map error_rank (take ?m errs) @ map error_rank (drop ?m errs) = map error_rank errs"
    unfolding map_append [symmetric] append_take_drop_id by (rule refl)
  have "foldl max 0 (map (\<lambda>f. severity_rank (fSeverity f)) ?fs) = foldl max 0 (map error_rank errs)"
    unfolding fs foldl_max_append rest foldl_max_append [symmetric] errs by (rule refl)
  moreover have "length ?fs = min (length errs) (?m + 1)"
    by (simp add: buildParseErrorFindings_def)
  moreover have "list_all (\<lambda>f. fRuleID f = ''parse-error'' \<and> fBlockID f = blockID \<and> fSubflowID f = subflowID) ?fs"
    by (auto simp: buildParseErrorFindings_def parse_finding_fields list_all_iff)
  ultimately show ?thesis by (simp only: Let_def)
qed

section \<open>The pipeline behind a report\<close>

definition engine_slots :: "engine_env \<Rightarrow> Rule list \<Rightarrow> AppSettings \<Rightarrow> slot list" where
  "engine_slots env rules settings =
     map (slot_of (envMeta env) settings) (filter (\<lambda>r. RuleEnabled (envMeta env) r settings) rules)"

text \<open>What the walk and the parse-error fallback hand to suppression and deduplication.\<close>

definition raw_findings :: "engine_env \<Rightarrow> RuleContext \<Rightarrow> Rule list \<Rightarrow> AppSettings \<Rightarrow> Finding list" where
  "raw_findings env ctx rules settings =
     (let w = collectFindings (envProcs env) (envCancel env) ctx (engine_slots env rules settings)
      in wrFindings w @ parseErrorFallback (envMeta env) (ctxFlow ctx) settings (wrFindings w))"

definition live_findings :: "engine_env \<Rightarrow> RuleContext \<Rightarrow> Rule list \<Rightarrow> AppSettings \<Rightarrow> Finding list" where
  "live_findings env ctx rules settings =
     filter (\<lambda>f. \<not> suppresses (collectInlineSuppressions (ctxFlow ctx)) f) (raw_findings env ctx rules settings)"

lemma analyze_report:
  "analyzeContext env ctx rules settings =
     (let raw = raw_findings env ctx rules settings; live = live_findings env ctx rules settings;
          slots = engine_slots env rules settings; keep = dedupKeep live;
          w = collectFindings (envProcs env) (envCancel env) ctx slots;
          findings = keptFindings (stampFindings (envHash env) (envMeta env) live keep (ctxFlow ctx)) keep
      in (\<lparr>arFlowID = docID (ctxFlow ctx), arFlowName = docName (ctxFlow ctx), arFindings = findings,
           arStats = (computeStats findings)\<lparr>stBlocksAnalyzed := totalBlocks ctx, stRulesRun := length slots,
             stRulesSkipped := wrSkipped w, stSuppressed := length raw - length live\<rparr>,
           arProfiles = map (\<lambda>i. (ruID (slRule (slots ! i)), wrCounts w ! i, wrChecked w ! i)) [0..<length slots]\<rparr>,
          wrComplete w))"
proof -
  have len: "length (filter P xs) = length xs - length (filter (\<lambda>x. \<not> P x) xs)" for P and xs :: "Finding list"
    using sum_length_filter_compl [of P xs] by simp
  show ?thesis
    unfolding analyzeContext_def engine_slots_def [symmetric] Let_def apply_filter prod.case
    by (simp only: raw_findings_def live_findings_def Let_def len [symmetric])
qed

lemma stamp_loop_keeps:
  assumes "\<And>n f. g (stamp_finding hash16 t flow n f) = g f" "length fs = length ks"
  shows "map g (keptFindings (stamp_loop hash16 t flow n fs ks) ks) = map g (keptFindings fs ks)"
  using assms(2)
proof (induction fs ks arbitrary: n rule: list_induct2)
  case (Cons f fs k ks)
  then show ?case by (simp add: assms(1))
qed simp

lemma stamp_fields:
  "fRuleID (stamp_finding hash16 t flow n f) = fRuleID f"
  "fBlockID (stamp_finding hash16 t flow n f) = fBlockID f"
  "dedupKey (stamp_finding hash16 t flow n f) = dedupKey f"
  by (simp_all add: stamp_finding_def dedupKey_def findingDiscriminator_def findingSubjects_def subject_of_def
      Let_def split: option.split)

lemma computeStats_counts:
  "stErrors (computeStats fs) = length (filter (\<lambda>f. fSeverity f = SeverityError) fs)"
  "stWarnings (computeStats fs) = length (filter (\<lambda>f. fSeverity f = SeverityWarning) fs)"
  "stInfo (computeStats fs) = length (filter (\<lambda>f. fSeverity f = SeverityInfo) fs)"
proof -
  have "stErrors (foldl stats_step st fs) = stErrors st + length (filter (\<lambda>f. fSeverity f = SeverityError) fs) \<and>
      stWarnings (foldl stats_step st fs) = stWarnings st + length (filter (\<lambda>f. fSeverity f = SeverityWarning) fs) \<and>
      stInfo (foldl stats_step st fs) = stInfo st + length (filter (\<lambda>f. fSeverity f = SeverityInfo) fs)" for st
    by (induction fs arbitrary: st) (simp_all add: stats_step_def)
  then show "stErrors (computeStats fs) = length (filter (\<lambda>f. fSeverity f = SeverityError) fs)"
    "stWarnings (computeStats fs) = length (filter (\<lambda>f. fSeverity f = SeverityWarning) fs)"
    "stInfo (computeStats fs) = length (filter (\<lambda>f. fSeverity f = SeverityInfo) fs)"
    unfolding computeStats_def by simp_all
qed

lemma fallback_surfaces:
  assumes "ParseErrors flow \<noteq> []" "RuleEnabled t ParseErrorRule settings"
  shows "\<exists>f \<in> set (fs @ parseErrorFallback t flow settings fs). fRuleID f = ''parse-error''"
proof (cases "list_ex (\<lambda>f. fRuleID f = ''parse-error'') fs")
  case True
  then show ?thesis by (auto simp: list_ex_iff)
next
  case False
  define sf where "sf = (case Subflows flow of [] \<Rightarrow> [] | sf # _ \<Rightarrow> sfID sf)"
  have "\<exists>f. f \<in> set (buildParseErrorFindings (ParseErrors flow) [] sf) \<and> fRuleID f = ''parse-error''"
    using assms(1)
    by (cases "ParseErrors flow") (auto simp: buildParseErrorFindings_def maxParseErrorFindings_def parse_finding_fields)
  then obtain f where f: "f \<in> set (buildParseErrorFindings (ParseErrors flow) [] sf)" "fRuleID f = ''parse-error''"
    by blast
  define g where "g = f\<lparr>fSeverity := (if severityOverride ParseErrorRule settings \<noteq> []
    then severityOverride ParseErrorRule settings else fSeverity f), fCategory := ruCategory ParseErrorRule\<rparr>"
  have "g \<in> set (parseErrorFallback t flow settings fs)"
    using assms False f(1) unfolding g_def by (simp add: parseErrorFallback_def Let_def sf_def [symmetric])
  moreover have "fRuleID g = ''parse-error''" using f(2) by (simp add: g_def)
  ultimately show ?thesis unfolding set_append by blast
qed

section \<open>The walk is the sequential walk\<close>

text \<open>
  C13: whatever the number of processors and however the shards and the flow loop race with a
  cancellation, a walk that reports itself complete is the sequential walk: same findings in the
  same order, same per-rule counters, same number of panics.
\<close>

theorem walk_complete_is_sequential:
  "wrComplete (collectFindings gomaxprocs c ctx slots) \<Longrightarrow>
     collectFindings gomaxprocs c ctx slots = sequential_walk ctx slots"
  by (rule collect_complete)

definition every_block_rule :: Rule where
  "every_block_rule = \<lparr>ruID = ''r'', ruDefaultSeverity = SeverityWarning, ruCategory = ''Style'', ruCustom = False, ruAutoFix = [],
     ruKind = kindBlock, ruCheck = (\<lambda>ctx b. Some [sample_finding ''r'' (bID (binfo b))]),
     ruCheckFlow = (\<lambda>ctx. Some [])\<rparr>"

definition late_cancel :: cancellation where
  "late_cancel = \<lparr>stopShard = (\<lambda>w i. i > 5), stopFlow = (\<lambda>k. k > 1)\<rparr>"

definition sample_slots :: "slot list" where
  "sample_slots = map (slot_of [] None) [ParseErrorRule, every_block_rule]"

theorem walk_complete_is_sequential_witness:
  "let ctx = buildContext (suppress_sample ''note''); w = collectFindings 4 late_cancel ctx sample_slots in
     wrComplete w \<and> wrFindings w \<noteq> [] \<and> w = sequential_walk ctx sample_slots"
proof -
  let ?ctx = "buildContext (suppress_sample ''note'')"
  have d: "wrComplete (collectFindings 4 late_cancel ?ctx sample_slots)" by code_simp
  have "wrFindings (collectFindings 4 late_cancel ?ctx sample_slots) \<noteq> []" by code_simp
  with d walk_complete_is_sequential [OF d] show ?thesis by (simp add: Let_def)
qed

text \<open>
  C14: a walk whose context is never cancelled always runs to its end, on any number of processors,
  and every enabled rule has then been consulted for every block.
\<close>

theorem uncancelled_walk_completes:
  "let w = collectFindings gomaxprocs never_cancelled ctx slots in
     wrComplete w \<and> wrFindings w = concat (map (slot_findings ctx) slots) \<and>
     wrChecked w = map (\<lambda>sl. if ruKind (slRule sl) = kindUnknown then 0
       else length (filter not_end (walkBlocks (ctxFlow ctx)))) slots"
  using collect_complete [OF never_cancelled_complete]
  by (simp add: sequential_walk_def walked_def Let_def)

text \<open>
  a walk cut short by a cancellation reports nothing the full walk would not have reported, and
  in the same order.
\<close>

theorem cancelled_walk_is_partial:
  "subseq (wrFindings (collectFindings gomaxprocs c ctx slots))
     (wrFindings (collectFindings gomaxprocs' never_cancelled ctx slots))"
  using collect_subseq collect_complete [OF never_cancelled_complete] by simp

end
