(* ===== verification/Context_Correct.thy ===== *)
theory Context_Correct
  imports Engine
begin

text \<open>
  The structural indexes of \<open>buildContext\<close> agree with the tree. The recursion is flattened into the
  list of sibling groups it visits; every index is then a sequence of updates, one list of pairs per
  group, and identifiers that never repeat make the updates independent.
\<close>

section \<open>Groups\<close>

text \<open>Parent identifier, subflow identifier, depth and blocks of a sibling group.\<close>

type_synonym group = "string \<times> string \<times> nat \<times> Block list"

primrec tree_groups :: "Block \<Rightarrow> string \<Rightarrow> nat \<Rightarrow> group list" where
  "tree_groups (Block b cs) sf d =
     (if cs = [] then [] else (bID b, sf, d + 1, cs) # concat (map (\<lambda>c. tree_groups c sf (d + 1)) cs))"

definition subflow_groups :: "Subflow \<Rightarrow> group list" where
  "subflow_groups sf = ([], sfID sf, 0, sfBlocks sf) # concat (map (\<lambda>b. tree_groups b (sfID sf) 0) (sfBlocks sf))"

definition doc_groups :: "FlowDocument \<Rightarrow> group list" where
  "doc_groups flow = concat (map subflow_groups (Subflows flow))"

definition group_key :: "group \<Rightarrow> string" where
  "group_key g = (case g of (p, sf, d, bs) \<Rightarrow> if p = [] then sf else p)"

definition group_ptrs :: "group \<Rightarrow> Block list" where
  "group_ptrs g = (case g of (p, sf, d, bs) \<Rightarrow> filter not_end bs)"

definition add_group :: "RuleContext \<Rightarrow> group \<Rightarrow> RuleContext" where
  "add_group ctx g = (case g of (p, sf, d, bs) \<Rightarrow> index_group ctx bs p sf d)"

text \<open>The context without the descendant counts, which are credited on the way back.\<close>

definition core :: "RuleContext \<Rightarrow> RuleContext" where
  "core ctx = ctx\<lparr>DescendantCount := []\<rparr>"

lemma core_index_block: "core (foldl (index_block p k d) ctx xs) = foldl (index_block p k d) (core ctx) xs"
proof -
  have "core (index_block p k d ctx x) = index_block p k d (core ctx) x" for ctx x
    by (rule RuleContext.equality) (simp_all add: index_block_def core_def Let_def case_prod_beta)
  then show ?thesis by (induction xs arbitrary: ctx) simp_all
qed

lemma core_add_group: "core (add_group ctx g) = add_group (core ctx) g"
proof -
  obtain p sf d bs where g: "g = (p, sf, d, bs)" by (cases g) auto
  show ?thesis
    unfolding g add_group_def prod.case index_group_def Let_def core_index_block [symmetric]
    by (intro RuleContext.equality) (simp_all add: core_def split: option.split)
qed

lemma core_add_groups: "core (foldl add_group ctx gs) = foldl add_group (core ctx) gs"
  by (induction gs arbitrary: ctx) (simp_all add: core_add_group)

lemma core_credit [simp]: "core (credit_descendants ctx bs p) = core ctx"
  by (simp add: credit_descendants_def core_def Let_def)

lemma collect_groups:
  "core (collectBlocks ctx bs p sf d) =
     foldl add_group (core ctx) ((p, sf, d, bs) # concat (map (\<lambda>b. tree_groups b sf d) bs))"
  "core (collect_children ctx bs sf d) = foldl add_group (core ctx) (concat (map (\<lambda>b. tree_groups b sf d) bs))"
proof (induction ctx bs p sf d and ctx bs sf d rule: collectBlocks_collect_children.induct)
  case (1 ctx blocks parentID subflowID depth)
  then show ?case using core_add_group [of ctx "(parentID, subflowID, depth, blocks)"]
    by (simp add: collectBlocks.simps add_group_def)
qed (simp_all add: core_add_groups)

section \<open>Sequences of updates\<close>

definition updates :: "(string \<times> 'a) list \<Rightarrow> (string \<times> 'a) list \<Rightarrow> (string \<times> 'a) list" where
  "updates m ps = foldl (\<lambda>m (k, v). AList.update k v m) m ps"

lemma updates_simps [simp]:
  "updates m [] = m" "updates m ((k, v) # ps) = updates (AList.update k v m) ps"
  "updates m (ps @ qs) = updates (updates m ps) qs"
  by (simp_all add: updates_def)

lemma map_of_updates:
  "distinct (map fst ps) \<Longrightarrow> map_of (updates m ps) k = (case map_of ps k of None \<Rightarrow> map_of m k | Some v \<Rightarrow> Some v)"
proof (induction ps arbitrary: m)
  case (Cons kv ps)
  obtain k' v where kv: "kv = (k', v)" by force
  with Cons.prems have "map_of ps k' = None" by (simp add: map_of_eq_None_iff)
  with Cons kv show ?case by (auto simp: AList.update_conv' split: option.split)
qed simp

text \<open>The pairs a group contributes to each index.\<close>

definition block_pairs :: "(nat \<Rightarrow> Block \<Rightarrow> 'a) \<Rightarrow> group \<Rightarrow> (string \<times> 'a) list" where
  "block_pairs f g = map (\<lambda>(i, b). (bID (binfo b), f i b)) (enumerate 0 (group_ptrs g))"

definition terminator_pairs :: "group \<Rightarrow> (string \<times> nat) list" where
  "terminator_pairs g = (case first_terminator (group_ptrs g) of None \<Rightarrow> [] | Some i \<Rightarrow> [(group_key g, i)])"

lemma index_block_fields:
  "BlockIndex (foldl (index_block p k d) ctx xs) = updates (BlockIndex ctx) (map (\<lambda>(i, b). (bID (binfo b), i)) xs)"
  "SiblingKey (foldl (index_block p k d) ctx xs) = updates (SiblingKey ctx) (map (\<lambda>(i, b). (bID (binfo b), k)) xs)"
  "AllBlocks (foldl (index_block p k d) ctx xs) = updates (AllBlocks ctx) (map (\<lambda>(i, b). (bID (binfo b), b)) xs)"
  "BlockDepth (foldl (index_block p k d) ctx xs) = updates (BlockDepth ctx) (map (\<lambda>(i, b). (bID (binfo b), d)) xs)"
  "SiblingMap (foldl (index_block p k d) ctx xs) = SiblingMap ctx"
  "TerminatorIndex (foldl (index_block p k d) ctx xs) = TerminatorIndex ctx"
  "totalBlocks (foldl (index_block p k d) ctx xs) = totalBlocks ctx + length xs"
  by (induction xs arbitrary: ctx) (auto simp: index_block_def Let_def)

lemma add_group_fields:
  "BlockIndex (add_group ctx g) = updates (BlockIndex ctx) (block_pairs (\<lambda>i b. i) g)"
  "SiblingKey (add_group ctx g) = updates (SiblingKey ctx) (block_pairs (\<lambda>i b. group_key g) g)"
  "AllBlocks (add_group ctx g) = updates (AllBlocks ctx) (block_pairs (\<lambda>i b. b) g)"
  "BlockDepth (add_group ctx g) = updates (BlockDepth ctx) (block_pairs (\<lambda>i b. fst (snd (snd g))) g)"
  "SiblingMap (add_group ctx g) = updates (SiblingMap ctx) [(group_key g, group_ptrs g)]"
  "TerminatorIndex (add_group ctx g) = updates (TerminatorIndex ctx) (terminator_pairs g)"
  "totalBlocks (add_group ctx g) = totalBlocks ctx + length (group_ptrs g)"
proof -
  obtain p sf d bs where g: "g = (p, sf, d, bs)" by (cases g) auto
  show "BlockIndex (add_group ctx g) = updates (BlockIndex ctx) (block_pairs (\<lambda>i b. i) g)"
    "SiblingKey (add_group ctx g) = updates (SiblingKey ctx) (block_pairs (\<lambda>i b. group_key g) g)"
    "AllBlocks (add_group ctx g) = updates (AllBlocks ctx) (block_pairs (\<lambda>i b. b) g)"
    "BlockDepth (add_group ctx g) = updates (BlockDepth ctx) (block_pairs (\<lambda>i b. fst (snd (snd g))) g)"
    "SiblingMap (add_group ctx g) = updates (SiblingMap ctx) [(group_key g, group_ptrs g)]"
    "TerminatorIndex (add_group ctx g) = updates (TerminatorIndex ctx) (terminator_pairs g)"
    "totalBlocks (add_group ctx g) = totalBlocks ctx + length (group_ptrs g)"
    by (simp_all add: g add_group_def index_group_def Let_def index_block_fields block_pairs_def group_ptrs_def
        group_key_def terminator_pairs_def split: option.split)
qed

lemma add_groups_fields:
  "BlockIndex (foldl add_group ctx gs) = updates (BlockIndex ctx) (concat (map (block_pairs (\<lambda>i b. i)) gs))"
  "SiblingKey (foldl add_group ctx gs) = updates (SiblingKey ctx) (concat (map (\<lambda>g. block_pairs (\<lambda>i b. group_key g) g) gs))"
  "AllBlocks (foldl add_group ctx gs) = updates (AllBlocks ctx) (concat (map (block_pairs (\<lambda>i b. b)) gs))"
  "BlockDepth (foldl add_group ctx gs) = updates (BlockDepth ctx) (concat (map (\<lambda>g. block_pairs (\<lambda>i b. fst (snd (snd g))) g) gs))"
  "SiblingMap (foldl add_group ctx gs) = updates (SiblingMap ctx) (map (\<lambda>g. (group_key g, group_ptrs g)) gs)"
  "TerminatorIndex (foldl add_group ctx gs) = updates (TerminatorIndex ctx) (concat (map terminator_pairs gs))"
  "totalBlocks (foldl add_group ctx gs) = totalBlocks ctx + length (concat (map group_ptrs gs))"
  by (induction gs arbitrary: ctx) (simp_all add: add_group_fields)

section \<open>The context of a document\<close>

lemma core_fields [simp]:
  "BlockIndex (core ctx) = BlockIndex ctx" "SiblingKey (core ctx) = SiblingKey ctx" "AllBlocks (core ctx) = AllBlocks ctx"
  "BlockDepth (core ctx) = BlockDepth ctx" "SiblingMap (core ctx) = SiblingMap ctx"
  "TerminatorIndex (core ctx) = TerminatorIndex ctx" "totalBlocks (core ctx) = totalBlocks ctx"
  by (simp_all add: core_def)

text \<open>An index that \<open>core\<close> keeps and the subflow maps do not touch.\<close>

definition group_index :: "(RuleContext \<Rightarrow> 'a) \<Rightarrow> bool" where
  "group_index F \<longleftrightarrow> (\<forall>ctx. F (core ctx) = F ctx) \<and>
     (\<forall>ctx a b. F (ctx\<lparr>SubflowByID := a, SubflowByName := b\<rparr>) = F ctx) \<and> (\<forall>ctx a. F (ctx\<lparr>FirstReaderByVar := a\<rparr>) = F ctx)"

lemma group_indexes [simp]:
  "group_index BlockIndex" "group_index SiblingKey" "group_index AllBlocks" "group_index BlockDepth"
  "group_index SiblingMap" "group_index TerminatorIndex" "group_index totalBlocks"
  by (simp_all add: group_index_def)

text \<open>Indexing a group commutes with replacing the subflow maps.\<close>

definition with_maps :: "(string \<times> Subflow) list \<times> (string \<times> Subflow) list \<Rightarrow> RuleContext \<Rightarrow> RuleContext" where
  "with_maps ab ctx = ctx\<lparr>SubflowByID := fst ab, SubflowByName := snd ab\<rparr>"

lemma index_block_maps: "foldl (index_block p k d) (with_maps ab ctx) xs = with_maps ab (foldl (index_block p k d) ctx xs)"
proof -
  have "index_block p k d (with_maps ab ctx) x = with_maps ab (index_block p k d ctx x)" for ctx x
    by (rule RuleContext.equality) (simp_all add: index_block_def with_maps_def Let_def case_prod_beta)
  then show ?thesis by (induction xs arbitrary: ctx) simp_all
qed

lemma add_group_maps: "foldl add_group (with_maps ab ctx) gs = with_maps ab (foldl add_group ctx gs)"
proof -
  have "add_group (with_maps ab ctx) g = with_maps ab (add_group ctx g)" for ctx g
    by (cases g, intro RuleContext.equality)
      (simp_all add: add_group_def index_group_def Let_def index_block_maps, simp_all add: with_maps_def split: option.split)
  then show ?thesis by (induction gs arbitrary: ctx) simp_all
qed

lemma core_maps: "core (with_maps ab ctx) = with_maps ab (core ctx)"
  by (rule RuleContext.equality) (simp_all add: core_def with_maps_def)

lemma with_maps_self: "\<exists>ab. ctx = with_maps ab ctx"
  by (rule exI [of _ "(SubflowByID ctx, SubflowByName ctx)"]) (simp add: with_maps_def)

lemma with_maps_twice [simp]: "with_maps ab (with_maps cd ctx) = with_maps ab ctx"
  by (rule RuleContext.equality) (simp_all add: with_maps_def)

definition like :: "RuleContext \<Rightarrow> RuleContext \<Rightarrow> bool" where
  "like ctx ctx' \<longleftrightarrow> (\<exists>ab. core ctx = with_maps ab (core ctx'))"

lemma like_subflow:
  assumes "like ctx ctx'"
  shows "like (context_subflow ctx sf) (foldl add_group ctx' (subflow_groups sf))"
proof -
  from assms obtain ab where ab: "core ctx = with_maps ab (core ctx')" unfolding like_def by blast
  obtain cd where "context_subflow ctx sf = with_maps cd (collectBlocks ctx (sfBlocks sf) [] (sfID sf) 0)"
    unfolding context_subflow_def Let_def with_maps_def by (metis fst_conv snd_conv)
  then have "core (context_subflow ctx sf) = with_maps cd (foldl add_group (core ctx) (subflow_groups sf))"
    by (simp add: core_maps collect_groups subflow_groups_def)
  then show ?thesis unfolding like_def ab add_group_maps core_add_groups with_maps_twice by blast
qed

lemma like_subflows:
  "like ctx ctx' \<Longrightarrow> like (foldl context_subflow ctx sfs) (foldl add_group ctx' (concat (map subflow_groups sfs)))"
  by (induction sfs arbitrary: ctx ctx') (simp_all add: like_subflow)

lemma context_index:
  assumes "group_index F"
  shows "F (buildContext flow) = F (foldl add_group (empty_context flow) (doc_groups flow))"
proof -
  have F: "F (core ctx) = F ctx" "F (with_maps ab ctx) = F ctx" for ctx ab
    using assms by (simp_all add: group_index_def with_maps_def)
  have "like (empty_context flow) (empty_context flow)"
    unfolding like_def by (metis with_maps_self core_maps)
  from like_subflows [OF this, of "Subflows flow"]
  have "F (foldl context_subflow (empty_context flow) (Subflows flow)) = F (foldl add_group (empty_context flow) (doc_groups flow))"
    unfolding like_def doc_groups_def by (metis F)
  then show ?thesis using assms by (simp add: buildContext_def Let_def group_index_def)
qed

lemma empty_context_fields [simp]:
  "BlockIndex (empty_context flow) = []" "SiblingKey (empty_context flow) = []" "AllBlocks (empty_context flow) = []"
  "BlockDepth (empty_context flow) = []" "SiblingMap (empty_context flow) = []"
  "TerminatorIndex (empty_context flow) = []" "totalBlocks (empty_context flow) = 0"
  by (simp_all add: empty_context_def)

lemmas context_fields = context_index [OF group_indexes(1)] context_index [OF group_indexes(2)]
  context_index [OF group_indexes(3)] context_index [OF group_indexes(4)] context_index [OF group_indexes(5)]
  context_index [OF group_indexes(6)] context_index [OF group_indexes(7)] add_groups_fields empty_context_fields

section \<open>Identifiers that never repeat\<close>

definition block_ids :: "Block list \<Rightarrow> string list" where
  "block_ids bs = map (bID \<circ> binfo) bs"

definition doc_ids_ok :: "FlowDocument \<Rightarrow> bool" where
  "doc_ids_ok flow \<longleftrightarrow>
     distinct (map sfID (Subflows flow) @ block_ids (walkBlocks flow)) \<and> [] \<notin> set (block_ids (walkBlocks flow))"

definition group_blocks :: "group \<Rightarrow> Block list" where
  "group_blocks g = snd (snd (snd g))"

lemma group_simps [simp]:
  "group_blocks (p, sf, d, bs) = bs" "group_ptrs (p, sf, d, bs) = filter not_end bs"
  "group_key (p, sf, d, bs) = (if p = [] then sf else p)"
  by (simp_all add: group_blocks_def group_ptrs_def group_key_def)

lemma group_ptrs_blocks: "group_ptrs g = filter not_end (group_blocks g)"
  by (cases g) simp

lemma add_mset_split: "add_mset x A = P \<Longrightarrow> M + B = Q \<Longrightarrow> add_mset x M + (A + B) = P + Q"
  by (auto simp: ac_simps)

lemma forest_groups_step:
  assumes "\<And>x. x \<in> set bs \<Longrightarrow> add_mset x (mset (concat (map group_blocks (tree_groups x sf d)))) = mset (preorder x)"
  shows "mset bs + mset (concat (map group_blocks (concat (map (\<lambda>c. tree_groups c sf d) bs)))) = mset (forest_blocks bs)"
  using assms
proof (induction bs)
  case (Cons b bs)
  have "add_mset b (mset (concat (map group_blocks (tree_groups b sf d)))) = mset (preorder b)" using Cons.prems by simp
  from add_mset_split [OF this Cons.IH [OF Cons.prems]] show ?case by simp
qed simp

lemma tree_groups_blocks: "add_mset b (mset (concat (map group_blocks (tree_groups b sf d)))) = mset (preorder b)"
proof (induction b arbitrary: d)
  case (Block b cs)
  from forest_groups_step [OF Block.IH, of cs "d + 1"] show ?case
    by (simp add: forest_blocks_def)
qed

lemma forest_groups_blocks:
  "mset bs + mset (concat (map group_blocks (concat (map (\<lambda>c. tree_groups c sf d) bs)))) = mset (forest_blocks bs)"
  by (rule forest_groups_step) (rule tree_groups_blocks)

lemma doc_groups_blocks: "mset (concat (map group_blocks (doc_groups flow))) = mset (walkBlocks flow)"
proof -
  have "mset (concat (map group_blocks (subflow_groups sf))) = mset (forest_blocks (sfBlocks sf))" for sf
    using forest_groups_blocks [of "sfBlocks sf" "sfID sf" 0] by (simp add: subflow_groups_def)
  then have "mset (concat (map group_blocks (concat (map subflow_groups sfs)))) = mset (doc_blocks sfs)" for sfs
    by (induction sfs) (simp_all add: doc_blocks_def)
  then show ?thesis by (simp add: doc_groups_def walkBlocks_def)
qed

lemma distinct_submset:
  assumes "mset xs \<subseteq># mset ys" "distinct ys"
  shows "distinct xs"
  unfolding distinct_count_atmost_1
proof
  fix a
  have "count (mset xs) a \<le> count (mset ys) a" using assms(1) by (rule mset_subset_eq_count)
  also have "\<dots> \<le> 1" using assms(2) by (simp add: distinct_count_atmost_1)
  finally have "count (mset xs) a \<le> 1" .
  moreover have "count (mset xs) a > 0 \<longleftrightarrow> a \<in> set xs" by (metis count_greater_zero_iff set_mset_mset)
  ultimately show "count (mset xs) a = (if a \<in> set xs then 1 else 0)"
    by (cases "count (mset xs) a") auto
qed

lemma group_keys:
  "[] \<notin> set (block_ids (preorder b)) \<Longrightarrow>
     map group_key (tree_groups b sf d) = block_ids (filter (\<lambda>b. Children b \<noteq> []) (preorder b))"
proof (induction b arbitrary: d)
  case (Block b cs)
  have "map (\<lambda>c. map group_key (tree_groups c sf (d + 1))) cs =
      map (\<lambda>c. block_ids (filter (\<lambda>b. Children b \<noteq> []) (preorder c))) cs"
    using Block by (intro map_cong) (auto simp: block_ids_def)
  then show ?case
    using Block.prems by (auto simp: block_ids_def map_concat filter_concat comp_def cong: map_cong)
qed

lemma subflow_group_keys:
  assumes "[] \<notin> set (block_ids (forest_blocks (sfBlocks sf)))"
  shows "map group_key (subflow_groups sf) = sfID sf # block_ids (filter (\<lambda>b. Children b \<noteq> []) (forest_blocks (sfBlocks sf)))"
proof -
  have "map (\<lambda>c. map group_key (tree_groups c (sfID sf) 0)) (sfBlocks sf) =
      map (\<lambda>c. block_ids (filter (\<lambda>b. Children b \<noteq> []) (preorder c))) (sfBlocks sf)"
    using assms by (intro map_cong refl group_keys) (auto simp: block_ids_def forest_blocks_def)
  then show ?thesis
    by (simp add: subflow_groups_def forest_blocks_def block_ids_def map_concat filter_concat comp_def cong: map_cong)
qed

lemma doc_keys_submset:
  assumes "[] \<notin> set (block_ids (doc_blocks sfs))"
  shows "mset (map group_key (concat (map subflow_groups sfs))) \<subseteq># mset (map sfID sfs @ block_ids (doc_blocks sfs))"
  using assms
proof (induction sfs)
  case (Cons sf sfs)
  have "[] \<notin> set (block_ids (forest_blocks (sfBlocks sf)))" "[] \<notin> set (block_ids (doc_blocks sfs))"
    using Cons.prems by (auto simp: doc_blocks_def block_ids_def)
  note k = subflow_group_keys [OF this(1)] and IH = Cons.IH [OF this(2)]
  have "mset (block_ids (filter (\<lambda>b. Children b \<noteq> []) (forest_blocks (sfBlocks sf)))) \<subseteq># mset (block_ids (forest_blocks (sfBlocks sf)))"
    by (simp add: block_ids_def image_mset_subseteq_mono)
  from subset_mset.add_mono [OF this IH] k show ?case
    by (simp add: doc_blocks_def block_ids_def ac_simps)
qed simp

lemma doc_keys_distinct:
  assumes "doc_ids_ok flow"
  shows "distinct (map group_key (doc_groups flow))"
  using assms distinct_submset [OF doc_keys_submset [of "Subflows flow"]]
  by (simp add: doc_ids_ok_def doc_groups_def walkBlocks_def)

lemma doc_members_distinct:
  assumes "doc_ids_ok flow"
  shows "distinct (block_ids (concat (map group_ptrs (doc_groups flow))))"
proof -
  have ptrs: "concat (map group_ptrs gs) = filter not_end (concat (map group_blocks gs))" for gs
    by (induction gs) (simp_all add: group_ptrs_blocks)
  have "mset (concat (map group_ptrs (doc_groups flow))) = mset (filter not_end (walkBlocks flow))"
    by (simp only: ptrs mset_filter doc_groups_blocks)
  then have "mset (block_ids (concat (map group_ptrs (doc_groups flow)))) \<subseteq># mset (block_ids (walkBlocks flow))"
    by (simp add: block_ids_def image_mset_subseteq_mono)
  from distinct_submset [OF this] assms show ?thesis by (simp add: doc_ids_ok_def)
qed

lemma block_ids_append: "block_ids (xs @ ys) = block_ids xs @ block_ids ys" "block_ids [] = []"
  by (simp_all add: block_ids_def)

lemma block_pairs_key: "map fst (block_pairs h g) = block_ids (group_ptrs g)"
  by (rule nth_equalityI) (simp_all add: block_pairs_def block_ids_def nth_enumerate_eq case_prod_beta)

lemma block_pairs_keys: "map fst (concat (map (\<lambda>g. block_pairs (f g) g) gs)) = block_ids (concat (map group_ptrs gs))"
  by (induction gs) (simp_all add: block_pairs_key block_ids_append)

text \<open>The pairs for the \<open>i\<close>-th member of a group.\<close>

lemma block_index_at:
  assumes "distinct (block_ids (concat (map group_ptrs gs)))" "g \<in> set gs" "i < length (group_ptrs g)"
  shows "map_of (updates [] (concat (map (\<lambda>g. block_pairs (f g) g) gs))) (bID (binfo (group_ptrs g ! i))) =
    Some (f g i (group_ptrs g ! i))"
proof -
  let ?ps = "concat (map (\<lambda>g. block_pairs (f g) g) gs)"
  have d: "distinct (map fst ?ps)" using assms(1) by (simp only: block_pairs_keys)
  have "(bID (binfo (group_ptrs g ! i)), f g i (group_ptrs g ! i)) \<in> set (block_pairs (f g) g)"
    using assms(3) by (auto simp: block_pairs_def set_conv_nth nth_enumerate_eq intro!: exI [of _ i])
  with assms(2) have "(bID (binfo (group_ptrs g ! i)), f g i (group_ptrs g ! i)) \<in> set ?ps" by auto
  with d show ?thesis by (simp add: map_of_updates map_of_is_SomeI)
qed

lemma terminator_keys: "k \<in> fst ` set (concat (map terminator_pairs gs)) \<Longrightarrow> k \<in> group_key ` set gs"
  by (induction gs) (auto simp: terminator_pairs_def split: option.splits)

lemma terminators_distinct: "distinct (map group_key gs) \<Longrightarrow> distinct (map fst (concat (map terminator_pairs gs)))"
proof (induction gs)
  case (Cons g gs)
  have "group_key g \<notin> fst ` set (concat (map terminator_pairs gs))" using Cons.prems terminator_keys by auto
  with Cons show ?case by (cases "first_terminator (group_ptrs g)") (simp_all add: terminator_pairs_def)
qed simp

lemma terminator_at:
  "distinct (map group_key gs) \<Longrightarrow> g \<in> set gs \<Longrightarrow>
     map_of (concat (map terminator_pairs gs)) (group_key g) = first_terminator (group_ptrs g)"
proof (induction gs)
  case (Cons h gs)
  have none: "map_of (concat (map terminator_pairs gs)) (group_key h) = None"
    using Cons.prems(1) terminator_keys [of "group_key h" gs] by (auto simp: map_of_eq_None_iff)
  show ?case
  proof (cases "g = h")
    case True
    with none show ?thesis
      by (cases "first_terminator (group_ptrs h)") (simp_all add: terminator_pairs_def [of h])
  next
    case False
    with Cons.prems have "group_key g \<noteq> group_key h" by (metis distinct.simps(2) imageI list.simps(9) set_ConsD set_map)
    with False Cons show ?thesis
      by (cases "first_terminator (group_ptrs h)") (simp_all add: terminator_pairs_def [of h])
  qed
qed simp

lemma group_entry_at:
  assumes ok: "doc_ids_ok flow" and g: "g \<in> set (doc_groups flow)"
  shows "map_of (SiblingMap (buildContext flow)) (group_key g) = Some (group_ptrs g)"
    and "map_of (TerminatorIndex (buildContext flow)) (group_key g) = first_terminator (group_ptrs g)"
proof -
  note d = doc_keys_distinct [OF ok]
  have "map_of (map (\<lambda>g. (group_key g, group_ptrs g)) (doc_groups flow)) (group_key g) = Some (group_ptrs g)"
    using d g by (intro map_of_is_SomeI) (auto simp: comp_def)
  then show "map_of (SiblingMap (buildContext flow)) (group_key g) = Some (group_ptrs g)"
    using d by (simp add: context_fields map_of_updates comp_def)
  show "map_of (TerminatorIndex (buildContext flow)) (group_key g) = first_terminator (group_ptrs g)"
    using terminators_distinct [OF d] terminator_at [OF d g]
    by (simp add: context_fields map_of_updates split: option.split)
qed

lemma context_at:
  assumes ok: "doc_ids_ok flow" and g: "g \<in> set (doc_groups flow)" and i: "i < length (group_ptrs g)"
  defines "ctx \<equiv> buildContext flow" and "bid \<equiv> bID (binfo (group_ptrs g ! i))"
  shows "map_of (BlockIndex ctx) bid = Some i" "map_of (SiblingKey ctx) bid = Some (group_key g)"
    and "map_of (AllBlocks ctx) bid = Some (group_ptrs g ! i)" "map_of (BlockDepth ctx) bid = Some (fst (snd (snd g)))"
    and "map_of (SiblingMap ctx) (group_key g) = Some (group_ptrs g)"
    and "map_of (TerminatorIndex ctx) (group_key g) = first_terminator (group_ptrs g)"
proof -
  note at = block_index_at [OF doc_members_distinct [OF ok] g i]
  show "map_of (BlockIndex ctx) bid = Some i" using at [of "\<lambda>g i b. i"] by (simp add: ctx_def bid_def context_fields)
  show "map_of (SiblingKey ctx) bid = Some (group_key g)"
    using at [of "\<lambda>g i b. group_key g"] by (simp add: ctx_def bid_def context_fields)
  show "map_of (AllBlocks ctx) bid = Some (group_ptrs g ! i)"
    using at [of "\<lambda>g i b. b"] by (simp add: ctx_def bid_def context_fields)
  show "map_of (BlockDepth ctx) bid = Some (fst (snd (snd g)))"
    using at [of "\<lambda>g i b. fst (snd (snd g))"] by (simp add: ctx_def bid_def context_fields)
  show "map_of (SiblingMap ctx) (group_key g) = Some (group_ptrs g)"
    "map_of (TerminatorIndex ctx) (group_key g) = first_terminator (group_ptrs g)"
    unfolding ctx_def by (rule group_entry_at [OF ok g])+
qed

lemma first_terminator_iff:
  "(case first_terminator ptrs of None \<Rightarrow> False | Some t \<Rightarrow> t < i) \<longleftrightarrow> (\<exists>j < min i (length ptrs). isTerminator (binfo (ptrs ! j)))"
proof (cases "first_terminator ptrs")
  case None
  then have "\<forall>j < length ptrs. \<not> isTerminator (binfo (ptrs ! j))"
    by (auto simp: first_terminator_def find_None_iff in_set_enumerate_eq)
  with None show ?thesis by simp
next
  case (Some t)
  then obtain b where "find (\<lambda>(i, b). isTerminator (binfo b)) (enumerate 0 ptrs) = Some (t, b)"
    by (auto simp: first_terminator_def)
  then have "t < length ptrs" "isTerminator (binfo (ptrs ! t))" "\<forall>j < t. \<not> isTerminator (binfo (ptrs ! j))"
    by (auto simp: find_Some_iff nth_enumerate_eq)
  with Some show ?thesis by (metis (no_types, lifting) linorder_neqE_nat min_less_iff_conj option.simps(5) order_less_trans)
qed

section \<open>Parents and handlers in the indexes\<close>

lemma updates_rev: "map_of (updates m ps) k = (case map_of (rev ps) k of None \<Rightarrow> map_of m k | Some v \<Rightarrow> Some v)"
proof (induction ps arbitrary: m)
  case (Cons p ps)
  then show ?case by (cases p) (auto simp: AList.update_conv' map_add_def split: option.split)
qed simp

lemma updates_functional:
  assumes "\<forall>v v'. (k, v) \<in> set ps \<longrightarrow> (k, v') \<in> set ps \<longrightarrow> v = v'"
  shows "map_of (updates [] ps) k = Some v \<longleftrightarrow> (k, v) \<in> set ps"
proof
  assume "map_of (updates [] ps) k = Some v"
  then have "map_of (rev ps) k = Some v" by (simp add: updates_rev split: option.splits)
  then show "(k, v) \<in> set ps" by (metis map_of_SomeD set_rev)
next
  assume v: "(k, v) \<in> set ps"
  then obtain v' where v': "map_of (rev ps) k = Some v'" by (metis set_rev weak_map_of_SomeI)
  then have "(k, v') \<in> set ps" by (metis map_of_SomeD set_rev)
  with assms v v' show "map_of (updates [] ps) k = Some v" by (auto simp: updates_rev)
qed

lemma block_pairs_map: "block_pairs (\<lambda>_. h) g = map (\<lambda>b. (bID (binfo b), h b)) (group_ptrs g)"
proof -
  have "map (\<lambda>(i, b). (bID (binfo b), h b)) xs = map (\<lambda>b. (bID (binfo b), h b)) (map snd xs)" for xs :: "(nat \<times> Block) list"
    by (induction xs) auto
  then show ?thesis unfolding block_pairs_def by (simp only: map_snd_enumerate)
qed

definition parent_pairs :: "group \<Rightarrow> (string \<times> string) list" where
  "parent_pairs g = (if fst g = [] then [] else block_pairs (\<lambda>_ _. fst g) g)"

definition handler_pairs :: "group \<Rightarrow> (string \<times> bool) list" where
  "handler_pairs g = (if list_ex (\<lambda>b. bType (binfo b) = BlockTypeErrorHandler) (group_ptrs g) then [(group_key g, True)] else [])"

lemma group_index_more [simp]: "group_index ParentMap" "group_index GroupHasHandler"
  by (simp_all add: group_index_def core_def)

lemma index_block_parent:
  "ParentMap (foldl (index_block p k d) ctx xs) = (if p = [] then ParentMap ctx else updates (ParentMap ctx) (map (\<lambda>(i, b). (bID (binfo b), p)) xs))"
  "GroupHasHandler (foldl (index_block p k d) ctx xs) = GroupHasHandler ctx"
  by (induction xs arbitrary: ctx) (auto simp: index_block_def Let_def)

lemma add_group_parent:
  "ParentMap (add_group ctx g) = updates (ParentMap ctx) (parent_pairs g)"
  "GroupHasHandler (add_group ctx g) = updates (GroupHasHandler ctx) (handler_pairs g)"
proof -
  obtain p sf d bs where g: "g = (p, sf, d, bs)" by (cases g) auto
  show "ParentMap (add_group ctx g) = updates (ParentMap ctx) (parent_pairs g)"
    "GroupHasHandler (add_group ctx g) = updates (GroupHasHandler ctx) (handler_pairs g)"
    by (simp_all add: g add_group_def index_group_def Let_def index_block_parent block_pairs_def parent_pairs_def handler_pairs_def
        split: option.split)
qed

lemma context_parents:
  "ParentMap (buildContext flow) = updates [] (concat (map parent_pairs (doc_groups flow)))"
  "GroupHasHandler (buildContext flow) = updates [] (concat (map handler_pairs (doc_groups flow)))"
proof -
  have "ParentMap (foldl add_group ctx gs) = updates (ParentMap ctx) (concat (map parent_pairs gs))"
    "GroupHasHandler (foldl add_group ctx gs) = updates (GroupHasHandler ctx) (concat (map handler_pairs gs))" for ctx gs
    by (induction gs arbitrary: ctx) (simp_all add: add_group_parent)
  then show "ParentMap (buildContext flow) = updates [] (concat (map parent_pairs (doc_groups flow)))"
    "GroupHasHandler (buildContext flow) = updates [] (concat (map handler_pairs (doc_groups flow)))"
    by (simp_all add: context_index empty_context_def)
qed

lemma group_of_member:
  assumes "doc_ids_ok flow" "g \<in> set (doc_groups flow)" "h \<in> set (doc_groups flow)"
    and "b \<in> set (group_ptrs g)" "c \<in> set (group_ptrs h)" "bID (binfo b) = bID (binfo c)"
  shows "g = h"
proof -
  obtain i where "i < length (group_ptrs g)" "b = group_ptrs g ! i" using assms(4) unfolding in_set_conv_nth by blast
  moreover obtain j where "j < length (group_ptrs h)" "c = group_ptrs h ! j" using assms(5) unfolding in_set_conv_nth by blast
  ultimately have "group_key g = group_key h" using context_at(2) [OF assms(1)] assms(2,3,6) by (metis option.inject)
  then show ?thesis using doc_keys_distinct [OF assms(1)] assms(2,3) by (simp add: distinct_map inj_on_def)
qed

lemma parent_iff:
  assumes "doc_ids_ok flow"
  shows "map_of (ParentMap (buildContext flow)) k = Some pid \<longleftrightarrow>
    pid \<noteq> [] \<and> (\<exists>g \<in> set (doc_groups flow). fst g = pid \<and> (\<exists>b \<in> set (group_ptrs g). k = bID (binfo b)))"
proof -
  have mem: "(k, v) \<in> set (concat (map parent_pairs (doc_groups flow))) \<longleftrightarrow>
      v \<noteq> [] \<and> (\<exists>g \<in> set (doc_groups flow). fst g = v \<and> (\<exists>b \<in> set (group_ptrs g). k = bID (binfo b)))" for v
    unfolding set_concat set_map UN_simps parent_pairs_def by (auto simp: block_pairs_map)
  have "\<forall>v v'. (k, v) \<in> set (concat (map parent_pairs (doc_groups flow))) \<longrightarrow> (k, v') \<in> set (concat (map parent_pairs (doc_groups flow))) \<longrightarrow> v = v'"
    using group_of_member [OF assms] unfolding mem by blast
  from updates_functional [OF this] show ?thesis unfolding context_parents mem by blast
qed

lemma handler_iff:
  "map_of (GroupHasHandler (buildContext flow)) k = Some True \<longleftrightarrow>
     (\<exists>g \<in> set (doc_groups flow). group_key g = k \<and> (\<exists>b \<in> set (group_ptrs g). bType (binfo b) = BlockTypeErrorHandler))"
  unfolding context_parents by (subst updates_functional) (auto simp: handler_pairs_def list_ex_iff split: if_splits)

lemma parent_at:
  assumes "doc_ids_ok flow" "g \<in> set (doc_groups flow)" "b \<in> set (group_ptrs g)"
  shows "map_of (ParentMap (buildContext flow)) (bID (binfo b)) = (if fst g = [] then None else Some (fst g))"
proof (cases "map_of (ParentMap (buildContext flow)) (bID (binfo b))")
  case None
  then show ?thesis using parent_iff [OF assms(1), of "bID (binfo b)" "fst g"] assms(2,3) by auto
next
  case (Some pid)
  then show ?thesis
    using parent_iff [OF assms(1), of "bID (binfo b)" pid] group_of_member [OF assms(1,2) _ assms(3)] by auto
qed

lemma handler_at:
  assumes "doc_ids_ok flow" "g \<in> set (doc_groups flow)"
  shows "map_of (GroupHasHandler (buildContext flow)) (group_key g) = Some True \<longleftrightarrow>
    list_ex (\<lambda>b. bType (binfo b) = BlockTypeErrorHandler) (group_ptrs g)"
  using doc_keys_distinct [OF assms(1)] assms(2)
  by (auto simp: handler_iff list_ex_iff distinct_map inj_on_def)

lemma first_terminator_find: "first_terminator ptrs = find (\<lambda>i. isTerminator (binfo (ptrs ! i))) [0..<length ptrs]"
proof -
  have "enumerate 0 ptrs = map (\<lambda>i. (i, ptrs ! i)) [0..<length ptrs]"
    by (rule nth_equalityI) (simp_all add: nth_enumerate_eq)
  moreover have "map_option fst (find (\<lambda>(i, b). isTerminator (binfo b)) (map (\<lambda>i. (i, ptrs ! i)) is)) =
      find (\<lambda>i. isTerminator (binfo (ptrs ! i))) is" for "is"
    by (induction "is") simp_all
  ultimately show ?thesis by (simp add: first_terminator_def)
qed

section \<open>Properties\<close>

text \<open>
  C15: the rule context locates every block. In a document whose identifiers are distinct and not
  empty, every sibling group of the tree is indexed with its blocks, the position of its first
  terminator (if any) and whether it holds an error handler; for every block that is not an END
  marker the position lookup the rules use gives exactly its group and its index in it, and the
  block, parent (none for a root) and depth indexes agree with the tree; the number of indexed
  blocks is the number of such blocks in the document.
\<close>

theorem context_locates_blocks:
  assumes "doc_ids_ok flow"
  shows "let ctx = buildContext flow in
     list_all (\<lambda>g. let ptrs = group_ptrs g in
         map_of (SiblingMap ctx) (group_key g) = Some ptrs \<and>
         map_of (TerminatorIndex ctx) (group_key g) =
           find (\<lambda>i. isTerminator (binfo (ptrs ! i))) [0..<length ptrs] \<and>
         (map_of (GroupHasHandler ctx) (group_key g) = Some True) =
           list_ex (\<lambda>b. bType (binfo b) = BlockTypeErrorHandler) ptrs \<and>
         list_all (\<lambda>i. let b = ptrs ! i in
           siblingPosition ctx (binfo b) = Some (ptrs, i) \<and>
           map_of (AllBlocks ctx) (bID (binfo b)) = Some b \<and>
           map_of (ParentMap ctx) (bID (binfo b)) = (if fst g = [] then None else Some (fst g)) \<and>
           map_of (BlockDepth ctx) (bID (binfo b)) = Some (fst (snd (snd g)))) [0..<length ptrs])
       (doc_groups flow) \<and>
     totalBlocks ctx = length (filter not_end (walkBlocks flow)) \<and>
     mset (concat (map group_ptrs (doc_groups flow))) = mset (filter not_end (walkBlocks flow))"
proof -
  let ?ctx = "buildContext flow"
  have ptrs: "concat (map group_ptrs gs) = filter not_end (concat (map group_blocks gs))" for gs
    by (induction gs) (simp_all add: group_ptrs_blocks)
  have m: "mset (concat (map group_ptrs (doc_groups flow))) = mset (filter not_end (walkBlocks flow))"
    by (simp only: ptrs mset_filter doc_groups_blocks)
  have pos: "siblingPosition ?ctx (binfo (group_ptrs g ! i)) = Some (group_ptrs g, i)"
    if "g \<in> set (doc_groups flow)" "i < length (group_ptrs g)" for g i
    using context_at [OF assms that] that
    by (simp add: siblingPosition_def GetSiblings_def list_at_def Let_def)
  have "totalBlocks ?ctx = length (filter not_end (walkBlocks flow))"
    using mset_eq_length [OF m] by (simp add: context_fields)
  with m show ?thesis
    unfolding Let_def list_all_iff
    using pos context_at(3,4) [OF assms] parent_at [OF assms _ nth_mem]
      group_entry_at [OF assms, unfolded first_terminator_find] handler_at [OF assms]
    by (intro conjI ballI) (simp_all add: list_all_iff)
qed

theorem context_locates_blocks_witness:
  "siblingPosition (buildContext (suppress_sample ''note'')) (binfo (note_block BlockTypeAction ''y'' ''y'')) =
     Some (sfBlocks (hd (Subflows (suppress_sample ''note''))), 2)"
proof -
  let ?flow = "suppress_sample ''note''"
  have ok: "doc_ids_ok ?flow" by code_simp
  let ?bs = "sfBlocks (hd (Subflows ?flow))"
  have g: "([], ''s'', 0, ?bs) \<in> set (doc_groups ?flow)"
    by (simp add: doc_groups_def subflow_groups_def suppress_sample_def)
  have ptrs: "group_ptrs ([], ''s'', 0, ?bs) = ?bs" by (simp add: suppress_sample_def note_block_def not_end_def)
  from context_locates_blocks [OF ok] g have "list_all (\<lambda>i. siblingPosition (buildContext ?flow)
      (binfo (?bs ! i)) = Some (?bs, i)) [0..<length ?bs]"
    unfolding Let_def list_all_iff by (metis (no_types, lifting) ptrs)
  moreover have "(2::nat) \<in> set [0..<length ?bs]" "?bs ! 2 = note_block BlockTypeAction ''y'' ''y''"
    by (simp_all add: suppress_sample_def)
  ultimately show ?thesis unfolding list_all_iff by metis
qed

end
