(* ===== verification/Call_Graph.thy ===== *)
theory Call_Graph
  imports Engine
begin

text \<open>
  core/analyzer/graph.go and the call graph of metrics.go: how a call block is resolved to a
  subflow, the execution graph drawn from the calls, and the call graph that fan-in, fan-out and
  cycle detection read. A Go set of targets is the list of its elements in some order.
\<close>

section \<open>Calls\<close>

definition index_name :: "(string \<times> string) list \<Rightarrow> Subflow \<Rightarrow> (string \<times> string) list" where
  "index_name idx sf =
     (let idx = (if sfName sf \<noteq> [] then AList.update (sfName sf) (sfID sf) idx else idx)
      in AList.update (sfID sf) (sfID sf) idx)"

definition buildSubflowNameIndex :: "FlowDocument \<Rightarrow> (string \<times> string) list" where
  "buildSubflowNameIndex doc = foldl index_name [] (Subflows doc)"

definition isSubflowCall :: "block_info \<Rightarrow> bool" where
  "isSubflowCall b \<longleftrightarrow> bRawType b = ''CALL'' \<or> bRawType b = ''DISABLED_CALL'' \<or> bType b = BlockTypeSubflow"

definition resolveCallTargetID :: "block_info \<Rightarrow> (string \<times> string) list \<Rightarrow> string" where
  "resolveCallTargetID b nameIndex =
     (let t = (if HasPrefix (bName b) ''Call '' then TrimSuffix (TrimPrefix (bName b) ''Call '') '' (disabled)'' else []);
          t = (if t = [] then (case find (\<lambda>t. btType t = ''subflow'' \<and> btTarget t \<noteq> []) (bTokens b) of
                 None \<Rightarrow> [] | Some tok \<Rightarrow> btTarget tok) else t);
          t = (if t = [] \<and> bType b = BlockTypeSubflow then bName b else t)
      in if t = [] then [] else getprop nameIndex t)"

definition walkSubflowBlocks :: "Subflow \<Rightarrow> Block list" where
  "walkSubflowBlocks sf = forest_blocks (sfBlocks sf)"

definition countSubflowBlocks :: "Subflow \<Rightarrow> nat" where
  "countSubflowBlocks sf = sum_list (map (\<lambda>b. 1 + CountDescendants b) (sfBlocks sf))"

section \<open>The execution graph\<close>

record GraphNode =
  gnID :: string
  gnLabel :: string
  gnBlockCount :: nat
  gnErrorCount :: nat
  gnWarnCount :: nat

record GraphEdge =
  geSource :: string
  geTarget :: string
  geCallCount :: nat
  geDisabledCount :: nat

definition edgeKey :: "string \<Rightarrow> string \<Rightarrow> string" where
  "edgeKey s t = s @ ''->'' @ t"

text \<open>One visit of the walk over a subflow: the edges so far and the index of every key.\<close>

type_synonym edge_state = "GraphEdge list \<times> (string \<times> nat) list"

definition visit_call :: "(string \<times> string) list \<Rightarrow> string \<Rightarrow> edge_state \<Rightarrow> block_info \<Rightarrow> edge_state" where
  "visit_call nameIndex sfid st b =
     (case st of (edges, index) \<Rightarrow>
        if \<not> isSubflowCall b then st
        else
          (let target = resolveCallTargetID b nameIndex in
           if target = [] then st
           else
             (let key = edgeKey sfid target;
                  (edges, index, i) =
                    (case map_of index key of
                       Some i \<Rightarrow> (edges, index, i)
                     | None \<Rightarrow> (edges @ [\<lparr>geSource = sfid, geTarget = target, geCallCount = 0, geDisabledCount = 0\<rparr>],
                                 AList.update key (length edges) index, length edges));
                  e = edges ! i
              in (edges[i := e\<lparr>geCallCount := geCallCount e + 1,
                    geDisabledCount := geDisabledCount e + (if bRawType b = ''DISABLED_CALL'' then 1 else 0)\<rparr>],
                  index))))"

definition visit_subflow :: "(string \<times> string) list \<Rightarrow> edge_state \<Rightarrow> Subflow \<Rightarrow> edge_state" where
  "visit_subflow nameIndex st sf =
     foldl (visit_call nameIndex (sfID sf)) st (map binfo (walkSubflowBlocks sf))"

definition count_findings :: "Severity \<Rightarrow> AnalysisReport option \<Rightarrow> string \<Rightarrow> nat" where
  "count_findings sev report sfid =
     (case report of None \<Rightarrow> 0
      | Some r \<Rightarrow> length (filter (\<lambda>f. fSeverity f = sev \<and> fSubflowID f = sfid) (arFindings r)))"

definition BuildExecutionGraph :: "FlowDocument \<Rightarrow> AnalysisReport option \<Rightarrow> GraphNode list \<times> GraphEdge list" where
  "BuildExecutionGraph doc report =
     (let nameIndex = buildSubflowNameIndex doc in
      (map (\<lambda>sf. \<lparr>gnID = sfID sf, gnLabel = sfName sf, gnBlockCount = countSubflowBlocks sf,
          gnErrorCount = count_findings SeverityError report (sfID sf),
          gnWarnCount = count_findings SeverityWarning report (sfID sf)\<rparr>) (Subflows doc),
       fst (foldl (visit_subflow nameIndex) ([], []) (Subflows doc))))"

section \<open>The call graph\<close>

type_synonym call_graph = "(string \<times> string list) list"

definition add_call :: "(string \<times> string) list \<Rightarrow> string list \<Rightarrow> block_info \<Rightarrow> string list" where
  "add_call nameIndex ts b =
     (let t = resolveCallTargetID b nameIndex in
      if isSubflowCall b \<and> t \<noteq> [] then List.insert t ts else ts)"

definition call_targets :: "(string \<times> string) list \<Rightarrow> Subflow \<Rightarrow> string list" where
  "call_targets nameIndex sf = foldl (add_call nameIndex) [] (map binfo (walkSubflowBlocks sf))"

definition buildCallGraph :: "FlowDocument \<Rightarrow> call_graph" where
  "buildCallGraph doc =
     foldl (\<lambda>g sf. AList.update (sfID sf) (call_targets (buildSubflowNameIndex doc) sf) g) [] (Subflows doc)"

definition call_edges :: "call_graph \<Rightarrow> (string \<times> string) set" where
  "call_edges g = {(v, w). w \<in> set (list_at g v)}"

section \<open>Resolution\<close>

lemma map_of_alist_update: "map_of (AList.update k v m) = (map_of m)(k \<mapsto> v)"
  by (rule AList.update_conv')

lemma name_index_range:
  "map_of (foldl index_name m sfs) k = Some i \<Longrightarrow> map_of m k = Some i \<or> i \<in> sfID ` set sfs"
proof (induction sfs arbitrary: m)
  case (Cons sf sfs)
  then show ?case
    using Cons.IH [of "index_name m sf"] Cons.prems
    by (auto simp: index_name_def Let_def map_of_alist_update split: if_splits)
qed simp

lemma resolve_by_name: "\<exists>t. resolveCallTargetID b idx = (if t = [] then [] else getprop idx t)"
  unfolding resolveCallTargetID_def Let_def by (rule exI) (rule refl)

lemma resolved_is_subflow:
  assumes "resolveCallTargetID b (buildSubflowNameIndex doc) \<noteq> []"
  shows "resolveCallTargetID b (buildSubflowNameIndex doc) \<in> sfID ` set (Subflows doc)"
proof -
  obtain t where t: "resolveCallTargetID b (buildSubflowNameIndex doc) =
      (if t = [] then [] else getprop (buildSubflowNameIndex doc) t)"
    using resolve_by_name by blast
  with assms have "getprop (buildSubflowNameIndex doc) t \<noteq> []" by metis
  then obtain i where i: "map_of (foldl index_name [] (Subflows doc)) t = Some i"
    by (auto simp: getprop_def buildSubflowNameIndex_def split: option.splits)
  then have "getprop (buildSubflowNameIndex doc) t = i" by (simp add: getprop_def buildSubflowNameIndex_def)
  with i t assms show ?thesis using name_index_range [OF i] by (metis map_of.simps(1) option.distinct(1))
qed

text \<open>The calls a subflow makes: the targets its call blocks resolve to, in document order.\<close>

definition resolved_calls :: "(string \<times> string) list \<Rightarrow> Subflow \<Rightarrow> string list" where
  "resolved_calls nameIndex sf =
     filter (\<lambda>t. t \<noteq> []) (map (\<lambda>b. resolveCallTargetID b nameIndex) (filter isSubflowCall (map binfo (walkSubflowBlocks sf))))"

lemma set_call_targets: "set (call_targets nameIndex sf) = set (resolved_calls nameIndex sf)"
proof -
  have "set (foldl (add_call nameIndex) ts bs) = set ts \<union>
      set (filter (\<lambda>t. t \<noteq> []) (map (\<lambda>b. resolveCallTargetID b nameIndex) (filter isSubflowCall bs)))" for ts bs
    by (induction bs arbitrary: ts) (auto simp: add_call_def Let_def)
  then show ?thesis by (simp add: call_targets_def resolved_calls_def)
qed

lemma call_graph_lookup:
  assumes "distinct (map sfID (Subflows doc))"
  shows "list_at (buildCallGraph doc) v =
    (case find (\<lambda>sf. sfID sf = v) (Subflows doc) of
       None \<Rightarrow> [] | Some sf \<Rightarrow> call_targets (buildSubflowNameIndex doc) sf)"
proof -
  let ?idx = "buildSubflowNameIndex doc"
  have "map_of (foldl (\<lambda>g sf. AList.update (sfID sf) (call_targets ?idx sf) g) g sfs) v =
      (case find (\<lambda>sf. sfID sf = v) sfs of None \<Rightarrow> map_of g v | Some sf \<Rightarrow> Some (call_targets ?idx sf))"
    if "distinct (map sfID sfs)" for g sfs
    using that
  proof (induction sfs arbitrary: g)
    case (Cons sf sfs)
    have "find (\<lambda>sf. sfID sf = v) sfs = None" if "sfID sf = v"
      using that Cons.prems unfolding find_None_iff by (auto simp: image_iff)
    with Cons show ?case by (auto simp: map_of_alist_update split: option.split)
  qed simp
  from this [OF assms, of "[]"] show ?thesis
    by (simp add: buildCallGraph_def list_at_def split: option.split)
qed

lemma call_graph_targets: "w \<in> set (list_at (buildCallGraph doc) v) \<Longrightarrow> w \<in> sfID ` set (Subflows doc)"
proof -
  let ?idx = "buildSubflowNameIndex doc"
  have "set (list_at (foldl (\<lambda>g sf. AList.update (sfID sf) (call_targets ?idx sf) g) g sfs) v) \<subseteq> sfID ` set (Subflows doc)"
    if "set (list_at g v) \<subseteq> sfID ` set (Subflows doc)" for g sfs
    using that
  proof (induction sfs arbitrary: g)
    case (Cons sf sfs)
    have "set (call_targets ?idx sf) \<subseteq> sfID ` set (Subflows doc)"
      using resolved_is_subflow [of _ doc] by (auto simp: set_call_targets resolved_calls_def)
    with Cons.prems have "set (list_at (AList.update (sfID sf) (call_targets ?idx sf) g) v) \<subseteq> sfID ` set (Subflows doc)"
      by (auto simp: list_at_def map_of_alist_update)
    from Cons.IH [OF this] show ?case by simp
  qed simp
  from this [of "[]"] show "w \<in> set (list_at (buildCallGraph doc) v) \<Longrightarrow> w \<in> sfID ` set (Subflows doc)"
    by (auto simp: buildCallGraph_def list_at_def)
qed

section \<open>The execution graph counts the calls\<close>

text \<open>A resolved call: caller, callee, and whether the call is disabled.\<close>

type_synonym call = "string \<times> string \<times> bool"

definition subflow_calls :: "(string \<times> string) list \<Rightarrow> Subflow \<Rightarrow> call list" where
  "subflow_calls nameIndex sf =
     map (\<lambda>b. (sfID sf, resolveCallTargetID b nameIndex, bRawType b = ''DISABLED_CALL''))
       (filter (\<lambda>b. isSubflowCall b \<and> resolveCallTargetID b nameIndex \<noteq> []) (map binfo (walkSubflowBlocks sf)))"

definition doc_calls :: "FlowDocument \<Rightarrow> call list" where
  "doc_calls doc = concat (map (subflow_calls (buildSubflowNameIndex doc)) (Subflows doc))"

definition call_key :: "call \<Rightarrow> string" where
  "call_key c = edgeKey (fst c) (fst (snd c))"

definition edge_key :: "GraphEdge \<Rightarrow> string" where
  "edge_key e = edgeKey (geSource e) (geTarget e)"

definition record_call :: "edge_state \<Rightarrow> call \<Rightarrow> edge_state" where
  "record_call st c =
     (case st of (edges, index) \<Rightarrow>
        let (edges, index, i) =
              (case map_of index (call_key c) of
                 Some i \<Rightarrow> (edges, index, i)
               | None \<Rightarrow> (edges @ [\<lparr>geSource = fst c, geTarget = fst (snd c), geCallCount = 0, geDisabledCount = 0\<rparr>],
                           AList.update (call_key c) (length edges) index, length edges));
            e = edges ! i
        in (edges[i := e\<lparr>geCallCount := geCallCount e + 1,
              geDisabledCount := geDisabledCount e + (if snd (snd c) then 1 else 0)\<rparr>], index))"

lemma visit_call_record:
  "visit_call nameIndex s st b =
     (if isSubflowCall b \<and> resolveCallTargetID b nameIndex \<noteq> []
      then record_call st (s, resolveCallTargetID b nameIndex, bRawType b = ''DISABLED_CALL'') else st)"
  by (cases st) (auto simp: visit_call_def record_call_def call_key_def Let_def split: option.split)

lemma visit_subflow_record: "visit_subflow nameIndex st sf = foldl record_call st (subflow_calls nameIndex sf)"
proof -
  have "foldl (visit_call nameIndex s) st bs = foldl record_call st
      (map (\<lambda>b. (s, resolveCallTargetID b nameIndex, bRawType b = ''DISABLED_CALL''))
        (filter (\<lambda>b. isSubflowCall b \<and> resolveCallTargetID b nameIndex \<noteq> []) bs))" for s st bs
    by (induction bs arbitrary: st) (simp_all add: visit_call_record)
  then show ?thesis by (simp add: visit_subflow_def subflow_calls_def)
qed

lemma execution_edges: "snd (BuildExecutionGraph doc report) = fst (foldl record_call ([], []) (doc_calls doc))"
proof -
  have "foldl (visit_subflow n) st sfs = foldl record_call st (concat (map (subflow_calls n) sfs))" for n st sfs
    by (induction sfs arbitrary: st) (simp_all add: visit_subflow_record)
  then show ?thesis by (simp add: BuildExecutionGraph_def doc_calls_def Let_def)
qed

definition edge_ok :: "call list \<Rightarrow> GraphEdge \<Rightarrow> bool" where
  "edge_ok cs e \<longleftrightarrow> (geSource e, geTarget e) \<in> (\<lambda>c. (fst c, fst (snd c))) ` set cs \<and>
     geCallCount e = length (filter (\<lambda>c. call_key c = edge_key e) cs) \<and>
     geDisabledCount e = length (filter (\<lambda>c. call_key c = edge_key e \<and> snd (snd c)) cs)"

definition edges_ok :: "call list \<Rightarrow> edge_state \<Rightarrow> bool" where
  "edges_ok cs st \<longleftrightarrow>
     (\<forall>k i. map_of (snd st) k = Some i \<longleftrightarrow> i < length (fst st) \<and> edge_key (fst st ! i) = k) \<and>
     set (map edge_key (fst st)) = set (map call_key cs) \<and>
     (\<forall>i < length (fst st). edge_ok cs (fst st ! i)) \<and>
     sum_list (map geCallCount (fst st)) = length cs"

definition count_call :: "bool \<Rightarrow> GraphEdge \<Rightarrow> GraphEdge" where
  "count_call d e = e\<lparr>geCallCount := geCallCount e + 1, geDisabledCount := geDisabledCount e + (if d then 1 else 0)\<rparr>"

lemma count_call_fields [simp]:
  "geSource (count_call d e) = geSource e" "geTarget (count_call d e) = geTarget e"
  "edge_key (count_call d e) = edge_key e" "geCallCount (count_call d e) = Suc (geCallCount e)"
  "geDisabledCount (count_call d e) = geDisabledCount e + (if d then 1 else 0)"
  by (simp_all add: count_call_def edge_key_def)

lemma record_call_old:
  "map_of index (call_key c) = Some i \<Longrightarrow>
     record_call (edges, index) c = (edges[i := count_call (snd (snd c)) (edges ! i)], index)"
  by (simp add: record_call_def Let_def count_call_def)

lemma record_call_new:
  "map_of index (call_key c) = None \<Longrightarrow>
     record_call (edges, index) c =
       (edges @ [count_call (snd (snd c)) \<lparr>geSource = fst c, geTarget = fst (snd c), geCallCount = 0, geDisabledCount = 0\<rparr>],
        AList.update (call_key c) (length edges) index)"
  by (simp add: record_call_def Let_def count_call_def)

lemma edges_okD:
  assumes "edges_ok cs (edges, index)"
  shows "map_of index k = Some i \<longleftrightarrow> i < length edges \<and> edge_key (edges ! i) = k"
    and "edge_key ` set edges = call_key ` set cs"
    and "i < length edges \<Longrightarrow> edge_ok cs (edges ! i)"
    and "sum_list (map geCallCount edges) = length cs"
  using assms unfolding edges_ok_def by simp_all

lemma keys_distinct:
  assumes "edges_ok cs (edges, index)"
  shows "distinct (map edge_key edges)"
  unfolding distinct_conv_nth by (metis edges_okD(1) [OF assms] length_map nth_map option.inject)

lemma edge_ok_other: "edge_ok cs e \<Longrightarrow> edge_key e \<noteq> call_key c \<Longrightarrow> edge_ok (cs @ [c]) e"
  by (auto simp: edge_ok_def)

lemma edge_ok_count: "edge_ok cs e \<Longrightarrow> edge_key e = call_key c \<Longrightarrow> edge_ok (cs @ [c]) (count_call (snd (snd c)) e)"
  by (auto simp: edge_ok_def)

lemma edges_ok_old:
  assumes ok: "edges_ok cs (edges, index)" and i: "map_of index (call_key c) = Some i"
  shows "edges_ok (cs @ [c]) (edges[i := count_call (snd (snd c)) (edges ! i)], index)"
proof -
  let ?new = "edges[i := count_call (snd (snd c)) (edges ! i)]"
  from edges_okD(1) [OF ok] i have len: "i < length edges" and key: "edge_key (edges ! i) = call_key c" by simp_all
  have keys: "map edge_key ?new = map edge_key edges"
    using len by (simp add: map_update list_update_same_conv)
  then have key_at: "edge_key (?new ! j) = edge_key (edges ! j)" if "j < length edges" for j
    using that by (metis length_list_update nth_map)
  have other: "edge_key (edges ! j) \<noteq> call_key c" if "j < length edges" "j \<noteq> i" for j
    using keys_distinct [OF ok] key that len by (metis length_map nth_eq_iff_index_eq nth_map)
  have edge: "edge_ok (cs @ [c]) (?new ! j)" if "j < length ?new" for j
    using that edges_okD(3) [OF ok, of j] other [of j] key
    by (cases "j = i") (auto intro: edge_ok_other edge_ok_count)
  have "sum_list (map geCallCount ?new) = Suc (sum_list (map geCallCount edges))"
    using len by (simp add: map_update sum_list_update)
  moreover have "call_key c \<in> edge_key ` set edges" using len key nth_mem by force
  ultimately show ?thesis
    using edge edges_okD(1,2,4) [OF ok] key_at keys unfolding edges_ok_def fst_conv snd_conv
    by (auto simp flip: set_map)
qed

lemma edges_ok_new:
  assumes ok: "edges_ok cs (edges, index)" and new: "map_of index (call_key c) = None"
  shows "edges_ok (cs @ [c]) (record_call (edges, index) c)"
proof -
  let ?e = "count_call (snd (snd c)) \<lparr>geSource = fst c, geTarget = fst (snd c), geCallCount = 0, geDisabledCount = 0\<rparr>"
  have key: "edge_key ?e = call_key c" by (simp add: edge_key_def call_key_def)
  have fresh: "edge_key (edges ! j) \<noteq> call_key c" if "j < length edges" for j
    using edges_okD(1) [OF ok, of "call_key c" j] new that by simp
  then have fresh': "call_key c \<notin> call_key ` set cs"
    using edges_okD(2) [OF ok] by (metis imageE in_set_conv_nth)
  then have none: "filter (\<lambda>d. call_key d = call_key c) cs = []" "filter (\<lambda>d. call_key d = call_key c \<and> snd (snd d)) cs = []"
    by (auto simp: filter_empty_conv image_iff)
  have "edge_ok (cs @ [c]) ?e" unfolding edge_ok_def key by (simp add: none)
  then have edge: "edge_ok (cs @ [c]) ((edges @ [?e]) ! j)" if "j < length (edges @ [?e])" for j
    using that edges_okD(3) [OF ok, of j] fresh [of j] by (auto simp: nth_append intro: edge_ok_other)
  have look: "map_of (AList.update (call_key c) (length edges) index) k = Some i \<longleftrightarrow>
      i < length (edges @ [?e]) \<and> edge_key ((edges @ [?e]) ! i) = k" for k i
    using edges_okD(1) [OF ok, of k i] key fresh [of i]
    by (auto simp: map_of_alist_update nth_append less_Suc_eq)
  show ?thesis
    unfolding record_call_new [OF new] edges_ok_def fst_conv snd_conv
    using edge look edges_okD(2,4) [OF ok] key by (auto simp: nth_append)
qed

lemma edges_ok_run: "edges_ok cs (foldl record_call ([], []) cs)"
proof (induction cs rule: rev_induct)
  case (snoc c cs)
  obtain edges index where st: "foldl record_call ([], []) cs = (edges, index)" by force
  with snoc have ok: "edges_ok cs (edges, index)" by simp
  show ?case
    using edges_ok_old [OF ok, of c] edges_ok_new [OF ok, of c] record_call_old [of index c]
    by (cases "map_of index (call_key c)") (simp_all add: st)
qed (simp add: edges_ok_def)

lemma edgeKey_inj:
  assumes "CHR ''>'' \<notin> set s" "CHR ''>'' \<notin> set s'" "edgeKey s t = edgeKey s' t'"
  shows "s = s' \<and> t = t'"
proof -
  have "takeWhile (\<lambda>c. c \<noteq> CHR ''>'') (edgeKey r u) = r @ ''-''" if "CHR ''>'' \<notin> set r" for r u
    unfolding edgeKey_def using that by (subst takeWhile_append2) auto
  with assms have "s @ ''-'' = s' @ ''-''" by metis
  with assms(3) show ?thesis by (simp add: edgeKey_def)
qed

lemma call_edges_iff:
  assumes "distinct (map sfID (Subflows doc))"
  shows "(v, w) \<in> call_edges (buildCallGraph doc) \<longleftrightarrow>
    (\<exists>sf \<in> set (Subflows doc). sfID sf = v \<and> w \<in> set (resolved_calls (buildSubflowNameIndex doc) sf))"
proof (cases "find (\<lambda>sf. sfID sf = v) (Subflows doc)")
  case None
  then have "\<forall>sf \<in> set (Subflows doc). sfID sf \<noteq> v" by (auto simp: find_None_iff)
  with None show ?thesis by (simp add: call_edges_def call_graph_lookup [OF assms])
next
  case (Some sf)
  then have sf: "sf \<in> set (Subflows doc)" "sfID sf = v" by (auto simp: find_Some_iff)
  then have "sf' = sf" if "sf' \<in> set (Subflows doc)" "sfID sf' = v" for sf'
    using assms that by (metis distinct_map inj_onD)
  with sf have "(\<exists>sf \<in> set (Subflows doc). sfID sf = v \<and> w \<in> set (resolved_calls (buildSubflowNameIndex doc) sf)) \<longleftrightarrow>
      w \<in> set (resolved_calls (buildSubflowNameIndex doc) sf)" by metis
  then show ?thesis by (simp add: call_edges_def call_graph_lookup [OF assms] Some set_call_targets)
qed

lemma subflow_calls_ends:
  "(\<lambda>c. (fst c, fst (snd c))) ` set (subflow_calls idx sf) = Pair (sfID sf) ` set (resolved_calls idx sf)"
proof -
  have "(\<lambda>c. (fst c, fst (snd c))) ` set (map (\<lambda>b. (s, r b, d b)) (filter (\<lambda>b. P b \<and> r b \<noteq> []) bs)) =
      Pair s ` set (filter (\<lambda>t. t \<noteq> []) (map r (filter P bs)))"
    for s :: string and r :: "block_info \<Rightarrow> string" and d :: "block_info \<Rightarrow> bool" and P bs
    by (induction bs) auto
  then show ?thesis unfolding subflow_calls_def resolved_calls_def .
qed

lemma doc_calls_edges:
  assumes "distinct (map sfID (Subflows doc))"
  shows "(\<lambda>c. (fst c, fst (snd c))) ` set (doc_calls doc) = call_edges (buildCallGraph doc)"
proof -
  have "(\<lambda>c. (fst c, fst (snd c))) ` set (doc_calls doc) =
      (\<Union>sf \<in> set (Subflows doc). Pair (sfID sf) ` set (resolved_calls (buildSubflowNameIndex doc) sf))"
    by (simp add: doc_calls_def image_UN subflow_calls_ends)
  also have "\<dots> = call_edges (buildCallGraph doc)"
  proof (rule set_eqI)
    fix p :: "string \<times> string"
    obtain v w where p: "p = (v, w)" by force
    show "p \<in> (\<Union>sf \<in> set (Subflows doc). Pair (sfID sf) ` set (resolved_calls (buildSubflowNameIndex doc) sf)) \<longleftrightarrow>
        p \<in> call_edges (buildCallGraph doc)"
      unfolding p call_edges_iff [OF assms] UN_iff image_iff prod.inject by blast
  qed
  finally show ?thesis .
qed

text \<open>The two ends of an edge decide its key, for callers whose identifiers hold no \<open>>\<close>.\<close>

abbreviation ends :: "GraphEdge \<Rightarrow> string \<times> string" where
  "ends e \<equiv> (geSource e, geTarget e)"

lemma edge_ends:
  assumes ok: "edges_ok cs (edges, index)" and callers: "\<And>c. c \<in> set cs \<Longrightarrow> CHR ''>'' \<notin> set (fst c)"
    and e: "e \<in> set edges"
  shows "ends e \<in> (\<lambda>c. (fst c, fst (snd c))) ` set cs"
    and "c \<in> set cs \<Longrightarrow> call_key c = edge_key e \<longleftrightarrow> (fst c, fst (snd c)) = ends e"
proof -
  have "edge_ok cs e" using edges_okD(3) [OF ok] e by (metis in_set_conv_nth)
  then show src: "ends e \<in> (\<lambda>c. (fst c, fst (snd c))) ` set cs" by (simp add: edge_ok_def)
  then obtain d where "d \<in> set cs" "geSource e = fst d" by auto
  then have "CHR ''>'' \<notin> set (geSource e)" using callers by simp
  from edgeKey_inj [OF callers this] show "call_key c = edge_key e \<longleftrightarrow> (fst c, fst (snd c)) = ends e" if "c \<in> set cs"
    using that unfolding call_key_def edge_key_def prod.inject by metis
qed

lemma edge_counts:
  assumes ok: "edges_ok cs (edges, index)" and callers: "\<And>c. c \<in> set cs \<Longrightarrow> CHR ''>'' \<notin> set (fst c)"
    and e: "e \<in> set edges"
  shows "geCallCount e = length (filter (\<lambda>(s, t, d). (s, t) = ends e) cs)"
    and "geDisabledCount e = length (filter (\<lambda>(s, t, d). (s, t) = ends e \<and> d) cs)"
proof -
  have "filter (\<lambda>c. call_key c = edge_key e) cs = filter (\<lambda>(s, t, d). (s, t) = ends e) cs"
    "filter (\<lambda>c. call_key c = edge_key e \<and> snd (snd c)) cs = filter (\<lambda>(s, t, d). (s, t) = ends e \<and> d) cs"
    by (rule filter_cong [OF refl]; simp add: edge_ends(2) [OF ok callers e] case_prod_beta)+
  moreover have "edge_ok cs e" using edges_okD(3) [OF ok] e by (metis in_set_conv_nth)
  ultimately show "geCallCount e = length (filter (\<lambda>(s, t, d). (s, t) = ends e) cs)"
    "geDisabledCount e = length (filter (\<lambda>(s, t, d). (s, t) = ends e \<and> d) cs)"
    by (simp_all only: edge_ok_def)
qed

lemma ends_of_edges:
  assumes ok: "edges_ok cs (edges, index)" and callers: "\<And>c. c \<in> set cs \<Longrightarrow> CHR ''>'' \<notin> set (fst c)"
  shows "ends ` set edges = (\<lambda>c. (fst c, fst (snd c))) ` set cs"
proof
  show "(\<lambda>c. (fst c, fst (snd c))) ` set cs \<subseteq> ends ` set edges"
  proof
    fix p assume "p \<in> (\<lambda>c. (fst c, fst (snd c))) ` set cs"
    then obtain c where c: "c \<in> set cs" "p = (fst c, fst (snd c))" by auto
    then obtain e where "e \<in> set edges" "edge_key e = call_key c"
      using edges_okD(2) [OF ok] by (metis imageE imageI)
    with edge_ends(2) [OF ok callers, of e c] c show "p \<in> ends ` set edges" by force
  qed
  show "ends ` set edges \<subseteq> (\<lambda>c. (fst c, fst (snd c))) ` set cs"
    using edge_ends(1) [OF ok callers] by blast
qed

section \<open>Properties\<close>

text \<open>
  the execution graph and the call graph of the metrics agree. With distinct subflow identifiers
  free of the character \<open>>\<close>, the execution graph has exactly one edge for every edge of the call
  graph, an edge's call count is the number of call blocks in its source that resolve to its target
  (disabled calls counted apart), and the counts add up to the number of resolved calls.
\<close>

theorem execution_graph_agrees:
  assumes "distinct (map sfID (Subflows doc))" "list_all (\<lambda>sf. CHR ''>'' \<notin> set (sfID sf)) (Subflows doc)"
  shows "let edges = snd (BuildExecutionGraph doc report) in
     distinct (map ends edges) \<and> set (map ends edges) = call_edges (buildCallGraph doc) \<and>
     list_all (\<lambda>e. geCallCount e = length (filter (\<lambda>(s, t, d). (s, t) = ends e) (doc_calls doc)) \<and>
       geDisabledCount e = length (filter (\<lambda>(s, t, d). (s, t) = ends e \<and> d) (doc_calls doc))) edges \<and>
     sum_list (map geCallCount edges) = length (doc_calls doc)"
proof -
  obtain edges index where st: "foldl record_call ([], []) (doc_calls doc) = (edges, index)" by force
  then have ok: "edges_ok (doc_calls doc) (edges, index)" using edges_ok_run [of "doc_calls doc"] by simp
  have callers: "CHR ''>'' \<notin> set (fst c)" if "c \<in> set (doc_calls doc)" for c
    using that assms(2) by (auto simp: doc_calls_def subflow_calls_def list_all_iff)
  have "distinct (map edge_key edges)" by (rule keys_distinct [OF ok])
  then have "distinct (map ends edges)" by (auto simp: distinct_map inj_on_def edge_key_def)
  moreover have "ends ` set edges = call_edges (buildCallGraph doc)"
    using ends_of_edges [OF ok] callers doc_calls_edges [OF assms(1)] by metis
  ultimately show ?thesis
    unfolding Let_def execution_edges st fst_conv list_all_iff set_map
    by (intro conjI ballI edge_counts [OF ok callers] edges_okD(4) [OF ok]) assumption+
qed

definition call_block :: "string \<Rightarrow> string \<Rightarrow> Block" where
  "call_block raw name = Block \<lparr>bID = name, bName = name, bType = BlockTypeAction, bRawType = raw,
     bIndent = 0, bLineNumber = 1, bEndLineNumber = 0, bProperties = [], bVariables = [], bTokens = [],
     bParentID = [], bSubflowID = []\<rparr> []"

definition calling_flow :: FlowDocument where
  "calling_flow = (suppress_sample [])\<lparr>Subflows := [
     \<lparr>sfID = ''m'', sfName = ''Main'', sfSourceFile = [], sfBlocks = [call_block ''CALL'' ''Call Sub'',
        call_block ''DISABLED_CALL'' ''Call Sub (disabled)''], sfVariables = []\<rparr>,
     \<lparr>sfID = ''s'', sfName = ''Sub'', sfSourceFile = [], sfBlocks = [call_block ''CALL'' ''Call Main''], sfVariables = []\<rparr>]\<rparr>"

theorem execution_graph_agrees_witness:
  "map (\<lambda>e. (geSource e, geTarget e, geCallCount e)) (snd (BuildExecutionGraph calling_flow None)) =
     [(''m'', ''s'', 2), (''s'', ''m'', 1)] \<and>
   call_edges (buildCallGraph calling_flow) = {(''m'', ''s''), (''s'', ''m'')}"
proof -
  have 1: "distinct (map sfID (Subflows calling_flow))"
    "list_all (\<lambda>sf. CHR ''>'' \<notin> set (sfID sf)) (Subflows calling_flow)" by code_simp+
  have 2: "map (\<lambda>e. (geSource e, geTarget e, geCallCount e)) (snd (BuildExecutionGraph calling_flow None)) =
     [(''m'', ''s'', 2), (''s'', ''m'', 1)]" by code_simp
  have "map (\<lambda>e. (geSource e, geTarget e)) (snd (BuildExecutionGraph calling_flow None)) = [(''m'', ''s''), (''s'', ''m'')]"
    by code_simp
  moreover have "set (map (\<lambda>e. (geSource e, geTarget e)) (snd (BuildExecutionGraph calling_flow None))) =
      call_edges (buildCallGraph calling_flow)"
    using execution_graph_agrees [OF 1, of None] unfolding Let_def by blast
  ultimately show ?thesis using 2 by simp
qed

end
