(* ===== verification/Call_Cycles.thy ===== *)
theory Call_Cycles
  imports Call_Graph
begin

text \<open>
  core/analyzer/metrics.go, \<open>detectCircularDeps\<close>: Tarjan's algorithm on the call graph. The Go maps
  \<open>index\<close>, \<open>low\<close>, \<open>onStack\<close> and \<open>onCycle\<close> are functions with the zero value for a missing key, the
  stack is a list whose head is its top, and the order in which a set of targets is visited is the
  order of its list. The recursion takes fuel, \<open>None\<close> being a call that does not return; the number
  of subflows not yet visited is enough (\<open>connect_spec\<close>), since every call visits a new one.
\<close>

section \<open>The algorithm\<close>

record tarjan =
  tIndex :: "string \<Rightarrow> nat option"
  tLow :: "string \<Rightarrow> nat"
  tOnStack :: "string \<Rightarrow> bool"
  tOnCycle :: "string \<Rightarrow> bool"
  tStack :: "string list"
  tNext :: nat

definition enter :: "string \<Rightarrow> tarjan \<Rightarrow> tarjan" where
  "enter v s = s\<lparr>tIndex := (tIndex s)(v \<mapsto> tNext s), tLow := (tLow s)(v := tNext s), tNext := tNext s + 1,
     tStack := v # tStack s, tOnStack := (tOnStack s)(v := True)\<rparr>"

definition lower_to :: "string \<Rightarrow> nat \<Rightarrow> tarjan \<Rightarrow> tarjan" where
  "lower_to v n s = s\<lparr>tLow := (tLow s)(v := min (tLow s v) n)\<rparr>"

text \<open>The end of \<open>connect\<close>: pop the component when \<open>v\<close> is its root.\<close>

definition leave :: "call_graph \<Rightarrow> string \<Rightarrow> tarjan \<Rightarrow> tarjan" where
  "leave g v s =
     (if tLow s v \<noteq> the (tIndex s v) then s
      else
        (let scc = takeWhile (\<lambda>w. w \<noteq> v) (tStack s) @ [v];
             cyclic = length scc > 1 \<or> v \<in> set (list_at g v)
         in s\<lparr>tStack := drop (length scc) (tStack s),
              tOnStack := (\<lambda>w. tOnStack s w \<and> w \<notin> set scc),
              tOnCycle := (\<lambda>w. tOnCycle s w \<or> cyclic \<and> w \<in> set scc)\<rparr>))"

fun connect :: "call_graph \<Rightarrow> nat \<Rightarrow> string \<Rightarrow> tarjan \<Rightarrow> tarjan option"
  and visit_targets :: "call_graph \<Rightarrow> nat \<Rightarrow> string \<Rightarrow> string list \<Rightarrow> tarjan \<Rightarrow> tarjan option" where
  "connect g 0 v s = None"
| "connect g (Suc n) v s =
     (case visit_targets g n v (list_at g v) (enter v s) of None \<Rightarrow> None | Some s' \<Rightarrow> Some (leave g v s'))"
| "visit_targets g n v [] s = Some s"
| "visit_targets g n v (w # rest) s =
     (case tIndex s w of
        None \<Rightarrow> (case connect g n w s of
            None \<Rightarrow> None | Some s' \<Rightarrow> visit_targets g n v rest (lower_to v (tLow s' w) s'))
      | Some i \<Rightarrow> visit_targets g n v rest (if tOnStack s w then lower_to v i s else s))"

definition start :: tarjan where
  "start = \<lparr>tIndex = (\<lambda>_. None), tLow = (\<lambda>_. 0), tOnStack = (\<lambda>_. False), tOnCycle = (\<lambda>_. False), tStack = [],
     tNext = 0\<rparr>"

fun connect_all :: "call_graph \<Rightarrow> nat \<Rightarrow> string list \<Rightarrow> tarjan \<Rightarrow> tarjan option" where
  "connect_all g n [] s = Some s"
| "connect_all g n (v # vs) s =
     (case tIndex s v of
        Some _ \<Rightarrow> connect_all g n vs s
      | None \<Rightarrow> (case connect g n v s of None \<Rightarrow> None | Some s' \<Rightarrow> connect_all g n vs s'))"

text \<open>The loop that collects the result removes what it has reported from \<open>onCycle\<close>.\<close>

fun collect_cycles :: "string list \<Rightarrow> (string \<Rightarrow> bool) \<Rightarrow> string list" where
  "collect_cycles [] onCycle = []"
| "collect_cycles (v # vs) onCycle =
     (if onCycle v then v # collect_cycles vs (onCycle(v := False)) else collect_cycles vs onCycle)"

definition detectCircularDeps :: "FlowDocument \<Rightarrow> call_graph \<Rightarrow> string list option" where
  "detectCircularDeps doc g =
     (let ids = map sfID (Subflows doc) in
      case connect_all g (length ids) ids start of
        None \<Rightarrow> None | Some s \<Rightarrow> Some (collect_cycles ids (tOnCycle s)))"

section \<open>Invariant\<close>

abbreviation seen :: "tarjan \<Rightarrow> string set" where
  "seen s \<equiv> dom (tIndex s)"

abbreviation ix :: "tarjan \<Rightarrow> string \<Rightarrow> nat" where
  "ix s v \<equiv> the (tIndex s v)"

abbreviation popped :: "tarjan \<Rightarrow> string set" where
  "popped s \<equiv> dom (tIndex s) - set (tStack s)"

text \<open>
  \<open>gray\<close> is the set of the active calls. Visited vertices are numbered in order of discovery and the
  stack is decreasing in that number; a vertex whose call has returned has visited targets only, a
  popped one popped targets only; on the stack, an older vertex reaches every younger one and every
  vertex reaches an active one that is not younger; and the popped vertices on a cycle are marked.
\<close>

definition tarjan_ok :: "call_graph \<Rightarrow> string set \<Rightarrow> tarjan \<Rightarrow> bool" where
  "tarjan_ok g gray s \<longleftrightarrow>
     (\<forall>v i. tIndex s v = Some i \<longrightarrow> i < tNext s) \<and>
     sorted_wrt (\<lambda>v w. ix s w < ix s v) (tStack s) \<and>
     set (tStack s) \<subseteq> seen s \<and> (\<forall>v. tOnStack s v \<longleftrightarrow> v \<in> set (tStack s)) \<and>
     gray \<subseteq> set (tStack s) \<and>
     (\<forall>v \<in> seen s - gray. set (list_at g v) \<subseteq> seen s) \<and>
     (\<forall>v \<in> popped s. set (list_at g v) \<subseteq> popped s) \<and>
     (\<forall>v \<in> set (tStack s). \<forall>w \<in> set (tStack s). ix s v \<le> ix s w \<longrightarrow> (v, w) \<in> (call_edges g)\<^sup>*) \<and>
     (\<forall>v \<in> set (tStack s). \<exists>u \<in> gray. ix s u \<le> ix s v \<and> (v, u) \<in> (call_edges g)\<^sup>*) \<and>
     (\<forall>v. tOnCycle s v \<longleftrightarrow> v \<in> popped s \<and> (v, v) \<in> (call_edges g)\<^sup>+)"

lemma tarjan_okD:
  assumes "tarjan_ok g gray s"
  shows "tIndex s v = Some i \<Longrightarrow> i < tNext s"
    and "sorted_wrt (\<lambda>v w. ix s w < ix s v) (tStack s)"
    and "set (tStack s) \<subseteq> seen s" and "tOnStack s v \<longleftrightarrow> v \<in> set (tStack s)"
    and "gray \<subseteq> set (tStack s)"
    and "v \<in> seen s \<Longrightarrow> v \<notin> gray \<Longrightarrow> set (list_at g v) \<subseteq> seen s"
    and "v \<in> popped s \<Longrightarrow> set (list_at g v) \<subseteq> popped s"
    and "v \<in> set (tStack s) \<Longrightarrow> w \<in> set (tStack s) \<Longrightarrow> ix s v \<le> ix s w \<Longrightarrow> (v, w) \<in> (call_edges g)\<^sup>*"
    and "v \<in> set (tStack s) \<Longrightarrow> \<exists>u \<in> gray. ix s u \<le> ix s v \<and> (v, u) \<in> (call_edges g)\<^sup>*"
    and "tOnCycle s v \<longleftrightarrow> v \<in> popped s \<and> (v, v) \<in> (call_edges g)\<^sup>+"
  using assms unfolding tarjan_ok_def by blast+

lemma tarjan_okI:
  assumes "\<And>v i. tIndex s v = Some i \<Longrightarrow> i < tNext s"
    and "sorted_wrt (\<lambda>v w. ix s w < ix s v) (tStack s)"
    and "set (tStack s) \<subseteq> seen s" and "\<And>v. tOnStack s v \<longleftrightarrow> v \<in> set (tStack s)"
    and "gray \<subseteq> set (tStack s)"
    and "\<And>v. v \<in> seen s \<Longrightarrow> v \<notin> gray \<Longrightarrow> set (list_at g v) \<subseteq> seen s"
    and "\<And>v. v \<in> popped s \<Longrightarrow> set (list_at g v) \<subseteq> popped s"
    and "\<And>v w. v \<in> set (tStack s) \<Longrightarrow> w \<in> set (tStack s) \<Longrightarrow> ix s v \<le> ix s w \<Longrightarrow> (v, w) \<in> (call_edges g)\<^sup>*"
    and "\<And>v. v \<in> set (tStack s) \<Longrightarrow> \<exists>u \<in> gray. ix s u \<le> ix s v \<and> (v, u) \<in> (call_edges g)\<^sup>*"
    and "\<And>v. tOnCycle s v \<longleftrightarrow> v \<in> popped s \<and> (v, v) \<in> (call_edges g)\<^sup>+"
  shows "tarjan_ok g gray s"
  using assms unfolding tarjan_ok_def by blast

lemma lower_to_fields [simp]:
  "tIndex (lower_to v n s) = tIndex s" "tNext (lower_to v n s) = tNext s" "tStack (lower_to v n s) = tStack s"
  "tOnStack (lower_to v n s) = tOnStack s" "tOnCycle (lower_to v n s) = tOnCycle s"
  "tLow (lower_to v n s) v = min (tLow s v) n" "w \<noteq> v \<Longrightarrow> tLow (lower_to v n s) w = tLow s w"
  by (simp_all add: lower_to_def)

lemma lower_to_ok [simp]: "tarjan_ok g gray (lower_to v n s) = tarjan_ok g gray s"
  by (simp add: tarjan_ok_def)

lemma enter_fields [simp]:
  "tIndex (enter v s) = (tIndex s)(v \<mapsto> tNext s)" "tLow (enter v s) = (tLow s)(v := tNext s)"
  "tNext (enter v s) = Suc (tNext s)" "tStack (enter v s) = v # tStack s"
  "tOnStack (enter v s) = (tOnStack s)(v := True)" "tOnCycle (enter v s) = tOnCycle s"
  by (simp_all add: enter_def)

lemma index_below_next: "tarjan_ok g gray s \<Longrightarrow> v \<in> seen s \<Longrightarrow> ix s v < tNext s"
  using tarjan_okD(1) by fastforce

lemma stack_seen: "tarjan_ok g gray s \<Longrightarrow> v \<in> set (tStack s) \<Longrightarrow> v \<in> seen s"
  using tarjan_okD(3) by blast

lemma enter_ok:
  assumes ok: "tarjan_ok g gray s" and v: "v \<notin> seen s" and reach: "\<And>u. u \<in> gray \<Longrightarrow> (u, v) \<in> (call_edges g)\<^sup>*"
  shows "tarjan_ok g (insert v gray) (enter v s)"
proof (rule tarjan_okI)
  have out: "v \<notin> set (tStack s)" using stack_seen [OF ok] v by blast
  have ix: "ix (enter v s) w = ix s w" if "w \<in> seen s" for w using that v by auto
  have below: "ix s w < tNext s" if "w \<in> set (tStack s)" for w
    using index_below_next [OF ok] stack_seen [OF ok that] by blast
  have pop: "popped (enter v s) = popped s" using v by auto
  show "i < tNext (enter v s)" if "tIndex (enter v s) w = Some i" for w i
    using that tarjan_okD(1) [OF ok, of w i] by (auto split: if_splits)
  show "sorted_wrt (\<lambda>x w. ix (enter v s) w < ix (enter v s) x) (tStack (enter v s))"
  proof -
    have "sorted_wrt (\<lambda>x w. ix (enter v s) w < ix (enter v s) x) (tStack s)"
      by (rule sorted_wrt_mono_rel [OF _ tarjan_okD(2) [OF ok]]) (use ix stack_seen [OF ok] in metis)
    then show ?thesis using below out by (auto simp del: fun_upd_apply) (auto simp: fun_upd_def)
  qed
  show "set (tStack (enter v s)) \<subseteq> seen (enter v s)" using tarjan_okD(3) [OF ok] by auto
  show "tOnStack (enter v s) w \<longleftrightarrow> w \<in> set (tStack (enter v s))" for w using tarjan_okD(4) [OF ok] by simp
  show "insert v gray \<subseteq> set (tStack (enter v s))" using tarjan_okD(5) [OF ok] by auto
  show "set (list_at g w) \<subseteq> seen (enter v s)" if "w \<in> seen (enter v s)" "w \<notin> insert v gray" for w
    using tarjan_okD(6) [OF ok, of w] that by auto
  show "set (list_at g w) \<subseteq> popped (enter v s)" if "w \<in> popped (enter v s)" for w
    using tarjan_okD(7) [OF ok, of w] that unfolding pop .
  show "(x, w) \<in> (call_edges g)\<^sup>*"
    if "x \<in> set (tStack (enter v s))" "w \<in> set (tStack (enter v s))" "ix (enter v s) x \<le> ix (enter v s) w" for x w
  proof (cases "w = v")
    case True
    show ?thesis
    proof (cases "x = v")
      case False
      with that have "x \<in> set (tStack s)" by simp
      from tarjan_okD(9) [OF ok this] reach True show ?thesis by (meson rtrancl_trans)
    qed (simp add: True)
  next
    case False
    with that have w: "w \<in> set (tStack s)" by simp
    with that below [of w] False have "x \<noteq> v" by auto
    with that w False show ?thesis using tarjan_okD(8) [OF ok, of x w] by simp
  qed
  show "\<exists>u \<in> insert v gray. ix (enter v s) u \<le> ix (enter v s) w \<and> (w, u) \<in> (call_edges g)\<^sup>*"
    if "w \<in> set (tStack (enter v s))" for w
  proof (cases "w = v")
    case False
    with that have w: "w \<in> set (tStack s)" by simp
    from tarjan_okD(9) [OF ok w] obtain u where u: "u \<in> gray" "ix s u \<le> ix s w" "(w, u) \<in> (call_edges g)\<^sup>*" by blast
    moreover have "u \<noteq> v" using u(1) tarjan_okD(5) [OF ok] out by blast
    ultimately show ?thesis using False by (intro bexI [of _ u]) auto
  qed auto
  show "tOnCycle (enter v s) w \<longleftrightarrow> w \<in> popped (enter v s) \<and> (w, w) \<in> (call_edges g)\<^sup>+" for w
    using tarjan_okD(10) [OF ok] unfolding pop by simp
qed

section \<open>The loop over the targets\<close>

text \<open>What a returned call has kept of the state it was made in.\<close>

definition keeps :: "tarjan \<Rightarrow> tarjan \<Rightarrow> bool" where
  "keeps s s' \<longleftrightarrow> (\<forall>x \<in> seen s. tIndex s' x = tIndex s x \<and> tLow s' x = tLow s x)"

lemma keepsD:
  assumes "keeps s s'" "x \<in> seen s"
  shows "x \<in> seen s'" "ix s' x = ix s x" "tLow s' x = tLow s x"
  using assms unfolding keeps_def by (metis domIff)+

lemma keeps_trans: "keeps s s' \<Longrightarrow> keeps s' s'' \<Longrightarrow> keeps s s''"
  unfolding keeps_def by (metis domIff)

text \<open>
  The call for \<open>v\<close>, made in state \<open>s0\<close>, has visited the targets \<open>P\<close>: what it has pushed is above \<open>v\<close>,
  its low link is its own number or that of an older vertex it reaches, and bounds every edge
  from the pushed part or from \<open>v\<close> to \<open>P\<close> into the older stack.
\<close>

definition visiting :: "call_graph \<Rightarrow> string set \<Rightarrow> tarjan \<Rightarrow> string \<Rightarrow> string set \<Rightarrow> tarjan \<Rightarrow> bool" where
  "visiting g gray s0 v P s \<longleftrightarrow>
     tarjan_ok g gray s0 \<and> (\<forall>u \<in> gray. (u, v) \<in> (call_edges g)\<^sup>*) \<and>
     tarjan_ok g (insert v gray) s \<and> keeps s0 s \<and> tIndex s v = Some (tNext s0) \<and>
     (\<exists>new. tStack s = new @ v # tStack s0 \<and>
        (\<forall>y \<in> set new. \<forall>z \<in> set (tStack s0). (y, z) \<in> call_edges g \<longrightarrow> tLow s v \<le> ix s0 z)) \<and>
     tLow s v \<le> tNext s0 \<and>
     (tLow s v = tNext s0 \<or> (\<exists>z \<in> set (tStack s0). ix s0 z = tLow s v \<and> (v, z) \<in> (call_edges g)\<^sup>*)) \<and>
     (\<forall>w \<in> P. w \<in> seen s \<and> (w \<in> set (tStack s0) \<longrightarrow> tLow s v \<le> ix s0 w))"

text \<open>The call has returned.\<close>

definition connected :: "call_graph \<Rightarrow> string set \<Rightarrow> tarjan \<Rightarrow> string \<Rightarrow> tarjan \<Rightarrow> bool" where
  "connected g gray s v s' \<longleftrightarrow>
     tarjan_ok g gray s' \<and> keeps s s' \<and> tIndex s' v = Some (tNext s) \<and>
     (\<exists>new. tStack s' = new @ tStack s \<and>
        (\<forall>y \<in> set new. \<forall>z \<in> set (tStack s). (y, z) \<in> call_edges g \<longrightarrow> tLow s' v \<le> ix s z)) \<and>
     (tLow s' v = tNext s \<or> (\<exists>z \<in> set (tStack s). ix s z = tLow s' v \<and> (v, z) \<in> (call_edges g)\<^sup>*))"

lemma visiting_enter:
  assumes ok: "tarjan_ok g gray s" and v: "v \<notin> seen s" and reach: "\<And>u. u \<in> gray \<Longrightarrow> (u, v) \<in> (call_edges g)\<^sup>*"
  shows "visiting g gray s v {} (enter v s)"
  using enter_ok [OF assms] assms by (auto simp: visiting_def keeps_def)

lemma visitingD:
  assumes "visiting g gray s0 v P s"
  shows "tarjan_ok g (insert v gray) s" "keeps s0 s" "tIndex s v = Some (tNext s0)" "tLow s v \<le> tNext s0"
    and "tLow s v = tNext s0 \<or> (\<exists>z \<in> set (tStack s0). ix s0 z = tLow s v \<and> (v, z) \<in> (call_edges g)\<^sup>*)"
    and "w \<in> P \<Longrightarrow> w \<in> seen s" "w \<in> P \<Longrightarrow> w \<in> set (tStack s0) \<Longrightarrow> tLow s v \<le> ix s0 w"
    and "\<exists>new. tStack s = new @ v # tStack s0 \<and>
        (\<forall>y \<in> set new. \<forall>z \<in> set (tStack s0). (y, z) \<in> call_edges g \<longrightarrow> tLow s v \<le> ix s0 z)"
    and "tarjan_ok g gray s0" "u \<in> gray \<Longrightarrow> (u, v) \<in> (call_edges g)\<^sup>*"
  using assms unfolding visiting_def by blast+

text \<open>On the stack, the vertices older than \<open>v\<close> are those that were there before its call.\<close>

lemma older_below:
  assumes "tarjan_ok g gray s" "tStack s = new @ v # old" "tIndex s v = Some n" "z \<in> set (tStack s)" "ix s z < n"
  shows "z \<in> set old"
proof -
  have "sorted_wrt (\<lambda>v w. ix s w < ix s v) (new @ v # old)" using tarjan_okD(2) [OF assms(1)] assms(2) by simp
  then have "\<forall>y \<in> set new. ix s v < ix s y" by (auto simp: sorted_wrt_append)
  with assms show ?thesis by auto
qed

lemma visiting_old_index: "visiting g gray s0 v P s \<Longrightarrow> z \<in> set (tStack s0) \<Longrightarrow> ix s z = ix s0 z"
  using stack_seen [OF visitingD(9)] keepsD(2) [OF visitingD(2)] by blast

lemma visiting_fresh: "visiting g gray s0 v P s \<Longrightarrow> v \<notin> seen s0"
proof
  assume vis: "visiting g gray s0 v P s" and "v \<in> seen s0"
  then have "ix s v = ix s0 v" "ix s0 v < tNext s0"
    using keepsD(2) [OF visitingD(2) [OF vis]] index_below_next [OF visitingD(9) [OF vis]] by auto
  with visitingD(3) [OF vis] show False by simp
qed

text \<open>
  The loop body lowers the low link of \<open>v\<close> to \<open>n\<close>, the number of a vertex on the stack that \<open>v\<close> reaches
  or one that is not older than \<open>v\<close>.
\<close>

lemma visiting_lowered:
  assumes s0: "tarjan_ok g gray s0" "\<And>u. u \<in> gray \<Longrightarrow> (u, v) \<in> (call_edges g)\<^sup>*" "v \<notin> seen s0"
    and s: "tarjan_ok g (insert v gray) s" "keeps s0 s" "tIndex s v = Some (tNext s0)" "tStack s = new @ v # tStack s0"
    and edges: "\<And>y z. y \<in> set new \<Longrightarrow> z \<in> set (tStack s0) \<Longrightarrow> (y, z) \<in> call_edges g \<Longrightarrow> min (tLow s v) n \<le> ix s0 z"
    and low: "tLow s v \<le> tNext s0"
      "tLow s v = tNext s0 \<or> (\<exists>z \<in> set (tStack s0). ix s0 z = tLow s v \<and> (v, z) \<in> (call_edges g)\<^sup>*)"
    and P: "\<And>u. u \<in> P \<Longrightarrow> u \<in> seen s" "\<And>u. u \<in> P \<Longrightarrow> u \<in> set (tStack s0) \<Longrightarrow> min (tLow s v) n \<le> ix s0 u"
    and n: "tNext s0 \<le> n \<or> (\<exists>z \<in> set (tStack s). ix s z = n \<and> (v, z) \<in> (call_edges g)\<^sup>*)"
  shows "visiting g gray s0 v P (lower_to v n s)"
proof -
  have low': "min (tLow s v) n = tNext s0 \<or>
      (\<exists>z \<in> set (tStack s0). ix s0 z = min (tLow s v) n \<and> (v, z) \<in> (call_edges g)\<^sup>*)"
  proof (cases "n < tLow s v")
    case True
    then have less: "n < tNext s0" using low(1) by simp
    with n obtain z where z: "z \<in> set (tStack s)" "ix s z = n" "(v, z) \<in> (call_edges g)\<^sup>*" by auto
    with less older_below [OF s(1,4,3)] have "z \<in> set (tStack s0)" by blast
    moreover from this have "ix s z = ix s0 z" using keepsD(2) [OF s(2)] stack_seen [OF s0(1)] by blast
    ultimately show ?thesis using z True by auto
  next
    case False
    with low(2) show ?thesis by (simp add: min_def)
  qed
  have "keeps s0 (lower_to v n s)"
    using s(2) s0(3) unfolding keeps_def by (metis lower_to_fields(1,7))
  with low' show ?thesis
    unfolding visiting_def using s0 s low edges P by (auto simp: min.coboundedI1)
qed

lemma visiting_stack:
  assumes "visiting g gray s0 v P s" "w \<in> seen s" "w \<in> set (tStack s)" "(v, w) \<in> call_edges g"
  shows "visiting g gray s0 v (insert w P) (lower_to v (ix s w) s)"
proof -
  obtain new where new: "tStack s = new @ v # tStack s0"
    "\<And>y z. y \<in> set new \<Longrightarrow> z \<in> set (tStack s0) \<Longrightarrow> (y, z) \<in> call_edges g \<Longrightarrow> tLow s v \<le> ix s0 z"
    using visitingD(8) [OF assms(1)] by blast
  note D = visitingD [OF assms(1)]
  show ?thesis
  proof (rule visiting_lowered [OF D(9,10) visiting_fresh [OF assms(1)] D(1,2,3) new(1) _ D(4,5)])
    show "min (tLow s v) (ix s w) \<le> ix s0 z" if "y \<in> set new" "z \<in> set (tStack s0)" "(y, z) \<in> call_edges g" for y z
      using new(2) [OF that] by simp
    show "u \<in> seen s" if "u \<in> insert w P" for u using that D(6) assms(2) by auto
    show "min (tLow s v) (ix s w) \<le> ix s0 u" if "u \<in> insert w P" "u \<in> set (tStack s0)" for u
      using that D(7) [of u] visiting_old_index [OF assms(1), of u] by auto
    show "tNext s0 \<le> ix s w \<or> (\<exists>z \<in> set (tStack s). ix s z = ix s w \<and> (v, z) \<in> (call_edges g)\<^sup>*)"
      using assms(3,4) by blast
  qed
qed

lemma visiting_skip:
  assumes "visiting g gray s0 v P s" "w \<in> seen s" "w \<notin> set (tStack s)"
  shows "visiting g gray s0 v (insert w P) s"
proof -
  have "w \<notin> set (tStack s0)" using visitingD(8) [OF assms(1)] assms(3) by auto
  with assms show ?thesis by (auto simp: visiting_def)
qed

lemma connectedD:
  assumes "connected g gray s v s'"
  shows "tarjan_ok g gray s'" "keeps s s'" "tIndex s' v = Some (tNext s)"
    and "tLow s' v = tNext s \<or> (\<exists>z \<in> set (tStack s). ix s z = tLow s' v \<and> (v, z) \<in> (call_edges g)\<^sup>*)"
    and "\<exists>new. tStack s' = new @ tStack s \<and>
        (\<forall>y \<in> set new. \<forall>z \<in> set (tStack s). (y, z) \<in> call_edges g \<longrightarrow> tLow s' v \<le> ix s z)"
  using assms unfolding connected_def by blast+

lemma visiting_connected:
  assumes vis: "visiting g gray s0 v P s" and w: "(v, w) \<in> call_edges g" "w \<notin> seen s"
    and con: "connected g (insert v gray) s w s'"
  shows "visiting g gray s0 v (insert w P) (lower_to v (tLow s' w) s')"
proof -
  note D = visitingD [OF vis] and C = connectedD [OF con]
  have vs: "v \<in> seen s" using D(3) by auto
  have next': "tNext s0 \<le> tNext s" using index_below_next [OF D(1) vs] D(3) by simp
  obtain new where new: "tStack s' = new @ tStack s"
    "\<And>y z. y \<in> set new \<Longrightarrow> z \<in> set (tStack s) \<Longrightarrow> (y, z) \<in> call_edges g \<Longrightarrow> tLow s' w \<le> ix s z"
    using C(5) by blast
  obtain old where old: "tStack s = old @ v # tStack s0"
    "\<And>y z. y \<in> set old \<Longrightarrow> z \<in> set (tStack s0) \<Longrightarrow> (y, z) \<in> call_edges g \<Longrightarrow> tLow s v \<le> ix s0 z"
    using D(8) by blast
  have v': "tIndex s' v = Some (tNext s0)" "tLow s' v = tLow s v"
    using C(2) vs D(3) unfolding keeps_def by auto
  have stack: "tStack s' = (new @ old) @ v # tStack s0" using new(1) old(1) by simp
  have sub: "z \<in> set (tStack s)" "ix s z = ix s0 z" if "z \<in> set (tStack s0)" for z
    using that old(1) visiting_old_index [OF vis] by auto
  show ?thesis
  proof (rule visiting_lowered [OF D(9,10) visiting_fresh [OF vis] C(1) keeps_trans [OF D(2) C(2)] v'(1) stack])
    show "min (tLow s' v) (tLow s' w) \<le> ix s0 z"
      if "y \<in> set (new @ old)" "z \<in> set (tStack s0)" "(y, z) \<in> call_edges g" for y z
      using that new(2) [of y z] old(2) [of y z] sub [of z] v'(2) by auto
    show "tLow s' v \<le> tNext s0"
      "tLow s' v = tNext s0 \<or> (\<exists>z \<in> set (tStack s0). ix s0 z = tLow s' v \<and> (v, z) \<in> (call_edges g)\<^sup>*)"
      using D(4,5) v'(2) by simp_all
    show "u \<in> seen s'" if "u \<in> insert w P" for u
      using that C(3) D(6) [of u] keepsD(1) [OF C(2), of u] by auto
    show "min (tLow s' v) (tLow s' w) \<le> ix s0 u" if "u \<in> insert w P" "u \<in> set (tStack s0)" for u
      using that w(2) sub [of u] stack_seen [OF D(1), of u] D(7) [of u] v'(2) by auto
    show "tNext s0 \<le> tLow s' w \<or> (\<exists>z \<in> set (tStack s'). ix s' z = tLow s' w \<and> (v, z) \<in> (call_edges g)\<^sup>*)"
      using C(4)
    proof
      assume "\<exists>z \<in> set (tStack s). ix s z = tLow s' w \<and> (w, z) \<in> (call_edges g)\<^sup>*"
      then obtain z where z: "z \<in> set (tStack s)" "ix s z = tLow s' w" "(w, z) \<in> (call_edges g)\<^sup>*" by blast
      then have "ix s' z = tLow s' w" using keepsD(2) [OF C(2) stack_seen [OF D(1)]] by simp
      moreover have "(v, z) \<in> (call_edges g)\<^sup>*" using w(1) z(3) by (rule converse_rtrancl_into_rtrancl)
      ultimately show ?thesis using z(1) new(1) by auto
    qed (use next' in simp)
  qed
qed

section \<open>The end of a call\<close>

lemma closed_reach: "(x, y) \<in> (call_edges g)\<^sup>* \<Longrightarrow> x \<in> A \<Longrightarrow> (\<And>v. v \<in> A \<Longrightarrow> set (list_at g v) \<subseteq> A) \<Longrightarrow> y \<in> A"
  by (induction rule: rtrancl_induct) (auto simp: call_edges_def)

lemma stack_decreasing:
  assumes "tarjan_ok g gray s" "tStack s = new @ v # old"
  shows "v \<notin> set new" "set new \<inter> set old = {}" "v \<notin> set old" "y \<in> set new \<Longrightarrow> ix s v < ix s y"
  using tarjan_okD(2) [OF assms(1)] unfolding assms(2) by (fastforce simp: sorted_wrt_append)+

lemma stay_ok:
  assumes vis: "visiting g gray s0 v (set (list_at g v)) s" and low: "tLow s v \<noteq> tNext s0"
  shows "tarjan_ok g gray s"
proof -
  note D = visitingD [OF vis]
  obtain z where z: "z \<in> set (tStack s0)" "ix s0 z = tLow s v" "(v, z) \<in> (call_edges g)\<^sup>*" using D(5) low by blast
  obtain u where u: "u \<in> gray" "ix s0 u \<le> ix s0 z" "(z, u) \<in> (call_edges g)\<^sup>*" using tarjan_okD(9) [OF D(9) z(1)] by blast
  have "u \<in> set (tStack s0)" using u(1) tarjan_okD(5) [OF D(9)] by blast
  then have iu: "ix s u \<le> tNext s0" using visiting_old_index [OF vis] u(2) z(2) D(4) by simp
  have vu: "(v, u) \<in> (call_edges g)\<^sup>*" using z(3) u(3) by (rule rtrancl_trans)
  show ?thesis
  proof (rule tarjan_okI)
    show "x \<in> popped s \<Longrightarrow> set (list_at g x) \<subseteq> popped s" for x by (rule tarjan_okD(7) [OF D(1)])
    show "x \<in> set (tStack s) \<Longrightarrow> w \<in> set (tStack s) \<Longrightarrow> ix s x \<le> ix s w \<Longrightarrow> (x, w) \<in> (call_edges g)\<^sup>*" for x w
      by (rule tarjan_okD(8) [OF D(1)])
    show "tOnCycle s x \<longleftrightarrow> x \<in> popped s \<and> (x, x) \<in> (call_edges g)\<^sup>+" for x by (rule tarjan_okD(10) [OF D(1)])
    show "gray \<subseteq> set (tStack s)" using tarjan_okD(5) [OF D(1)] by blast
    show "set (list_at g x) \<subseteq> seen s" if "x \<in> seen s" "x \<notin> gray" for x
      using tarjan_okD(6) [OF D(1), of x] D(6) that by blast
    show "\<exists>u \<in> gray. ix s u \<le> ix s x \<and> (x, u) \<in> (call_edges g)\<^sup>*" if x: "x \<in> set (tStack s)" for x
    proof -
      obtain y where y: "y \<in> insert v gray" "ix s y \<le> ix s x" "(x, y) \<in> (call_edges g)\<^sup>*"
        using tarjan_okD(9) [OF D(1) x] by blast
      show ?thesis
      proof (cases "y = v")
        case True
        then have "ix s u \<le> ix s x" using y(2) D(3) iu by simp
        moreover have "(x, u) \<in> (call_edges g)\<^sup>*" using y(3) True vu by (meson rtrancl_trans)
        ultimately show ?thesis using u(1) by blast
      qed (use y in blast)
    qed
  qed (rule tarjan_okD(1-4) [OF D(1)]; assumption)+
qed

text \<open>The popped component: what is above \<open>v\<close>, and \<open>v\<close>.\<close>

lemma component_reach:
  assumes vis: "visiting g gray s0 v P s" and stack: "tStack s = new @ v # tStack s0" and x: "x \<in> set (new @ [v])"
  shows "(v, x) \<in> (call_edges g)\<^sup>*" "(x, v) \<in> (call_edges g)\<^sup>*"
proof -
  note D = visitingD [OF vis]
  have on: "x \<in> set (tStack s)" "v \<in> set (tStack s)" using x stack by auto
  have "ix s v \<le> ix s x" using x stack_decreasing(4) [OF D(1) stack, of x] by auto
  from tarjan_okD(8) [OF D(1) on(2,1) this] show "(v, x) \<in> (call_edges g)\<^sup>*" .
  obtain u where "u \<in> insert v gray" "(x, u) \<in> (call_edges g)\<^sup>*" using tarjan_okD(9) [OF D(1) on(1)] by blast
  then show "(x, v) \<in> (call_edges g)\<^sup>*" using D(10) by (metis insertE rtrancl_trans)
qed

lemma component_closed:
  assumes vis: "visiting g gray s0 v (set (list_at g v)) s" and stack: "tStack s = new @ v # tStack s0"
    and low: "tLow s v = tNext s0"
    and edges: "\<And>y z. y \<in> set new \<Longrightarrow> z \<in> set (tStack s0) \<Longrightarrow> (y, z) \<in> call_edges g \<Longrightarrow> tLow s v \<le> ix s0 z"
    and x: "x \<in> popped s \<union> set (new @ [v])"
  shows "set (list_at g x) \<subseteq> popped s \<union> set (new @ [v])"
proof (cases "x \<in> popped s")
  case True
  with tarjan_okD(7) [OF visitingD(1) [OF vis], of x] show ?thesis by blast
next
  case False
  note D = visitingD [OF vis]
  have x': "x \<in> set (new @ [v])" using x False by blast
  have "set (list_at g x) \<subseteq> seen s"
  proof (cases "x = v")
    case False
    then have "x \<in> set new" using x' by simp
    then have "x \<notin> gray" "x \<in> seen s"
      using tarjan_okD(5) [OF D(9)] stack_decreasing(2) [OF D(1) stack] stack_seen [OF D(1)] stack by auto
    with False tarjan_okD(6) [OF D(1), of x] show ?thesis by blast
  qed (use D(6) in blast)
  moreover have "z \<notin> set (tStack s0)" if "z \<in> set (list_at g x)" for z
  proof
    assume z: "z \<in> set (tStack s0)"
    have e: "(x, z) \<in> call_edges g" using that by (simp add: call_edges_def)
    have "ix s0 z < tNext s0" using index_below_next [OF D(9)] stack_seen [OF D(9) z] by blast
    moreover have "tLow s v \<le> ix s0 z" using edges [OF _ z e] D(7) [OF _ z] that x' by (cases "x = v") auto
    ultimately show False using low by simp
  qed
  ultimately show ?thesis using stack by auto
qed

lemma component_cycles:
  assumes vis: "visiting g gray s0 v (set (list_at g v)) s" and stack: "tStack s = new @ v # tStack s0"
    and low: "tLow s v = tNext s0"
    and edges: "\<And>y z. y \<in> set new \<Longrightarrow> z \<in> set (tStack s0) \<Longrightarrow> (y, z) \<in> call_edges g \<Longrightarrow> tLow s v \<le> ix s0 z"
    and x: "x \<in> set (new @ [v])"
  shows "(x, x) \<in> (call_edges g)\<^sup>+ \<longleftrightarrow> new \<noteq> [] \<or> v \<in> set (list_at g v)"
proof (cases "new = []")
  case True
  then have xv: "x = v" using x by simp
  have out: "v \<notin> popped s" using stack by simp
  have "v \<in> set (list_at g v)" if cycle: "(v, v) \<in> (call_edges g)\<^sup>+"
  proof (rule ccontr)
    assume no: "v \<notin> set (list_at g v)"
    obtain w where w: "(v, w) \<in> call_edges g" "(w, v) \<in> (call_edges g)\<^sup>*" using tranclD [OF cycle] by blast
    have "set (list_at g v) \<subseteq> popped s \<union> set (new @ [v])"
      by (rule component_closed [OF vis stack low]) (use edges in auto)
    then have "w \<in> popped s \<union> set (new @ [v])" using w(1) by (auto simp: call_edges_def)
    with True w(1) no have "w \<in> popped s" by (auto simp: call_edges_def)
    with closed_reach [OF w(2), of "popped s"] tarjan_okD(7) [OF visitingD(1) [OF vis]] out show False by blast
  qed
  moreover have "(v, v) \<in> (call_edges g)\<^sup>+" if "v \<in> set (list_at g v)" using that by (auto simp: call_edges_def)
  ultimately show ?thesis using True xv by blast
next
  case False
  have nv: "v \<notin> set new" by (rule stack_decreasing(1) [OF visitingD(1) [OF vis] stack])
  obtain y where y: "y \<in> set (new @ [v])" "y \<noteq> x"
  proof (cases "x = v")
    case True
    with False nv that [of "hd new"] show thesis by (cases new) auto
  qed (use that [of v] in auto)
  note r = component_reach [OF vis stack]
  have "(x, y) \<in> (call_edges g)\<^sup>*" "(y, x) \<in> (call_edges g)\<^sup>*"
    using r(1,2) [OF x] r(1,2) [OF y(1)] by (meson rtrancl_trans)+
  with y(2) have "(x, x) \<in> (call_edges g)\<^sup>+" by (metis rtranclD rtrancl_trancl_trancl trancl_rtrancl_trancl)
  with False show ?thesis by blast
qed

lemma leave_pop:
  assumes "tStack s = new @ v # old" "v \<notin> set new" "tLow s v = ix s v"
  shows "leave g v s = s\<lparr>tStack := old, tOnStack := (\<lambda>w. tOnStack s w \<and> w \<notin> set (new @ [v])),
    tOnCycle := (\<lambda>w. tOnCycle s w \<or> (new \<noteq> [] \<or> v \<in> set (list_at g v)) \<and> w \<in> set (new @ [v]))\<rparr>"
proof -
  have "takeWhile (\<lambda>w. w \<noteq> v) (tStack s) = new"
    unfolding assms(1) using assms(2) by (subst takeWhile_append2) auto
  with assms show ?thesis by (simp add: leave_def Let_def)
qed

lemma leave_connected:
  assumes vis: "visiting g gray s0 v (set (list_at g v)) s"
  shows "connected g gray s0 v (leave g v s)"
proof -
  note D = visitingD [OF vis]
  obtain new where new: "tStack s = new @ v # tStack s0"
    "\<And>y z. y \<in> set new \<Longrightarrow> z \<in> set (tStack s0) \<Longrightarrow> (y, z) \<in> call_edges g \<Longrightarrow> tLow s v \<le> ix s0 z"
    using D(8) by blast
  show ?thesis
  proof (cases "tLow s v = tNext s0")
    case False
    then have "leave g v s = s" using D(3) by (simp add: leave_def)
    moreover have "tLow s v \<le> ix s0 z" if "y \<in> set (new @ [v])" "z \<in> set (tStack s0)" "(y, z) \<in> call_edges g" for y z
      using that new(2) D(7) by (auto simp: call_edges_def)
    moreover have "tStack s = (new @ [v]) @ tStack s0" using new(1) by simp
    ultimately show ?thesis
      using stay_ok [OF vis False] D(2,3,5) unfolding connected_def by metis
  next
    case True
    note dec = stack_decreasing [OF D(1) new(1)]
    let ?scc = "set (new @ [v])"
    let ?s = "leave g v s"
    have s': "?s = s\<lparr>tStack := tStack s0, tOnStack := (\<lambda>w. tOnStack s w \<and> w \<notin> ?scc),
        tOnCycle := (\<lambda>w. tOnCycle s w \<or> (new \<noteq> [] \<or> v \<in> set (list_at g v)) \<and> w \<in> ?scc)\<rparr>"
      using leave_pop [OF new(1) dec(1)] True D(3) by simp
    have pop: "popped ?s = popped s \<union> ?scc"
      using stack_seen [OF D(1)] dec(1-3) unfolding s' new(1) by auto
    have closed: "set (list_at g x) \<subseteq> popped s \<union> ?scc" if "x \<in> popped s \<union> ?scc" for x
      by (rule component_closed [OF vis new(1) True]) (use new(2) that in auto)
    have cyc: "(x, x) \<in> (call_edges g)\<^sup>+ \<longleftrightarrow> new \<noteq> [] \<or> v \<in> set (list_at g v)" if "x \<in> ?scc" for x
      by (rule component_cycles [OF vis new(1) True]) (use new(2) that in auto)
    have "tarjan_ok g gray ?s"
    proof (rule tarjan_okI)
      show "sorted_wrt (\<lambda>v w. ix ?s w < ix ?s v) (tStack ?s)"
        using tarjan_okD(2) [OF D(1)] unfolding new(1) s' by (simp add: sorted_wrt_append)
      show "tOnStack ?s w \<longleftrightarrow> w \<in> set (tStack ?s)" for w
        using tarjan_okD(4) [OF D(1), of w] dec(2,3) unfolding s' new(1) by auto
      show "gray \<subseteq> set (tStack ?s)" using tarjan_okD(5) [OF D(9)] by (simp add: s')
      show "set (list_at g x) \<subseteq> seen ?s" if "x \<in> seen ?s" "x \<notin> gray" for x
        using tarjan_okD(6) [OF D(1), of x] D(6) that unfolding s' by auto
      show "set (list_at g x) \<subseteq> popped ?s" if "x \<in> popped ?s" for x using closed that unfolding pop .
      show "tOnCycle ?s x \<longleftrightarrow> x \<in> popped ?s \<and> (x, x) \<in> (call_edges g)\<^sup>+" for x
      proof -
        have "tOnCycle ?s x \<longleftrightarrow> tOnCycle s x \<or> (new \<noteq> [] \<or> v \<in> set (list_at g v)) \<and> x \<in> ?scc" by (simp add: s')
        then show ?thesis unfolding pop tarjan_okD(10) [OF D(1), of x] using cyc [of x] by blast
      qed
      show "\<exists>u \<in> gray. ix ?s u \<le> ix ?s x \<and> (x, u) \<in> (call_edges g)\<^sup>*" if x: "x \<in> set (tStack ?s)" for x
      proof -
        have x0: "x \<in> set (tStack s0)" using x by (simp add: s')
        obtain u where u: "u \<in> gray" "ix s0 u \<le> ix s0 x" "(x, u) \<in> (call_edges g)\<^sup>*" using tarjan_okD(9) [OF D(9) x0] by blast
        moreover have "u \<in> set (tStack s0)" using u(1) tarjan_okD(5) [OF D(9)] by blast
        ultimately show ?thesis using visiting_old_index [OF vis] x0 by (intro bexI [of _ u]) (simp_all add: s')
      qed
    qed (use tarjan_okD(1,3,8) [OF D(1)] in \<open>auto simp: s' new(1)\<close>)
    moreover have "keeps s0 ?s" using D(2) by (simp add: keeps_def s')
    ultimately show ?thesis using D(3) True unfolding connected_def by (simp add: s')
  qed
qed

section \<open>Every call returns, and marks the cycles\<close>

lemma card_enter: "finite V \<Longrightarrow> v \<in> V \<Longrightarrow> v \<notin> seen s \<Longrightarrow> card (V - seen (enter v s)) < card (V - seen s)"
  by (intro psubset_card_mono) auto

lemma card_keeps: "finite V \<Longrightarrow> keeps s s' \<Longrightarrow> card (V - seen s') \<le> card (V - seen s)"
  by (intro card_mono) (auto dest: keepsD(1))

definition vertices :: "call_graph \<Rightarrow> string set \<Rightarrow> bool" where
  "vertices g V \<longleftrightarrow> finite V \<and> (\<forall>v \<in> V. set (list_at g v) \<subseteq> V)"

lemma connect_spec:
  "vertices g V \<Longrightarrow> tarjan_ok g gray s \<Longrightarrow> v \<notin> seen s \<Longrightarrow> (\<And>u. u \<in> gray \<Longrightarrow> (u, v) \<in> (call_edges g)\<^sup>*) \<Longrightarrow> v \<in> V \<Longrightarrow>
      card (V - seen s) \<le> n \<Longrightarrow> \<exists>s'. connect g n v s = Some s' \<and> connected g gray s v s'"
  "vertices g V \<Longrightarrow> visiting g gray s0 v P s \<Longrightarrow> v \<in> V \<Longrightarrow> set rest \<subseteq> set (list_at g v) \<Longrightarrow> card (V - seen s) \<le> n \<Longrightarrow>
      \<exists>s'. visit_targets g n v rest s = Some s' \<and> visiting g gray s0 v (P \<union> set rest) s'"
proof (induction g n v s and g n v rest s arbitrary: gray and gray s0 P rule: connect_visit_targets.induct)
  case (1 g v s)
  then have "card (V - seen s) = 0" "finite (V - seen s)" by (simp_all add: vertices_def)
  then have "V - seen s = {}" by simp
  with 1(3,5) show ?case by blast
next
  case (2 g n v s)
  have "card (V - seen (enter v s)) \<le> n" using card_enter [of V v s] 2 by (simp add: vertices_def)
  from 2(1) [OF 2(2) visiting_enter [OF 2(3-5)] 2(6) subset_refl this] obtain s' where
    "visit_targets g n v (list_at g v) (enter v s) = Some s'" "visiting g gray s v (set (list_at g v)) s'" by auto
  with leave_connected show ?case by simp
next
  case (4 g n v w rest s)
  have w: "(v, w) \<in> call_edges g" "w \<in> V" and rest: "set rest \<subseteq> set (list_at g v)"
    using 4(4,6,7) by (auto simp: call_edges_def vertices_def)
  show ?case
  proof (cases "tIndex s w")
    case None
    have reach: "(u, w) \<in> (call_edges g)\<^sup>*" if "u \<in> insert v gray" for u
      using visitingD(10) [OF 4(5), of u] that w(1) by (metis insertE r_into_rtrancl rtrancl.rtrancl_into_rtrancl)
    have "w \<notin> seen s" using None by auto
    then obtain s' where s': "connect g n w s = Some s'" "connected g (insert v gray) s w s'"
      using 4(1) [OF None 4(4) visitingD(1) [OF 4(5)]] reach w(2) 4(8) by blast
    let ?t = "lower_to v (tLow s' w) s'"
    have "card (V - seen ?t) \<le> n"
      using card_keeps [of V, OF _ connectedD(2) [OF s'(2)]] 4(4,8) by (simp add: vertices_def)
    with 4(2) [OF None s'(1) 4(4) visiting_connected [OF 4(5) w(1) \<open>w \<notin> seen s\<close> s'(2)] 4(6) rest]
    show ?thesis using None s'(1) by simp
  next
    case (Some i)
    let ?t = "if tOnStack s w then lower_to v i s else s"
    have "visiting g gray s0 v (insert w P) ?t"
      using visiting_stack [OF 4(5) _ _ w(1)] visiting_skip [OF 4(5)] Some tarjan_okD(4) [OF visitingD(1) [OF 4(5)], of w]
      by (auto simp: dom_def)
    moreover have "card (V - seen ?t) \<le> n" using 4(8) by simp
    ultimately obtain s' where "visit_targets g n v rest ?t = Some s'" "visiting g gray s0 v (insert w P \<union> set rest) s'"
      using 4(3) [OF Some 4(4) _ 4(6) rest] by blast
    then show ?thesis using Some by simp
  qed
qed simp

lemma start_ok: "tarjan_ok g {} start"
  by (simp add: tarjan_ok_def start_def)

text \<open>Between two calls of the outer loop there is no active call, so the stack is empty.\<close>

lemma idle_stack: "tarjan_ok g {} s \<Longrightarrow> tStack s = []"
  using tarjan_okD(9) [of g "{}" s "hd (tStack s)"] by (cases "tStack s") auto

lemma connect_all_spec:
  assumes "vertices g V" "tarjan_ok g {} s" "set vs \<subseteq> V" "card (V - seen s) \<le> n"
  shows "\<exists>s'. connect_all g n vs s = Some s' \<and> tarjan_ok g {} s' \<and> seen s \<union> set vs \<subseteq> seen s'"
  using assms(2-4)
proof (induction vs arbitrary: s)
  case (Cons v vs)
  show ?case
  proof (cases "tIndex s v")
    case None
    then obtain s' where s': "connect g n v s = Some s'" "connected g {} s v s'"
      using connect_spec(1) [OF assms(1) Cons.prems(1), of v n] Cons.prems by auto
    have "card (V - seen s') \<le> n"
      using card_keeps [of V, OF _ connectedD(2) [OF s'(2)]] assms(1) Cons.prems(3) by (simp add: vertices_def)
    from Cons.IH [OF connectedD(1) [OF s'(2)] _ this] Cons.prems(2) obtain t where
      "connect_all g n vs s' = Some t" "tarjan_ok g {} t" "seen s' \<union> set vs \<subseteq> seen t" by auto
    with None s'(1) keepsD(1) [OF connectedD(2) [OF s'(2)]] connectedD(3) [OF s'(2)] show ?thesis by auto
  next
    case (Some i)
    then have "v \<in> seen s" by auto
    with Some Cons.IH [OF Cons.prems(1) _ Cons.prems(3)] Cons.prems(2) show ?thesis by fastforce
  qed
qed simp

lemma collect_cycles_filter: "collect_cycles vs c = filter c (rev (remdups (rev vs)))"
proof (induction vs arbitrary: c)
  case (Cons v vs)
  have rem: "rev (remdups (rev (v # vs))) = v # removeAll v (rev (remdups (rev vs)))" for v :: string and vs
    by (induction vs rule: rev_induct) auto
  show ?case unfolding rem using Cons
    by (auto simp: removeAll_filter_not_eq intro: filter_cong)
qed simp

section \<open>Properties\<close>

text \<open>The elements of a list, each at its first occurrence.\<close>

definition once :: "string list \<Rightarrow> string list" where
  "once vs = rev (remdups (rev vs))"

lemma document_vertices:
  assumes "\<And>v. set (list_at g v) = set (list_at (buildCallGraph doc) v)"
  shows "vertices g (sfID ` set (Subflows doc))"
  using call_graph_targets [of _ doc] assms by (auto simp: vertices_def)

lemma circular_deps:
  assumes "\<And>v. set (list_at g v) = set (list_at (buildCallGraph doc) v)"
  shows "detectCircularDeps doc g =
    Some (filter (\<lambda>v. (v, v) \<in> (call_edges (buildCallGraph doc))\<^sup>+) (once (map sfID (Subflows doc))))"
proof -
  let ?ids = "map sfID (Subflows doc)"
  have "card (set ?ids) \<le> length ?ids" by (rule card_length)
  then have "card (sfID ` set (Subflows doc) - seen start) \<le> length ?ids" by (simp add: start_def)
  from connect_all_spec [OF document_vertices [OF assms] start_ok _ this, of ?ids] obtain s where
    s: "connect_all g (length ?ids) ?ids start = Some s" "tarjan_ok g {} s" "set ?ids \<subseteq> seen s" by auto
  have edges: "call_edges g = call_edges (buildCallGraph doc)" using assms by (simp add: call_edges_def)
  have "tOnCycle s v \<longleftrightarrow> (v, v) \<in> (call_edges (buildCallGraph doc))\<^sup>+" if "v \<in> set ?ids" for v
    using tarjan_okD(10) [OF s(2), of v] idle_stack [OF s(2)] s(3) that unfolding edges by auto
  then have "filter (tOnCycle s) (once ?ids) = filter (\<lambda>v. (v, v) \<in> (call_edges (buildCallGraph doc))\<^sup>+) (once ?ids)"
    by (intro filter_cong) (auto simp: once_def)
  then show ?thesis using s(1) by (simp add: detectCircularDeps_def Let_def collect_cycles_filter once_def)
qed

text \<open>
  C16: circular dependency detection always returns, and returns exactly the subflows that can reach
  themselves through at least one call, each once and in document order, whatever order the call
  graph's map iteration visits the targets in.
\<close>

theorem circular_deps_exact:
  assumes "\<And>v. set (list_at g v) = set (list_at (buildCallGraph doc) v)"
  shows "detectCircularDeps doc g =
    Some (filter (\<lambda>v. (v, v) \<in> (call_edges (buildCallGraph doc))\<^sup>+) (once (map sfID (Subflows doc))))"
  using assms by (rule circular_deps)

theorem circular_deps_exact_witness:
  "detectCircularDeps calling_flow [(''s'', [''m'']), (''m'', [''s''])] = Some [''m'', ''s''] \<and>
   (''m'', ''m'') \<in> (call_edges (buildCallGraph calling_flow))\<^sup>+"
proof -
  let ?g = "[(''s'', [''m'']), (''m'', [''s''])]"
  have g: "buildCallGraph calling_flow = [(''m'', [''s'']), (''s'', [''m''])]" by code_simp
  have 1: "set (list_at ?g v) = set (list_at (buildCallGraph calling_flow) v)" for v
    unfolding g by (simp add: list_at_def)
  have 2: "detectCircularDeps calling_flow ?g = Some [''m'', ''s'']" by code_simp
  have "once (map sfID (Subflows calling_flow)) = [''m'', ''s'']" by code_simp
  with circular_deps_exact [OF 1] 2 have "filter (\<lambda>v. (v, v) \<in> (call_edges (buildCallGraph calling_flow))\<^sup>+) [''m'', ''s''] = [''m'', ''s'']"
    by simp
  with 2 show ?thesis by (simp split: if_splits)
qed

end
