(* ===== verification/Metrics.thy ===== *)
theory Metrics
  imports Call_Cycles Complex_Main
begin

text \<open>
  core/analyzer/metrics.go and the subflow graph of facts.go: complexity of a subflow, fan-in and
  fan-out, and the health score of a report. The float64 values are rationals: averages are exact
  quotients, and the health score is a multiple of one half.
\<close>

section \<open>Metrics of a subflow\<close>

record SubflowMetrics =
  smSubflowID :: string
  smSubflowName :: string
  smBlockCount :: nat
  smCyclomatic :: nat
  smCognitive :: nat
  smMaxNestingDepth :: nat
  smVariableCount :: nat
  smFanIn :: nat
  smFanOut :: nat

record metrics_walk =
  mwBlocks :: nat
  mwCyclo :: nat
  mwCog :: nat
  mwDepth :: nat

definition decide :: "nat \<Rightarrow> metrics_walk \<Rightarrow> metrics_walk" where
  "decide depth m = m\<lparr>mwCyclo := mwCyclo m + 1, mwCog := mwCog m + depth + 1\<rparr>"

text \<open>What one block adds to the counters: the loop body without the recursive call.\<close>

definition measure_block :: "nat \<Rightarrow> metrics_walk \<Rightarrow> Block \<Rightarrow> metrics_walk" where
  "measure_block depth m b =
     (let t = bType (binfo b) in
      if t = BlockTypeEnd \<or> t = BlockTypeComment then m
      else
        (let m = m\<lparr>mwBlocks := mwBlocks m + 1\<rparr> in
         if t = BlockTypeCondition then
           foldl (\<lambda>m c. if bType (binfo c) = BlockTypeElse then decide depth m else m) (decide depth m) (Children b)
         else if t = BlockTypeLoop then decide depth m
         else if t = BlockTypeSwitch then
           foldl (\<lambda>m c. if bType (binfo c) = BlockTypeCase \<or> bType (binfo c) = BlockTypeDefault
             then decide depth m else m) m (Children b)
         else m))"

definition at_depth :: "nat \<Rightarrow> metrics_walk \<Rightarrow> metrics_walk" where
  "at_depth depth m = (if depth > mwDepth m then m\<lparr>mwDepth := depth\<rparr> else m)"

fun measure_tree :: "nat \<Rightarrow> metrics_walk \<Rightarrow> Block \<Rightarrow> metrics_walk" where
  "measure_tree depth m (Block b cs) =
     (let m = measure_block depth m (Block b cs) in
      if cs \<noteq> [] then foldl (measure_tree (depth + 1)) (at_depth (depth + 1) m) cs else m)"

definition measure_blocks :: "Block list \<Rightarrow> nat \<Rightarrow> metrics_walk \<Rightarrow> metrics_walk" where
  "measure_blocks bs depth m = foldl (measure_tree depth) (at_depth depth m) bs"

definition computeSubflowMetrics ::
    "Subflow \<Rightarrow> call_graph \<Rightarrow> (string \<Rightarrow> nat) \<Rightarrow> SubflowMetrics" where
  "computeSubflowMetrics sf callGraph fanInByID =
     (let m = measure_blocks (sfBlocks sf) 0 \<lparr>mwBlocks = 0, mwCyclo = 1, mwCog = 0, mwDepth = 0\<rparr> in
      \<lparr>smSubflowID = sfID sf, smSubflowName = sfName sf, smBlockCount = mwBlocks m, smCyclomatic = mwCyclo m,
       smCognitive = mwCog m, smMaxNestingDepth = mwDepth m, smVariableCount = length (sfVariables sf),
       smFanIn = fanInByID (sfID sf), smFanOut = length (list_at callGraph (sfID sf))\<rparr>)"

text \<open>The inverted call graph: for every subflow the number of its distinct callers other than itself.\<close>

definition fan_in :: "call_graph \<Rightarrow> string \<Rightarrow> nat" where
  "fan_in g tgt = sum_list (map (\<lambda>(src, targets). length (filter (\<lambda>t. t = tgt \<and> t \<noteq> src) targets)) g)"

section \<open>Health\<close>

definition finding_cost :: "ruleMetaTable \<Rightarrow> Finding \<Rightarrow> rat" where
  "finding_cost t f =
     (if \<not> gates t f then 0
      else (let s = gateSeverity (fSeverity f) in
        if s = SeverityError then 12 else if s = SeverityWarning then 4 else if s = SeverityInfo then 1 else 0))"

definition healthScore :: "ruleMetaTable \<Rightarrow> Finding list \<Rightarrow> nat \<Rightarrow> nat \<Rightarrow> bool \<Rightarrow> int" where
  "healthScore t findings maxCyclo maxCog circular =
     (let score = foldl (\<lambda>s f. s - finding_cost t f) 100 findings;
          score = (if maxCyclo > 20 then score - of_nat (maxCyclo - 20) * 2 else score);
          score = (if maxCog > 30 then score - of_nat (maxCog - 30) * (3 / 2) else score);
          score = (if circular then score - 10 else score)
      in \<lfloor>max 0 (min 100 score)\<rfloor>)"

definition computeHealthScore :: "ruleMetaTable \<Rightarrow> Finding list option \<Rightarrow> nat \<Rightarrow> nat \<Rightarrow> string list \<Rightarrow> int" where
  "computeHealthScore t report maxCyclo maxCog circular =
     (case report of None \<Rightarrow> 100 | Some fs \<Rightarrow> healthScore t fs maxCyclo maxCog (circular \<noteq> []))"

section \<open>Metrics of a flow\<close>

record FlowMetrics =
  fmSubflows :: "SubflowMetrics list"
  fmTotalBlocks :: nat
  fmTotalVariables :: nat
  fmMaxCyclomatic :: nat
  fmAvgCyclomatic :: rat
  fmMaxCognitive :: nat
  fmAvgCognitive :: rat
  fmHealthScore :: int
  fmVariableDensity :: rat
  fmSubflowCount :: nat
  fmCircular :: "string list"

definition assembleFlowMetrics ::
    "ruleMetaTable \<Rightarrow> SubflowMetrics list \<Rightarrow> nat \<Rightarrow> string list \<Rightarrow> Finding list option \<Rightarrow> FlowMetrics" where
  "assembleFlowMetrics t ms n circular report =
     (let totalBlocks = sum_list (map smBlockCount ms); totalVars = sum_list (map smVariableCount ms);
          maxCyclo = foldl max 0 (map smCyclomatic ms); maxCog = foldl max 0 (map smCognitive ms)
      in \<lparr>fmSubflows = ms, fmTotalBlocks = totalBlocks, fmTotalVariables = totalVars, fmMaxCyclomatic = maxCyclo,
          fmAvgCyclomatic = (if n > 0 then of_nat (sum_list (map smCyclomatic ms)) / of_nat n else 0),
          fmMaxCognitive = maxCog,
          fmAvgCognitive = (if n > 0 then of_nat (sum_list (map smCognitive ms)) / of_nat n else 0),
          fmHealthScore = computeHealthScore t report maxCyclo maxCog circular,
          fmVariableDensity = (if totalBlocks > 0 then of_nat totalVars / of_nat totalBlocks else 0),
          fmSubflowCount = n, fmCircular = circular\<rparr>)"

text \<open>\<open>None\<close> would be a cycle detection that does not return.\<close>

definition ComputeFlowMetrics ::
    "ruleMetaTable \<Rightarrow> FlowDocument \<Rightarrow> Finding list option \<Rightarrow> FlowMetrics option" where
  "ComputeFlowMetrics t doc report =
     (let callGraph = buildCallGraph doc;
          ms = map (\<lambda>sf. computeSubflowMetrics sf callGraph (fan_in callGraph)) (Subflows doc)
      in map_option (\<lambda>circular. assembleFlowMetrics t ms (length (Subflows doc)) circular report)
           (detectCircularDeps doc callGraph))"

text \<open>
  The subflow graph of a rule context, built on first use and shared by the per-subflow rules and the
  report's metrics. \<open>nameCount\<close> is the local counter of subflow names.
\<close>

record subflowGraph =
  sgCallGraph :: call_graph
  sgCircular :: "string list"
  sgMetrics :: "SubflowMetrics list"
  sgCyclo :: "(string \<times> nat) list"
  sgFanIn :: "(string \<times> nat) list"
  sgDuplicateNames :: "string list"

definition graph_subflow ::
    "call_graph \<Rightarrow> (string \<Rightarrow> nat) \<Rightarrow> subflowGraph \<times> (string \<times> nat) list \<Rightarrow> Subflow \<Rightarrow> subflowGraph \<times> (string \<times> nat) list" where
  "graph_subflow callGraph fanInByID st sf =
     (case st of (g, nameCount) \<Rightarrow>
      let m = computeSubflowMetrics sf callGraph fanInByID in
      (g\<lparr>sgMetrics := sgMetrics g @ [m],
         sgCyclo := AList.update (sfID sf) (smCyclomatic m) (sgCyclo g),
         sgFanIn := AList.update (sfID sf) (smFanIn m) (sgFanIn g)\<rparr>,
       AList.update (sfName sf) (nat_at nameCount (sfName sf) + 1) nameCount))"

definition buildSubflowGraph :: "RuleContext \<Rightarrow> subflowGraph option" where
  "buildSubflowGraph ctx =
     (let flow = ctxFlow ctx; callGraph = buildCallGraph flow in
      case detectCircularDeps flow callGraph of
        None \<Rightarrow> None
      | Some circular \<Rightarrow>
          (let (g, nameCount) = foldl (graph_subflow callGraph (fan_in callGraph))
                 (\<lparr>sgCallGraph = callGraph, sgCircular = circular, sgMetrics = [], sgCyclo = [], sgFanIn = [],
                   sgDuplicateNames = []\<rparr>, []) (Subflows flow)
           in Some (g\<lparr>sgDuplicateNames := map fst (filter (\<lambda>(n, c). c > 1) nameCount)\<rparr>)))"

definition ComputeFlowMetricsFromCtx :: "ruleMetaTable \<Rightarrow> RuleContext \<Rightarrow> Finding list option \<Rightarrow> FlowMetrics option" where
  "ComputeFlowMetricsFromCtx t ctx report =
     map_option (\<lambda>g. assembleFlowMetrics t (sgMetrics g) (length (Subflows (ctxFlow ctx))) (sgCircular g) report)
       (buildSubflowGraph ctx)"

text \<open>What the rules read of the graph; a graph that is never built reads as empty maps.\<close>

definition CircularSubflows :: "RuleContext \<Rightarrow> string list" where
  "CircularSubflows ctx = (case buildSubflowGraph ctx of None \<Rightarrow> [] | Some g \<Rightarrow> sgCircular g)"

definition SubflowCyclo :: "RuleContext \<Rightarrow> (string \<times> nat) list" where
  "SubflowCyclo ctx = (case buildSubflowGraph ctx of None \<Rightarrow> [] | Some g \<Rightarrow> sgCyclo g)"

definition SubflowFanIn :: "RuleContext \<Rightarrow> (string \<times> nat) list" where
  "SubflowFanIn ctx = (case buildSubflowGraph ctx of None \<Rightarrow> [] | Some g \<Rightarrow> sgFanIn g)"

definition DuplicateSubflowNames :: "RuleContext \<Rightarrow> string list" where
  "DuplicateSubflowNames ctx = (case buildSubflowGraph ctx of None \<Rightarrow> [] | Some g \<Rightarrow> sgDuplicateNames g)"

definition HealthOf :: "ruleMetaTable \<Rightarrow> Finding list \<Rightarrow> FlowMetrics option \<Rightarrow> int" where
  "HealthOf t findings m =
     (case m of None \<Rightarrow> healthScore t findings 0 0 False
      | Some m \<Rightarrow> healthScore t findings (fmMaxCyclomatic m) (fmMaxCognitive m) (fmCircular m \<noteq> []))"

section \<open>The walk counts decision points\<close>

text \<open>Decision points of one block: an \<open>IF\<close> and its \<open>ELSE\<close> branches, a loop, the cases of a \<open>SWITCH\<close>.\<close>

definition decisions :: "Block \<Rightarrow> nat" where
  "decisions b =
     (case bType (binfo b) of
        BlockTypeCondition \<Rightarrow> 1 + length (filter (\<lambda>c. bType (binfo c) = BlockTypeElse) (Children b))
      | BlockTypeLoop \<Rightarrow> 1
      | BlockTypeSwitch \<Rightarrow> length (filter (\<lambda>c. bType (binfo c) = BlockTypeCase \<or> bType (binfo c) = BlockTypeDefault) (Children b))
      | _ \<Rightarrow> 0)"

definition counted :: "Block \<Rightarrow> bool" where
  "counted b \<longleftrightarrow> bType (binfo b) \<noteq> BlockTypeEnd \<and> bType (binfo b) \<noteq> BlockTypeComment"

text \<open>The blocks of a tree with their nesting depth.\<close>

primrec with_depth :: "Block \<Rightarrow> nat \<Rightarrow> (nat \<times> Block) list" where
  "with_depth (Block b cs) d = (d, Block b cs) # concat (map (\<lambda>c. with_depth c (d + 1)) cs)"

definition depth_blocks :: "Subflow \<Rightarrow> (nat \<times> Block) list" where
  "depth_blocks sf = concat (map (\<lambda>b. with_depth b 0) (sfBlocks sf))"

lemma snd_with_depth: "map snd (with_depth b d) = preorder b"
proof (induction b arbitrary: d)
  case (Block b cs)
  then show ?case by (simp add: map_concat comp_def cong: map_cong)
qed

lemma snd_depth_blocks: "map snd (depth_blocks sf) = forest_blocks (sfBlocks sf)"
  by (simp add: depth_blocks_def forest_blocks_def map_concat comp_def snd_with_depth)

definition add_counts :: "(nat \<times> Block) list \<Rightarrow> metrics_walk \<Rightarrow> metrics_walk" where
  "add_counts ds m = m\<lparr>mwBlocks := mwBlocks m + length (filter (\<lambda>(d, b). counted b) ds),
     mwCyclo := mwCyclo m + sum_list (map (\<lambda>(d, b). decisions b) ds),
     mwCog := mwCog m + sum_list (map (\<lambda>(d, b). decisions b * (d + 1)) ds),
     mwDepth := foldl max (mwDepth m) (map fst ds)\<rparr>"

lemma add_counts_append: "add_counts (xs @ ys) m = add_counts ys (add_counts xs m)"
  by (simp add: add_counts_def)

lemma add_counts_Nil [simp]: "add_counts [] m = m"
  by (simp add: add_counts_def)

lemma decide_loop:
  "foldl (\<lambda>m c. if P c then decide depth m else m) m cs =
     m\<lparr>mwCyclo := mwCyclo m + length (filter P cs), mwCog := mwCog m + length (filter P cs) * (depth + 1)\<rparr>"
  by (induction cs arbitrary: m) (simp_all add: decide_def)

lemma measure_block_counts:
  "measure_block depth m b = m\<lparr>mwBlocks := mwBlocks m + (if counted b then 1 else 0),
     mwCyclo := mwCyclo m + decisions b, mwCog := mwCog m + decisions b * (depth + 1)\<rparr>"
  unfolding measure_block_def Let_def decide_loop
  by (cases "bType (binfo b)") (simp_all add: counted_def decisions_def decide_def)

lemma at_depth_max: "at_depth d m = m\<lparr>mwDepth := max (mwDepth m) d\<rparr>"
  by (simp add: at_depth_def max_def)

lemma with_depth_hd: "\<exists>ds. with_depth b d = (d, b) # ds"
  by (cases b) simp

lemma measure_tree_counts: "d \<le> mwDepth m \<Longrightarrow> measure_tree d m b = add_counts (with_depth b d) m"
proof (induction b arbitrary: d m)
  case (Block b cs)
  let ?m = "measure_block d m (Block b cs)"
  have one: "?m = add_counts [(d, Block b cs)] m"
    using Block.prems by (simp add: measure_block_counts add_counts_def max_absorb1)
  have "foldl (measure_tree (d + 1)) n xs = add_counts (concat (map (\<lambda>c. with_depth c (d + 1)) xs)) n"
    if "d + 1 \<le> mwDepth n" "set xs \<subseteq> set cs" for n xs
    using that
  proof (induction xs arbitrary: n)
    case (Cons x xs)
    have x: "measure_tree (d + 1) n x = add_counts (with_depth x (d + 1)) n"
      using Cons.prems by (intro Block.IH) auto
    obtain ds where "with_depth x (d + 1) = (d + 1, x) # ds" using with_depth_hd by blast
    have mono: "a \<le> foldl max a ys" for a :: nat and ys by (induction ys rule: rev_induct) (auto simp: le_max_iff_disj)
    have "d + 1 \<le> mwDepth (add_counts (with_depth x (d + 1)) n)"
      using Cons.prems(1) mono [of "mwDepth n"] by (auto simp: add_counts_def intro: order_trans)
    with Cons x show ?case by (simp add: add_counts_append)
  qed simp
  note kids = this [of "at_depth (d + 1) ?m" cs]
  show ?case
  proof (cases "cs = []")
    case True
    then show ?thesis using one by simp
  next
    case False
    then obtain c cs' where c: "cs = c # cs'" by (cases cs) auto
    obtain ds where ds: "with_depth c (Suc d) = (Suc d, c) # ds" using with_depth_hd by blast
    let ?kids = "concat (map (\<lambda>c. with_depth c (d + 1)) cs)"
    have "measure_tree d m (Block b cs) = add_counts ?kids (at_depth (d + 1) ?m)"
      using kids False by (simp add: at_depth_max Let_def)
    also have "\<dots> = add_counts ?kids ?m"
      by (simp add: c ds add_counts_def at_depth_max max.assoc)
    also have "\<dots> = add_counts (with_depth (Block b cs) d) m"
      unfolding one using add_counts_append [of "[(d, Block b cs)]" ?kids m] by simp
    finally show ?thesis .
  qed
qed

lemma measure_blocks_counts:
  "measure_blocks (sfBlocks sf) 0 m = add_counts (depth_blocks sf) m"
proof -
  have "foldl (measure_tree 0) n xs = add_counts (concat (map (\<lambda>c. with_depth c 0) xs)) n" for n xs
    by (induction xs arbitrary: n) (simp_all add: measure_tree_counts add_counts_append)
  then show ?thesis by (simp add: measure_blocks_def at_depth_def depth_blocks_def)
qed

lemma foldl_minus: "foldl (\<lambda>s f. s - c f) (x :: rat) fs = x - sum_list (map c fs)"
  by (induction fs arbitrary: x) simp_all

lemma finding_cost_nonneg: "0 \<le> finding_cost t f"
  by (simp add: finding_cost_def Let_def)

lemma costs_gating: "sum_list (map (finding_cost t) fs) = sum_list (map (finding_cost t) (filter (gates t) fs))"
  by (induction fs) (simp_all add: finding_cost_def)

definition penalty :: "ruleMetaTable \<Rightarrow> Finding list \<Rightarrow> nat \<Rightarrow> nat \<Rightarrow> bool \<Rightarrow> rat" where
  "penalty t fs maxCyclo maxCog circular = sum_list (map (finding_cost t) fs)
     + of_nat (maxCyclo - 20) * 2 + of_nat (maxCog - 30) * (3 / 2) + (if circular then 10 else 0)"

lemma healthScore_penalty:
  "healthScore t fs maxCyclo maxCog circular = \<lfloor>max 0 (min 100 (100 - penalty t fs maxCyclo maxCog circular))\<rfloor>"
proof -
  have if_minus: "(if n > k then x - of_nat (n - k) * c else x) = x - of_nat (n - k) * (c :: rat)" for n k :: nat and x c
    by simp
  show ?thesis
    unfolding healthScore_def penalty_def foldl_minus Let_def if_minus
    by (cases circular) (simp_all only: if_True if_False add_0_right diff_diff_eq add.assoc)
qed

lemma penalty_append:
  "penalty t fs maxCyclo maxCog circular \<le> penalty t (fs @ gs) maxCyclo maxCog circular"
  using sum_list_nonneg [of "map (finding_cost t) gs"] finding_cost_nonneg by (auto simp: penalty_def)

section \<open>Metrics of the call graph\<close>

lemma foldl_update_keys: "distinct (map fst m) \<Longrightarrow> distinct (map fst (foldl (\<lambda>m x. AList.update (k x) (v m x) m) m xs))"
  by (induction xs arbitrary: m) (simp_all add: AList.distinct_update)

lemma foldl_update_map_of:
  "map_of (foldl (\<lambda>m x. AList.update (k x) (v x) m) m xs) = map_of m ++ map_of (rev (map (\<lambda>x. (k x, v x)) xs))"
  by (induction xs arbitrary: m) (simp_all add: map_of_alist_update)

lemma call_graph_keys: "distinct (map fst (buildCallGraph doc))"
  unfolding buildCallGraph_def by (rule foldl_update_keys) simp

lemma call_graph_distinct:
  assumes "(v, ts) \<in> set (buildCallGraph doc)"
  shows "distinct ts"
proof -
  let ?t = "call_targets (buildSubflowNameIndex doc)"
  have "distinct (foldl (add_call idx) us bs)" if "distinct us" for idx us bs
    using that by (induction bs arbitrary: us) (simp_all add: add_call_def Let_def)
  then have "distinct (?t sf)" for sf by (simp add: call_targets_def)
  moreover have "(v, ts) \<in> set (map (\<lambda>sf. (sfID sf, ?t sf)) (Subflows doc))"
    using assms map_of_is_SomeI [OF call_graph_keys assms] unfolding buildCallGraph_def foldl_update_map_of
    by (auto dest!: map_of_SomeD)
  ultimately show ?thesis by auto
qed

lemma fan_in_callers:
  assumes "distinct (map fst g)" "\<And>v ts. (v, ts) \<in> set g \<Longrightarrow> distinct ts"
  shows "fan_in g w = card {v. v \<noteq> w \<and> (v, w) \<in> call_edges g}"
  using assms
proof (induction g)
  case Nil
  then show ?case by (simp add: fan_in_def call_edges_def list_at_def)
next
  case (Cons p g)
  obtain v ts where p: "p = (v, ts)" by (cases p)
  let ?C = "\<lambda>g. {v. v \<noteq> w \<and> (v, w) \<in> call_edges g}"
  have fin: "finite (?C g)"
  proof (rule finite_subset [of _ "fst ` set g"])
    show "?C g \<subseteq> fst ` set g"
      by (auto simp: call_edges_def list_at_def split: option.splits) (metis map_of_SomeD fst_conv imageI)
  qed simp
  have v: "map_of g v = None" using Cons.prems(1) p by (simp add: map_of_eq_None_iff)
  have C: "?C (p # g) = (if v \<noteq> w \<and> w \<in> set ts then insert v (?C g) else ?C g)"
    using v by (auto simp: p call_edges_def list_at_def split: if_splits)
  have "distinct ts" by (rule Cons.prems(2) [of v]) (simp add: p)
  then have one: "length (filter (\<lambda>t. t = w \<and> t \<noteq> v) ts) = (if v \<noteq> w \<and> w \<in> set ts then 1 else 0)"
    by (induction ts) auto
  have "v \<notin> ?C g" using v by (simp add: call_edges_def list_at_def)
  then have "card (insert v (?C g)) = Suc (card (?C g))" by (rule card_insert_disjoint [OF fin])
  then have "card (?C (p # g)) = (if v \<noteq> w \<and> w \<in> set ts then 1 else 0) + card (?C g)"
    unfolding C by (simp split: if_split)
  moreover have "fan_in g w = card (?C g)"
    using Cons.prems by (intro Cons.IH) auto
  ultimately show ?case by (simp add: p fan_in_def one)
qed

lemma graph_subflow_fold:
  "foldl (graph_subflow cg fan) (g, c) sfs =
     (g\<lparr>sgMetrics := sgMetrics g @ map (\<lambda>sf. computeSubflowMetrics sf cg fan) sfs,
        sgCyclo := foldl (\<lambda>m sf. AList.update (sfID sf) (smCyclomatic (computeSubflowMetrics sf cg fan)) m) (sgCyclo g) sfs,
        sgFanIn := foldl (\<lambda>m sf. AList.update (sfID sf) (smFanIn (computeSubflowMetrics sf cg fan)) m) (sgFanIn g) sfs\<rparr>,
      foldl (\<lambda>c sf. AList.update (sfName sf) (nat_at c (sfName sf) + 1) c) c sfs)"
  by (induction sfs arbitrary: g c) (simp_all add: graph_subflow_def Let_def)

lemma nat_at_counts:
  "nat_at (foldl (\<lambda>c x. AList.update (k x) (nat_at c (k x) + 1) c) c xs) n = nat_at c n + length (filter (\<lambda>x. k x = n) xs)"
  by (induction xs arbitrary: c) (auto simp: nat_at_def map_of_alist_update)

lemma set_counts:
  assumes "distinct (map fst c)"
  shows "n \<in> set (map fst (filter (\<lambda>(n, k). k > 1) c)) \<longleftrightarrow> nat_at c n > 1"
proof
  assume "n \<in> set (map fst (filter (\<lambda>(n, k). k > 1) c))"
  then obtain k where "(n, k) \<in> set c" "k > 1" by auto
  with assms show "nat_at c n > 1" by (simp add: nat_at_def)
next
  assume "nat_at c n > 1"
  then obtain k where "map_of c n = Some k" "k > 1" by (auto simp: nat_at_def split: option.splits)
  then have "(n, k) \<in> set (filter (\<lambda>(n, k). k > 1) c)" by (auto dest: map_of_SomeD)
  then show "n \<in> set (map fst (filter (\<lambda>(n, k). k > 1) c))" by (force simp del: set_filter)
qed

text \<open>The subflow graph is always built, and this is what it holds.\<close>

lemma subflow_graph:
  fixes ctx :: RuleContext
  defines "cg \<equiv> buildCallGraph (ctxFlow ctx)" and "sfs \<equiv> Subflows (ctxFlow ctx)"
  obtains g where "buildSubflowGraph ctx = Some g"
    and "sgCallGraph g = cg"
    and "sgCircular g = filter (\<lambda>v. (v, v) \<in> (call_edges cg)\<^sup>+) (once (map sfID sfs))"
    and "sgMetrics g = map (\<lambda>sf. computeSubflowMetrics sf cg (fan_in cg)) sfs"
    and "map_of (sgCyclo g) = map_of (rev (map (\<lambda>sf. (sfID sf, smCyclomatic (computeSubflowMetrics sf cg (fan_in cg)))) sfs))"
    and "map_of (sgFanIn g) = map_of (rev (map (\<lambda>sf. (sfID sf, fan_in cg (sfID sf))) sfs))"
    and "\<And>n. n \<in> set (sgDuplicateNames g) \<longleftrightarrow> length (filter (\<lambda>sf. sfName sf = n) sfs) > 1"
proof -
  let ?names = "foldl (\<lambda>c sf. AList.update (sfName sf) (nat_at c (sfName sf) + 1) c) [] sfs"
  obtain g where g: "buildSubflowGraph ctx = Some g"
    using circular_deps [of cg "ctxFlow ctx"] by (simp add: buildSubflowGraph_def cg_def Let_def graph_subflow_fold)
  have keys: "distinct (map fst ?names)" by (rule foldl_update_keys) simp
  have dup: "n \<in> set (sgDuplicateNames g) \<longleftrightarrow> nat_at ?names n > 1" for n
    using g circular_deps [of cg "ctxFlow ctx"] set_counts [OF keys, of n]
    by (auto simp: buildSubflowGraph_def cg_def sfs_def Let_def graph_subflow_fold simp del: set_map set_filter)
  show ?thesis
  proof (rule that [OF g])
    show "\<And>n. n \<in> set (sgDuplicateNames g) \<longleftrightarrow> length (filter (\<lambda>sf. sfName sf = n) sfs) > 1"
      unfolding dup nat_at_counts by (simp add: nat_at_def)
  qed (use g circular_deps [of cg "ctxFlow ctx"] in
      \<open>auto simp: buildSubflowGraph_def cg_def sfs_def Let_def graph_subflow_fold foldl_update_map_of computeSubflowMetrics_def\<close>)
qed

section \<open>Properties\<close>

text \<open>
  C18: the health score is between 0 and 100, never rises when findings are added, when the complexity
  grows or when a cycle appears, and findings of preview rules never move it.
\<close>

theorem health_score_bounds:
  "let h = healthScore t fs maxCyclo maxCog circular in
     0 \<le> h \<and> h \<le> 100 \<and> healthScore t (fs @ gs) (maxCyclo + a) (maxCog + b) (circular \<or> c) \<le> h \<and>
     healthScore t (filter (gates t) fs) maxCyclo maxCog circular = h"
proof -
  have "penalty t fs maxCyclo maxCog circular \<le> penalty t (fs @ gs) (maxCyclo + a) (maxCog + b) (circular \<or> c)"
    using penalty_append [of t fs maxCyclo maxCog circular gs]
    by (rule order_trans) (auto simp: penalty_def intro!: add_mono)
  then have "healthScore t (fs @ gs) (maxCyclo + a) (maxCog + b) (circular \<or> c) \<le> healthScore t fs maxCyclo maxCog circular"
    unfolding healthScore_penalty by (intro floor_mono max.mono min.mono) simp_all
  moreover have "penalty t (filter (gates t) fs) maxCyclo maxCog circular = penalty t fs maxCyclo maxCog circular"
    by (simp add: penalty_def costs_gating [symmetric])
  moreover have "\<lfloor>max 0 (min 100 (100 - penalty t fs maxCyclo maxCog circular))\<rfloor> \<le> \<lfloor>100 :: rat\<rfloor>"
    by (rule floor_mono) simp
  then have "0 \<le> healthScore t fs maxCyclo maxCog circular" "healthScore t fs maxCyclo maxCog circular \<le> 100"
    unfolding healthScore_penalty by simp_all
  ultimately show ?thesis unfolding Let_def by (simp add: healthScore_penalty)
qed

text \<open>
  one walk of a subflow gives the metrics their definitions ask for: the number of blocks that are
  neither comments nor END, one plus the number of decision points for the cyclomatic complexity,
  every decision point weighted with its nesting depth plus one for the cognitive complexity, and
  the greatest depth at which the tree has a block.
\<close>

theorem subflow_metrics_exact:
  "let m = computeSubflowMetrics sf g fan; ds = depth_blocks sf in
     smBlockCount m = length (filter counted (forest_blocks (sfBlocks sf))) \<and>
     smCyclomatic m = 1 + sum_list (map decisions (forest_blocks (sfBlocks sf))) \<and>
     smCognitive m = sum_list (map (\<lambda>(d, b). decisions b * (d + 1)) ds) \<and>
     smMaxNestingDepth m = foldl max 0 (map fst ds) \<and>
     map snd ds = forest_blocks (sfBlocks sf)"
  by (simp add: computeSubflowMetrics_def measure_blocks_counts add_counts_def Let_def
      snd_depth_blocks [symmetric] filter_map comp_def case_prod_unfold)

text \<open>
  C17: the metrics of a flow are computed for every document, and the path from the rule context gives
  the same ones as the path from the document: block counts and complexities add up to those of the
  whole flow, the circular dependencies are the subflows that can reach themselves through calls, and
  the fan-in of a subflow is the number of other subflows that call it.
\<close>

theorem flow_metrics_agree:
  "\<exists>m. ComputeFlowMetrics t flow report = Some m \<and> ComputeFlowMetricsFromCtx t (buildContext flow) report = Some m \<and>
     fmTotalBlocks m = length (filter counted (walkBlocks flow)) \<and>
     fmMaxCyclomatic m = foldl max 0 (map (\<lambda>sf. 1 + sum_list (map decisions (forest_blocks (sfBlocks sf)))) (Subflows flow)) \<and>
     fmCircular m = filter (\<lambda>v. (v, v) \<in> (call_edges (buildCallGraph flow))\<^sup>+) (once (map sfID (Subflows flow))) \<and>
     map smFanIn (fmSubflows m) =
       map (\<lambda>sf. card {v. v \<noteq> sfID sf \<and> (v, sfID sf) \<in> call_edges (buildCallGraph flow)}) (Subflows flow)"
proof -
  let ?cg = "buildCallGraph flow"
  obtain g where g: "buildSubflowGraph (buildContext flow) = Some g"
    "sgCircular g = filter (\<lambda>v. (v, v) \<in> (call_edges ?cg)\<^sup>+) (once (map sfID (Subflows flow)))"
    "sgMetrics g = map (\<lambda>sf. computeSubflowMetrics sf ?cg (fan_in ?cg)) (Subflows flow)"
    by (rule subflow_graph [of "buildContext flow"]) simp
  have fan: "fan_in ?cg w = card {v. v \<noteq> w \<and> (v, w) \<in> call_edges ?cg}" for w
    by (rule fan_in_callers [OF call_graph_keys call_graph_distinct])
  have sm: "smBlockCount (computeSubflowMetrics sf cg f) = length (filter counted (forest_blocks (sfBlocks sf)))"
    "smCyclomatic (computeSubflowMetrics sf cg f) = 1 + sum_list (map decisions (forest_blocks (sfBlocks sf)))" for sf cg f
    by (simp_all add: computeSubflowMetrics_def measure_blocks_counts add_counts_def Let_def
        snd_depth_blocks [symmetric] filter_map comp_def case_prod_unfold)
  have total: "length (filter counted (walkBlocks flow)) = sum_list (map (\<lambda>sf. length (filter counted (forest_blocks (sfBlocks sf)))) (Subflows flow))"
    by (simp add: walkBlocks_def doc_blocks_def filter_concat length_concat comp_def)
  have sf: "smFanIn (computeSubflowMetrics sf cg f) = f (sfID sf)" for sf cg f
    by (simp add: computeSubflowMetrics_def Let_def)
  let ?m = "assembleFlowMetrics t (sgMetrics g) (length (Subflows flow)) (sgCircular g) report"
  have "ComputeFlowMetrics t flow report = Some ?m" "ComputeFlowMetricsFromCtx t (buildContext flow) report = Some ?m"
    using circular_deps [of ?cg flow] by (simp_all add: ComputeFlowMetrics_def ComputeFlowMetricsFromCtx_def Let_def g)
  moreover have "fmTotalBlocks ?m = length (filter counted (walkBlocks flow))"
    by (simp add: assembleFlowMetrics_def Let_def g total comp_def sm)
  moreover have "fmMaxCyclomatic ?m = foldl max 0 (map (\<lambda>sf. 1 + sum_list (map decisions (forest_blocks (sfBlocks sf)))) (Subflows flow))"
    by (simp add: assembleFlowMetrics_def Let_def g comp_def sm)
  moreover have "map smFanIn (fmSubflows ?m) =
      map (\<lambda>sf. card {v. v \<noteq> sfID sf \<and> (v, sfID sf) \<in> call_edges ?cg}) (Subflows flow)"
    by (simp add: assembleFlowMetrics_def Let_def g comp_def sf fan)
  moreover have "fmCircular ?m = sgCircular g" by (simp add: assembleFlowMetrics_def Let_def)
  ultimately show ?thesis unfolding g(2) by blast
qed

end
