(* ===== verification/Rules.thy ===== *)
theory Rules
  imports Context_Correct Metrics
begin

text \<open>
  Structural rules of core/analyzer (rule_*.go): each is the record of its catalog identity with its
  check, translated with every guard of the code. Descriptions are the strings of the code. What a
  per-subflow rule reads of the call graph and the metrics is the \<open>subflowGraph\<close> of Metrics.
\<close>

section \<open>Anchors and shared facts\<close>

definition ownAnchor :: "RuleContext \<Rightarrow> Subflow \<Rightarrow> Block \<Rightarrow> Block option" where
  "ownAnchor ctx sf b =
     (if bType (binfo b) = BlockTypeEnd \<or> bSubflowID (binfo b) \<noteq> sfID sf \<or> map_of (SubflowByID ctx) (sfID sf) \<noteq> Some sf
      then None else Some b)"

definition subflowAnchor :: "RuleContext \<Rightarrow> Subflow \<Rightarrow> Block option" where
  "subflowAnchor ctx sf = (case sfBlocks sf of [] \<Rightarrow> None | b # _ \<Rightarrow> ownAnchor ctx sf b)"

definition actionableAnchor :: "RuleContext \<Rightarrow> Subflow \<Rightarrow> Block option" where
  "actionableAnchor ctx sf =
     (case find (\<lambda>b. bType (binfo b) \<noteq> BlockTypeComment \<and> bType (binfo b) \<noteq> BlockTypeEnd) (sfBlocks sf) of
        None \<Rightarrow> None | Some b \<Rightarrow> ownAnchor ctx sf b)"

text \<open>One finding per subflow that has an anchor and is flagged.\<close>

definition per_subflow ::
    "(Subflow \<Rightarrow> Block option) \<Rightarrow> (Subflow \<Rightarrow> bool) \<Rightarrow> (Subflow \<Rightarrow> Block \<Rightarrow> Finding) \<Rightarrow> Subflow list \<Rightarrow> Finding list" where
  "per_subflow anchor flagged mk sfs =
     concat (map (\<lambda>sf. if flagged sf then (case anchor sf of None \<Rightarrow> [] | Some b \<Rightarrow> [mk sf b]) else []) sfs)"

text \<open>A name between single quotes, and the dash of the messages in UTF-8.\<close>

definition quoted :: "string \<Rightarrow> string" where
  "quoted s = [CHR 0x27] @ s @ [CHR 0x27]"

definition em_dash :: string where
  "em_dash = [CHR 0xE2, CHR 0x80, CHR 0x94]"

text \<open>The digit loop of \<open>itoa\<close> on the non-negative counts it is called with.\<close>

fun itoa_loop :: "nat \<Rightarrow> string \<Rightarrow> string" where
  "itoa_loop n buf = (if n = 0 then buf else itoa_loop (n div 10) (char_of (48 + n mod 10) # buf))"

declare itoa_loop.simps [simp del]

definition itoa :: "nat \<Rightarrow> string" where
  "itoa n = (if n = 0 then ''0'' else itoa_loop n [])"

definition block_finding :: "string \<Rightarrow> Severity \<Rightarrow> string \<Rightarrow> string \<Rightarrow> string \<Rightarrow> Block \<Rightarrow> Finding" where
  "block_finding rid sev title desc sugg b = no_finding\<lparr>fRuleID := rid, fSeverity := sev, fTitle := title,
     fDescription := desc, fBlockID := bID (binfo b), fSubflowID := bSubflowID (binfo b), fSuggestion := sugg\<rparr>"

definition block_rule ::
    "string \<Rightarrow> Severity \<Rightarrow> string \<Rightarrow> (RuleContext \<Rightarrow> Block \<Rightarrow> Finding list) \<Rightarrow> Rule" where
  "block_rule rid sev cat check = \<lparr>ruID = rid, ruDefaultSeverity = sev, ruCategory = cat, ruCustom = False, ruAutoFix = [],
     ruKind = kindBlock, ruCheck = (\<lambda>ctx b. Some (check ctx b)), ruCheckFlow = (\<lambda>_. Some [])\<rparr>"

definition flow_rule :: "string \<Rightarrow> Severity \<Rightarrow> string \<Rightarrow> (RuleContext \<Rightarrow> Finding list) \<Rightarrow> Rule" where
  "flow_rule rid sev cat check = \<lparr>ruID = rid, ruDefaultSeverity = sev, ruCategory = cat, ruCustom = False, ruAutoFix = [],
     ruKind = kindFlow, ruCheck = (\<lambda>_ _. Some []), ruCheckFlow = (\<lambda>ctx. Some (check ctx))\<rparr>"

section \<open>Rules on one block\<close>

definition dead_code_finding :: "Block \<Rightarrow> Finding" where
  "dead_code_finding = block_finding ''dead-code'' SeverityInfo ''Unreachable code''
     ''This block follows an unconditional exit action and will never be executed.''
     ''Remove this unreachable code or move it before the exit action.''"

definition dead_code_check :: "RuleContext \<Rightarrow> Block \<Rightarrow> Finding list" where
  "dead_code_check ctx b =
     (let siblingKey = (case map_of (SiblingKey ctx) (bID (binfo b)) of None \<Rightarrow> [] | Some k \<Rightarrow> k) in
      case map_of (TerminatorIndex ctx) siblingKey of
        None \<Rightarrow> []
      | Some t \<Rightarrow>
          (case map_of (BlockIndex ctx) (bID (binfo b)) of
             None \<Rightarrow> [] | Some i \<Rightarrow> if i \<le> t then [] else [dead_code_finding b]))"

definition DeadCodeRule :: Rule where
  "DeadCodeRule = block_rule ''dead-code'' SeverityInfo ''Style'' dead_code_check"

definition SwitchNoDefaultRule :: Rule where
  "SwitchNoDefaultRule = block_rule ''switch-no-default'' SeverityWarning ''Logic'' (\<lambda>ctx b.
     if bType (binfo b) \<noteq> BlockTypeSwitch \<or> list_ex (\<lambda>c. bType (binfo c) = BlockTypeDefault) (Children b) then []
     else [block_finding ''switch-no-default'' SeverityWarning ''Switch without default case''
       ''This SWITCH block has no DEFAULT case, so unexpected values are silently ignored.''
       ''Add a DEFAULT case to handle unexpected values or log a warning.'' b])"

definition EmptyHandlerRule :: Rule where
  "EmptyHandlerRule = block_rule ''empty-handler'' SeverityWarning ''Reliability'' (\<lambda>ctx b.
     if bType (binfo b) \<noteq> BlockTypeErrorHandler \<or> list_ex not_end (Children b) then []
     else [block_finding ''empty-handler'' SeverityWarning ''Error handler is empty''
       ''This error handler has no actions inside it, so errors will be silently ignored.''
       ''Add error handling logic such as logging, retrying, or notifying the user.'' b])"

definition hasActionChildren :: "Block \<Rightarrow> bool" where
  "hasActionChildren b \<longleftrightarrow>
     list_ex (\<lambda>c. bType (binfo c) \<noteq> BlockTypeEnd \<and> bType (binfo c) \<noteq> BlockTypeComment) (Children b)"

definition branchLabel :: "BlockType \<Rightarrow> string" where
  "branchLabel t = (if t = BlockTypeElse then ''Else'' else if t = BlockTypeCase then ''Case''
     else if t = BlockTypeDefault then ''Default'' else BlockType_string t)"

definition blockTypeLabel :: "BlockType \<Rightarrow> string" where
  "blockTypeLabel t = (if t = BlockTypeCondition then ''If'' else if t = BlockTypeSwitch then ''Switch'' else BlockType_string t)"

definition EmptyBranchRule :: Rule where
  "EmptyBranchRule = block_rule ''empty-branch'' SeverityInfo ''Style'' (\<lambda>ctx b.
     if bType (binfo b) \<noteq> BlockTypeCondition \<and> bType (binfo b) \<noteq> BlockTypeSwitch then []
     else map (\<lambda>c. block_finding ''empty-branch'' SeverityInfo ''Empty condition branch''
         (''The '' @ branchLabel (bType (binfo c)) @ '' branch of this '' @ blockTypeLabel (bType (binfo b)) @ '' has no actions inside it.'')
         ''Add actions to this branch, remove it entirely, or add a comment explaining why it's intentionally empty.'' c)
       (filter (\<lambda>c. bType (binfo c) \<in> {BlockTypeElse, BlockTypeCase, BlockTypeDefault} \<and> \<not> hasActionChildren c) (Children b)))"

section \<open>Loops\<close>

text \<open>The descendants of a loop outside nested loops, in the order the walk visits them.\<close>

fun walkLoopBody :: "Block \<Rightarrow> Block list" where
  "walkLoopBody (Block b cs) =
     concat (map (\<lambda>c. c # (if bType (binfo c) \<noteq> BlockTypeLoop then walkLoopBody c else [])) cs)"

definition isExitLoopRawType :: "string \<Rightarrow> bool" where
  "isExitLoopRawType rawType \<longleftrightarrow>
     ToUpper (TrimSpace rawType) \<in> {''EXIT LOOP'', ''EXIT_LOOP'', ''EXITLOOP'', ''BREAK''}"

definition exits_loop :: "block_info \<Rightarrow> bool" where
  "exits_loop b \<longleftrightarrow> isExitLoop b \<or> isExitLoopRawType (bRawType b)"

text \<open>One visit of the fused walk: the flags \<open>condModified\<close> and \<open>exitFound\<close>.\<close>

definition visit_exit :: "string list \<Rightarrow> bool \<times> bool \<Rightarrow> Block \<Rightarrow> bool \<times> bool" where
  "visit_exit condVars st blk =
     (let (condModified, exitFound) = st; b = binfo blk;
          exitFound = (if \<not> exitFound \<and> exits_loop b then True else exitFound)
      in if condModified \<or> condVars = [] then (condModified, exitFound)
         else
           (let out = getprop (bProperties b) ''_output'' in
            if out = [] \<or> out \<notin> set condVars then (condModified, exitFound)
            else if bRawType b = ''Variables.IncreaseVariable'' \<or> bRawType b = ''Variables.DecreaseVariable'' then (True, exitFound)
            else
              (let val = getprop (bProperties b) ''_value''; wrapped = ''%'' @ out @ ''%'' in
               if Contains val wrapped \<and> TrimSpace val \<noteq> wrapped then (True, exitFound) else (condModified, exitFound))))"

definition hasExitCondition :: "Block \<Rightarrow> bool" where
  "hasExitCondition loop =
     (let (condModified, exitFound) = foldl (visit_exit (bVariables (binfo loop))) (False, False) (walkLoopBody loop)
      in condModified \<or> exitFound)"

definition infinite_loop_check :: "RuleContext \<Rightarrow> Block \<Rightarrow> Finding list" where
  "infinite_loop_check ctx b =
     (if bType (binfo b) \<noteq> BlockTypeLoop then []
      else if getprop (bProperties (binfo b)) ''_loopKind'' \<in> {''foreach'', ''counted''} then []
      else if hasExitCondition b then []
      else [(block_finding ''infinite-loop-risk'' SeverityError ''Loop may run forever''
        ''This loop has no recognizable exit condition such as Exit Loop, Break, or modifications to the loop variable.''
        ''Add an 'Exit loop' action or ensure the loop variable is modified to guarantee termination.'' b)
        \<lparr>fAutoFixHint := ''Add an IF block inside the loop that checks a counter or sentinel condition, then use 'Exit loop' to break out. Example: IF %LoopIndex% >= %MaxIterations% THEN Exit loop.''\<rparr>])"

definition InfiniteLoopRiskRule :: Rule where
  "InfiniteLoopRiskRule = block_rule ''infinite-loop-risk'' SeverityError ''Reliability'' infinite_loop_check"

section \<open>Labels\<close>

record labelIndex =
  byName :: "(string \<times> Block) list"
  labelCount :: "(string \<times> nat) list"

definition index_label :: "labelIndex \<Rightarrow> Block \<Rightarrow> labelIndex" where
  "index_label idx b =
     (if bRawType (binfo b) \<noteq> ''LABEL'' then idx
      else
        (let key = ToLower (bName (binfo b)) in
         \<lparr>byName = (if map_of (byName idx) key = None then AList.update key b (byName idx) else byName idx),
          labelCount = AList.update key (nat_at (labelCount idx) key + 1) (labelCount idx)\<rparr>))"

definition buildLabelIndex :: "RuleContext \<Rightarrow> labelIndex" where
  "buildLabelIndex ctx = foldl index_label \<lparr>byName = [], labelCount = []\<rparr> (walkBlocks (ctxFlow ctx))"

definition duplicate_label_check :: "RuleContext \<Rightarrow> Block \<Rightarrow> Finding list" where
  "duplicate_label_check ctx b =
     (if bRawType (binfo b) \<noteq> ''LABEL'' \<or> bName (binfo b) = [] then []
      else
        (let lower = ToLower (bName (binfo b)); idx = buildLabelIndex ctx; count = nat_at (labelCount idx) lower in
         if count \<le> 1 then []
         else if (case map_of (byName idx) lower of None \<Rightarrow> False | Some first \<Rightarrow> bID (binfo b) \<noteq> bID (binfo first)) then []
         else [(block_finding ''duplicate-label'' SeverityWarning ''Duplicate label''
           (''Label '' @ quoted (bName (binfo b)) @ '' is defined '' @ itoa count @ '' times. GOTO resolves to the first definition '' @ em_dash @ '' the others are unreachable targets.'')
           ''Rename the duplicate labels so each has a unique name.'' b)
           \<lparr>fMetadata := [(''label'', MetaString (bName (binfo b))), (''count'', MetaOther)]\<rparr>]))"

definition DuplicateLabelRule :: Rule where
  "DuplicateLabelRule = block_rule ''duplicate-label'' SeverityWarning ''Logic'' duplicate_label_check"

section \<open>Rules on one document\<close>

definition circular_check :: "RuleContext \<Rightarrow> Finding list" where
  "circular_check ctx =
     (let circular = CircularSubflows ctx in
      per_subflow (subflowAnchor ctx) (\<lambda>sf. sfID sf \<in> set circular)
        (\<lambda>sf anchor. no_finding\<lparr>fRuleID := ''circular-subflow-dependency'', fSeverity := SeverityError,
           fTitle := ''Circular subflow dependency'',
           fDescription := ''Subflow '' @ quoted (sfName sf) @ '' is part of a circular call chain. This will cause infinite recursion at runtime.'',
           fBlockID := bID (binfo anchor), fSubflowID := sfID sf,
           fSuggestion := ''Break the cycle by removing one call in the chain or by introducing a termination condition.'',
           fMetadata := [(''subflow'', MetaString (sfName sf))]\<rparr>)
        (Subflows (ctxFlow ctx)))"

definition CircularSubflowRule :: Rule where
  "CircularSubflowRule = flow_rule ''circular-subflow-dependency'' SeverityError ''Logic'' circular_check"

definition defaultMaxCyclomatic :: nat where
  "defaultMaxCyclomatic = 20"

definition HighCyclomaticComplexityRule :: Rule where
  "HighCyclomaticComplexityRule = flow_rule ''high-cyclomatic-complexity'' SeverityWarning ''Style'' (\<lambda>ctx.
     per_subflow (subflowAnchor ctx) (\<lambda>sf. nat_at (SubflowCyclo ctx) (sfID sf) > defaultMaxCyclomatic)
       (\<lambda>sf anchor. no_finding\<lparr>fRuleID := ''high-cyclomatic-complexity'', fSeverity := SeverityWarning,
          fTitle := ''High cyclomatic complexity'',
          fDescription := ''Subflow '' @ quoted (sfName sf) @ '' has a cyclomatic complexity of '' @ itoa (nat_at (SubflowCyclo ctx) (sfID sf))
            @ '' (threshold: '' @ itoa defaultMaxCyclomatic @ ''), indicating excessive branching that is hard to test and maintain.'',
          fBlockID := bID (binfo anchor), fSubflowID := sfID sf,
          fSuggestion := ''Split this subflow into smaller subflows, reduce nesting, or extract complex conditions into helper subflows.'',
          fMetadata := [(''complexity'', MetaOther), (''threshold'', MetaOther)]\<rparr>)
       (Subflows (ctxFlow ctx)))"

definition DuplicateSubflowNameRule :: Rule where
  "DuplicateSubflowNameRule = flow_rule ''duplicate-subflow-name'' SeverityError ''Logic'' (\<lambda>ctx.
     per_subflow (subflowAnchor ctx) (\<lambda>sf. sfName sf \<in> set (DuplicateSubflowNames ctx))
       (\<lambda>sf anchor. no_finding\<lparr>fRuleID := ''duplicate-subflow-name'', fSeverity := SeverityError,
          fTitle := ''Duplicate subflow name'',
          fDescription := ''Subflow '' @ quoted (sfName sf) @ '' shares its name with at least one other subflow. Only the first is used when CALL resolves by name ''
            @ em_dash @ '' the others are silently unreachable.'',
          fBlockID := bID (binfo anchor), fSubflowID := sfID sf,
          fSuggestion := ''Rename one of the duplicate subflows so each has a unique name.'',
          fMetadata := [(''subflow'', MetaString (sfName sf))]\<rparr>)
       (Subflows (ctxFlow ctx)))"

definition countActionableBlocks :: "Block list \<Rightarrow> nat" where
  "countActionableBlocks bs =
     length (filter (\<lambda>b. bType (binfo b) \<noteq> BlockTypeComment \<and> bType (binfo b) \<noteq> BlockTypeEnd) (forest_blocks bs))"

definition EmptySubflowRule :: Rule where
  "EmptySubflowRule = flow_rule ''empty-subflow'' SeverityInfo ''Style'' (\<lambda>ctx.
     per_subflow (subflowAnchor ctx) (\<lambda>sf. countActionableBlocks (sfBlocks sf) = 0)
       (\<lambda>sf anchor. no_finding\<lparr>fRuleID := ''empty-subflow'', fSeverity := SeverityInfo, fTitle := ''Empty subflow'',
          fDescription := ''Subflow '' @ quoted (sfName sf) @ '' contains no actionable blocks.'',
          fBlockID := bID (binfo anchor), fSubflowID := sfID sf,
          fSuggestion := ''Remove the empty subflow or add actions to it.'',
          fMetadata := [(''subflow'', MetaString (sfName sf))]\<rparr>)
       (Subflows (ctxFlow ctx)))"

text \<open>\<open>threshold\<close>: what \<open>ruleOption\<close> reads from the settings, 50 by default.\<close>

fun countAllBlocks :: "Block list \<Rightarrow> nat" where
  "countAllBlocks [] = 0"
| "countAllBlocks (Block b cs # bs) =
     (if bType b = BlockTypeEnd \<or> bType b = BlockTypeComment then countAllBlocks bs
      else 1 + countAllBlocks cs + countAllBlocks bs)"

definition LargeSubflowRule :: "nat \<Rightarrow> Rule" where
  "LargeSubflowRule threshold = flow_rule ''large-subflow'' SeverityInfo ''Style'' (\<lambda>ctx.
     per_subflow (\<lambda>sf. case actionableAnchor ctx sf of None \<Rightarrow> None | Some b \<Rightarrow> if bParentID (binfo b) \<noteq> [] then None else Some b)
       (\<lambda>sf. countAllBlocks (sfBlocks sf) > threshold)
       (\<lambda>sf anchor. no_finding\<lparr>fRuleID := ''large-subflow'', fSeverity := SeverityInfo, fTitle := ''Large subflow'',
          fDescription := ''Subflow '' @ quoted (sfName sf) @ '' has '' @ decimal (countAllBlocks (sfBlocks sf)) @ '' blocks (threshold: ''
            @ decimal threshold @ '').'',
          fBlockID := bID (binfo anchor), fSubflowID := sfID sf,
          fSuggestion := ''Break the subflow into smaller, focused subflows that each handle a single responsibility.''\<rparr>)
       (Subflows (ctxFlow ctx)))"

section \<open>What the rules find\<close>

lemma itoa_decimal: "itoa n = decimal n"
proof -
  have loop: "0 < n \<Longrightarrow> itoa_loop n buf = decimal n @ buf" for n buf
  proof (induction n buf rule: itoa_loop.induct)
    case (1 n buf)
    show ?case
    proof (cases "n < 10")
      case True
      then show ?thesis using 1 by (simp add: itoa_loop.simps [of n] itoa_loop.simps [of 0] decimal.simps [of n])
    next
      case False
      then have "0 < n div 10" by simp
      with 1 False show ?thesis by (simp add: itoa_loop.simps [of n] decimal.simps [of n])
    qed
  qed
  have "decimal 0 = ''0''" by code_simp
  with loop show ?thesis by (simp add: itoa_def)
qed

lemma SubflowByID_context:
  assumes "distinct (map sfID (Subflows flow))" "sf \<in> set (Subflows flow)"
  shows "map_of (SubflowByID (buildContext flow)) (sfID sf) = Some sf"
proof -
  have "SubflowByID (foldl context_subflow ctx sfs) = updates (SubflowByID ctx) (map (\<lambda>sf. (sfID sf, sf)) sfs)" for ctx sfs
    by (induction sfs arbitrary: ctx) (simp_all add: context_subflow_def Let_def collect_frame)
  then have "SubflowByID (buildContext flow) = updates [] (map (\<lambda>sf. (sfID sf, sf)) (Subflows flow))"
    by (simp add: buildContext_def Let_def empty_context_def)
  moreover have "map_of (map (\<lambda>sf. (sfID sf, sf)) (Subflows flow)) (sfID sf) = Some sf"
    using assms by (intro map_of_is_SomeI) (auto simp: comp_def)
  ultimately show ?thesis using assms(1) by (simp add: map_of_updates comp_def)
qed

lemma per_subflow_filter:
  assumes "\<And>sf. sf \<in> set sfs \<Longrightarrow> flagged sf \<Longrightarrow> anchor sf = (if has sf then Some (f sf) else None)"
  shows "per_subflow anchor flagged mk sfs = map (\<lambda>sf. mk sf (f sf)) (filter (\<lambda>sf. flagged sf \<and> has sf) sfs)"
  using assms unfolding per_subflow_def by (induction sfs) auto

lemma foldl_visit_exit:
  "foldl (visit_exit condVars) (m, e) bs =
     (m \<or> list_ex (\<lambda>b. visit_exit condVars (False, False) b = (True, exits_loop (binfo b))) bs,
      e \<or> list_ex (\<lambda>b. exits_loop (binfo b)) bs)"
proof (induction bs arbitrary: m e)
  case (Cons b bs)
  have "visit_exit condVars (m, e) b =
      (m \<or> visit_exit condVars (False, False) b = (True, exits_loop (binfo b)), e \<or> exits_loop (binfo b))"
    by (auto simp: visit_exit_def Let_def)
  then show ?case using Cons.IH by (auto simp: disj_assoc)
qed simp

text \<open>A write that moves a variable of the loop's condition: an increment or decrement action, or an
  assignment that mentions the variable and something else.\<close>

definition progresses :: "string list \<Rightarrow> block_info \<Rightarrow> bool" where
  "progresses condVars b \<longleftrightarrow>
     (let out = getprop (bProperties b) ''_output''; val = getprop (bProperties b) ''_value'';
          wrapped = ''%'' @ out @ ''%'' in
      out \<noteq> [] \<and> out \<in> set condVars \<and>
      (bRawType b \<in> {''Variables.IncreaseVariable'', ''Variables.DecreaseVariable''} \<or>
       Contains val wrapped \<and> TrimSpace val \<noteq> wrapped))"

lemma visit_exit_progresses:
  "visit_exit condVars (False, False) b = (True, exits_loop (binfo b)) \<longleftrightarrow> progresses condVars (binfo b)"
  by (auto simp: visit_exit_def progresses_def Let_def)

section \<open>Properties\<close>

text \<open>
  dead code is what follows an exit. In a document with distinct, non-empty identifiers, the rule
  flags a block exactly when an earlier block of its own sibling group is an unconditional exit.
\<close>

theorem dead_code_exact:
  assumes "doc_ids_ok flow" "g \<in> set (doc_groups flow)" "i < length (group_ptrs g)"
  shows "ruCheck DeadCodeRule (buildContext flow) (group_ptrs g ! i) =
    Some (if \<exists>j < i. isTerminator (binfo (group_ptrs g ! j)) then [dead_code_finding (group_ptrs g ! i)] else [])"
proof -
  have "(\<exists>j < i. isTerminator (binfo (group_ptrs g ! j))) \<longleftrightarrow>
      (case first_terminator (group_ptrs g) of None \<Rightarrow> False | Some t \<Rightarrow> t < i)"
    using first_terminator_iff [where ptrs = "group_ptrs g" and i = i] assms(3) by (simp add: min_absorb1)
  then show ?thesis
    using context_at [OF assms]
    by (simp add: DeadCodeRule_def block_rule_def dead_code_check_def Let_def not_le split: option.split)
qed

definition exit_flow :: FlowDocument where
  "exit_flow = (suppress_sample [])\<lparr>Subflows := [\<lparr>sfID = ''m'', sfName = ''Main'', sfSourceFile = [],
     sfBlocks = [call_block ''EXIT'' ''leave'', call_block ''CALL'' ''Call Main''], sfVariables = []\<rparr>]\<rparr>"

theorem dead_code_exact_witness:
  "ruCheck DeadCodeRule (buildContext exit_flow) (call_block ''CALL'' ''Call Main'') =
     Some [dead_code_finding (call_block ''CALL'' ''Call Main'')]"
proof -
  let ?g = "([], ''m'', 0, [call_block ''EXIT'' ''leave'', call_block ''CALL'' ''Call Main''])"
  have ok: "doc_ids_ok exit_flow" by code_simp
  have g: "?g \<in> set (doc_groups exit_flow)" by (simp add: exit_flow_def doc_groups_def subflow_groups_def)
  have ptrs: "group_ptrs ?g = [call_block ''EXIT'' ''leave'', call_block ''CALL'' ''Call Main'']"
    by (simp add: call_block_def not_end_def)
  have t: "isTerminator (binfo (call_block ''EXIT'' ''leave''))" by code_simp
  have "\<exists>j < 1. isTerminator (binfo (group_ptrs ?g ! j))" unfolding ptrs using t by auto
  with dead_code_exact [OF ok g, of 1] show ?thesis unfolding ptrs by simp
qed

text \<open>
  the circular-dependency rule flags exactly the subflows on a call cycle. In a document with
  distinct identifiers whose blocks name their subflow, its findings are, in document order, one for
  every subflow that can reach itself through calls and that starts with a block other than END.
\<close>

theorem circular_rule_exact:
  assumes "distinct (map sfID (Subflows flow))"
    and "list_all (\<lambda>sf. list_all (\<lambda>b. bSubflowID (binfo b) = sfID sf) (sfBlocks sf)) (Subflows flow)"
  shows "map_option (map (\<lambda>f. (fSubflowID f, fBlockID f))) (ruCheckFlow CircularSubflowRule (buildContext flow)) =
    Some (map (\<lambda>sf. (sfID sf, bID (binfo (hd (sfBlocks sf)))))
      (filter (\<lambda>sf. (sfID sf, sfID sf) \<in> (call_edges (buildCallGraph flow))\<^sup>+ \<and>
         sfBlocks sf \<noteq> [] \<and> not_end (hd (sfBlocks sf))) (Subflows flow)))"
proof -
  let ?ctx = "buildContext flow"
  have circ: "set (CircularSubflows ?ctx) = {v \<in> sfID ` set (Subflows flow). (v, v) \<in> (call_edges (buildCallGraph flow))\<^sup>+}"
    by (rule subflow_graph [of ?ctx]) (auto simp: CircularSubflows_def once_def)
  have anchor: "subflowAnchor ?ctx sf =
      (if sfBlocks sf \<noteq> [] \<and> not_end (hd (sfBlocks sf)) then Some (hd (sfBlocks sf)) else None)"
    if "sf \<in> set (Subflows flow)" for sf
    using that assms(2) SubflowByID_context [OF assms(1) that]
    by (cases "sfBlocks sf") (auto simp: subflowAnchor_def ownAnchor_def not_end_def list_all_iff)
  show ?thesis
    unfolding CircularSubflowRule_def flow_rule_def circular_check_def Let_def
    by (simp add: circ per_subflow_filter [where f = "\<lambda>sf. hd (sfBlocks sf)", OF anchor] comp_def cong: filter_cong)
qed

definition call_in :: "string \<Rightarrow> string \<Rightarrow> string \<Rightarrow> Block" where
  "call_in sf i name = Block ((binfo (call_block ''CALL'' name))\<lparr>bID := i, bSubflowID := sf\<rparr>) []"

definition called_flow :: FlowDocument where
  "called_flow = (suppress_sample [])\<lparr>Subflows := [
     \<lparr>sfID = ''m'', sfName = ''Main'', sfSourceFile = [], sfBlocks = [call_in ''m'' ''x'' ''Call Sub''], sfVariables = []\<rparr>,
     \<lparr>sfID = ''s'', sfName = ''Sub'', sfSourceFile = [], sfBlocks = [call_in ''s'' ''y'' ''Call Main''], sfVariables = []\<rparr>]\<rparr>"

theorem circular_rule_exact_witness:
  "map_option (map (\<lambda>f. (fSubflowID f, fBlockID f))) (ruCheckFlow CircularSubflowRule (buildContext called_flow)) =
     Some [(''m'', ''x''), (''s'', ''y'')] \<and> (''m'', ''m'') \<in> (call_edges (buildCallGraph called_flow))\<^sup>+"
proof -
  have 1: "distinct (map sfID (Subflows called_flow))"
    "list_all (\<lambda>sf. list_all (\<lambda>b. bSubflowID (binfo b) = sfID sf) (sfBlocks sf)) (Subflows called_flow)" by code_simp+
  have 2: "map_option (map (\<lambda>f. (fSubflowID f, fBlockID f))) (ruCheckFlow CircularSubflowRule (buildContext called_flow)) =
     Some [(''m'', ''x''), (''s'', ''y'')]" by code_simp
  define E where "E = (call_edges (buildCallGraph called_flow))\<^sup>+"
  have "map (\<lambda>sf. (sfID sf, bID (binfo (hd (sfBlocks sf))))) (filter (\<lambda>sf. (sfID sf, sfID sf) \<in> E \<and>
      sfBlocks sf \<noteq> [] \<and> not_end (hd (sfBlocks sf))) (Subflows called_flow)) = [(''m'', ''x''), (''s'', ''y'')]"
    using circular_rule_exact [OF 1] 2 unfolding E_def by simp
  then have "(''m'', ''m'') \<in> E" by (simp add: called_flow_def call_in_def split: if_splits)
  with 2 show ?thesis by (simp add: E_def)
qed

text \<open>
  a loop counts as bounded exactly when its own body, nested loops left out, has an exit statement
  or a write that moves a variable of the loop's condition.
\<close>

theorem infinite_loop_exact:
  "infinite_loop_check ctx b \<noteq> [] \<longleftrightarrow>
     bType (binfo b) = BlockTypeLoop \<and> getprop (bProperties (binfo b)) ''_loopKind'' \<notin> {''foreach'', ''counted''} \<and>
     \<not> list_ex (\<lambda>c. exits_loop (binfo c) \<or> progresses (bVariables (binfo b)) (binfo c)) (walkLoopBody b)"
proof -
  have "hasExitCondition b \<longleftrightarrow> list_ex (\<lambda>c. exits_loop (binfo c) \<or> progresses (bVariables (binfo b)) (binfo c)) (walkLoopBody b)"
    unfolding hasExitCondition_def foldl_visit_exit visit_exit_progresses by (auto simp: list_ex_iff)
  then show ?thesis by (simp add: infinite_loop_check_def)
qed

text \<open>The labels of a document with a given lower-cased name, in document order.\<close>

definition labels :: "FlowDocument \<Rightarrow> string \<Rightarrow> Block list" where
  "labels flow key = filter (\<lambda>b. bRawType (binfo b) = ''LABEL'' \<and> ToLower (bName (binfo b)) = key) (walkBlocks flow)"

lemma label_index:
  "map_of (byName (foldl index_label idx bs)) key =
     (case map_of (byName idx) key of
        Some b \<Rightarrow> Some b
      | None \<Rightarrow> find (\<lambda>b. bRawType (binfo b) = ''LABEL'' \<and> ToLower (bName (binfo b)) = key) bs)"
  "nat_at (labelCount (foldl index_label idx bs)) key = nat_at (labelCount idx) key +
     length (filter (\<lambda>b. bRawType (binfo b) = ''LABEL'' \<and> ToLower (bName (binfo b)) = key) bs)"
proof (induction bs arbitrary: idx)
  case (Cons b bs)
  have step: "map_of (byName (index_label idx b)) key =
      (case map_of (byName idx) key of Some c \<Rightarrow> Some c
       | None \<Rightarrow> if bRawType (binfo b) = ''LABEL'' \<and> ToLower (bName (binfo b)) = key then Some b else None)" for idx
    by (auto simp: index_label_def Let_def AList.update_conv' split: option.split)
  have count: "nat_at (labelCount (index_label idx b)) key = nat_at (labelCount idx) key +
      (if bRawType (binfo b) = ''LABEL'' \<and> ToLower (bName (binfo b)) = key then 1 else 0)" for idx
    by (auto simp: index_label_def Let_def AList.update_conv' nat_at_def)
  {
    case 1
    show ?case unfolding foldl.simps Cons.IH(1) step by (cases "map_of (byName idx) key") auto
  next
    case 2
    show ?case unfolding foldl.simps Cons.IH(2) count by auto
  }
qed (auto split: option.split)

lemma find_filter: "find P xs = (case filter P xs of [] \<Rightarrow> None | x # _ \<Rightarrow> Some x)"
  by (induction xs) auto

text \<open>
  a repeated label is reported once, where GOTO resolves to. In a document with distinct
  identifiers the rule flags a block exactly when it is the first of at least two labels with its
  name, upper and lower case not distinguished.
\<close>

theorem duplicate_label_exact:
  assumes "doc_ids_ok flow" "b \<in> set (walkBlocks flow)"
  shows "duplicate_label_check (buildContext flow) b \<noteq> [] \<longleftrightarrow>
    bRawType (binfo b) = ''LABEL'' \<and> bName (binfo b) \<noteq> [] \<and>
    (let same = labels flow (ToLower (bName (binfo b))) in length same \<ge> 2 \<and> hd same = b)"
proof (cases "bRawType (binfo b) = ''LABEL'' \<and> bName (binfo b) \<noteq> []")
  case True
  let ?key = "ToLower (bName (binfo b))"
  let ?idx = "buildLabelIndex (buildContext flow)"
  have count: "nat_at (labelCount ?idx) ?key = length (labels flow ?key)"
    by (simp add: buildLabelIndex_def label_index(2) labels_def) (simp add: nat_at_def)
  have "b \<in> set (labels flow ?key)" using True assms(2) by (simp add: labels_def)
  then obtain first rest where same: "labels flow ?key = first # rest" by (cases "labels flow ?key") auto
  have first: "map_of (byName ?idx) ?key = Some first"
    using same by (simp add: buildLabelIndex_def label_index labels_def find_filter)
  have "first \<in> set (labels flow ?key)" using same by simp
  then have "first \<in> set (walkBlocks flow)" by (simp add: labels_def)
  moreover have "inj_on (bID \<circ> binfo) (set (walkBlocks flow))"
    using assms(1) by (simp add: doc_ids_ok_def block_ids_def distinct_map)
  ultimately have "bID (binfo b) = bID (binfo first) \<longleftrightarrow> first = b" using assms(2) by (auto simp: inj_on_def)
  with True count first same show ?thesis by (auto simp: duplicate_label_check_def Let_def Suc_le_eq)
qed (auto simp: duplicate_label_check_def)

definition label_at :: "string \<Rightarrow> string \<Rightarrow> Block" where
  "label_at i name = Block ((binfo (call_block ''LABEL'' name))\<lparr>bID := i\<rparr>) []"

definition label_flow :: FlowDocument where
  "label_flow = (suppress_sample [])\<lparr>Subflows := [\<lparr>sfID = ''m'', sfName = ''Main'', sfSourceFile = [],
     sfBlocks = [label_at ''x'' ''Again'', label_at ''y'' ''again''], sfVariables = []\<rparr>]\<rparr>"

theorem duplicate_label_exact_witness:
  "duplicate_label_check (buildContext label_flow) (label_at ''x'' ''Again'') \<noteq> [] \<and>
   duplicate_label_check (buildContext label_flow) (label_at ''y'' ''again'') = []"
proof -
  have ok: "doc_ids_ok label_flow" by code_simp
  have mem: "label_at ''x'' ''Again'' \<in> set (walkBlocks label_flow)" "label_at ''y'' ''again'' \<in> set (walkBlocks label_flow)"
    by (simp_all add: label_flow_def walkBlocks_def doc_blocks_def label_at_def)
  have same: "labels label_flow (ToLower ''Again'') = [label_at ''x'' ''Again'', label_at ''y'' ''again'']"
    "labels label_flow (ToLower ''again'') = [label_at ''x'' ''Again'', label_at ''y'' ''again'']"
    by code_simp+
  have raw: "bRawType (binfo (label_at i n)) = ''LABEL''" "bName (binfo (label_at i n)) = n" for i n
    by (simp_all add: label_at_def call_block_def)
  have "label_at ''x'' ''Again'' \<noteq> label_at ''y'' ''again''" by (simp add: label_at_def call_block_def)
  then show ?thesis
    using duplicate_label_exact [OF ok mem(1)] duplicate_label_exact [OF ok mem(2)]
    unfolding Let_def raw same by simp
qed

end
