(* ===== verification/Patches.thy ===== *)
theory Patches
  imports Engine "HOL-Library.List_Lexorder" "HOL-Library.Char_ord"
begin

text \<open>
  models/patch.go, core/analyzer/autofix.go and fix_dispatch.go: line-based edits of a source text and
  the builders of the registered fixes. Positions are Go ints, so an operation may name any line; an
  operation whose target does not exist is skipped and counted (\<open>patchOutOfRangeOps\<close>), and every
  function that can skip returns the number of skipped operations. \<open>sort.Slice\<close> is the argument
  \<open>sorter\<close>, which orders operations by decreasing key and may place equal keys in any order.
\<close>

section \<open>Operations\<close>

record PatchOp =
  poKind :: string
  poBeforeLine :: int
  poLines :: "string list"
  poStartLine :: int
  poEndLine :: int
  poHeader :: string
  poFooter :: string
  poIndentDelta :: int
  poOld :: string
  poNew :: string
  poProperty :: string

type_synonym Patch = "PatchOp list"

type_synonym op_sorter = "(PatchOp \<Rightarrow> int) \<Rightarrow> PatchOp list \<Rightarrow> PatchOp list"

definition patch_op :: "string \<Rightarrow> PatchOp" where
  "patch_op kind = \<lparr>poKind = kind, poBeforeLine = 0, poLines = [], poStartLine = 0, poEndLine = 0, poHeader = [],
     poFooter = [], poIndentDelta = 0, poOld = [], poNew = [], poProperty = []\<rparr>"

definition in_lines :: "int \<Rightarrow> string list \<Rightarrow> bool" where
  "in_lines n lines \<longleftrightarrow> 1 \<le> n \<and> n \<le> int (length lines)"

definition applyWrap :: "string list \<Rightarrow> PatchOp \<Rightarrow> string list \<times> nat" where
  "applyWrap lines op =
     (if \<not> in_lines (poStartLine op) lines then (lines, 1)
      else
        (let start = nat (poStartLine op - 1);
             stop = min (max (nat (poEndLine op)) start) (length lines);
             pad = concat (replicate (nat (poIndentDelta op)) ''    '');
             wrapped = drop start (take stop lines);
             reindented = (if poHeader op \<noteq> [] then SplitByte (poHeader op) nl else [])
               @ map (\<lambda>l. pad @ l) wrapped
               @ (if poFooter op \<noteq> [] then SplitByte (poFooter op) nl else [])
         in (take start lines @ reindented @ drop stop lines, 0)))"

definition applyRemove :: "string list \<Rightarrow> PatchOp \<Rightarrow> string list \<times> nat" where
  "applyRemove lines op =
     (if \<not> in_lines (poStartLine op) lines then (lines, 1)
      else
        (let start = nat (poStartLine op - 1); stop = min (max (nat (poEndLine op)) start) (length lines)
         in (take start lines @ drop stop lines, 0)))"

text \<open>The key search: the first occurrence of \<open>property:\<close> at or after \<open>i\<close> that starts a word.\<close>

function property_key :: "string \<Rightarrow> string \<Rightarrow> nat \<Rightarrow> nat option" where
  "property_key line property i =
     (case Index (drop i line) (property @ '':'') of
        None \<Rightarrow> None
      | Some j \<Rightarrow>
          (let at = i + j in
           if at = 0 \<or> line ! (at - 1) = sp \<or> line ! (at - 1) = tab then Some at
           else property_key line property (at + 1)))"
  by pat_completeness auto
termination
  by (relation "measure (\<lambda>(line, _, i). length line - i)") (auto dest!: Index_bound)

declare property_key.simps [simp del]

definition replaceInProperty :: "string \<Rightarrow> string \<Rightarrow> string \<Rightarrow> string \<Rightarrow> string" where
  "replaceInProperty line property old replacement =
     (case property_key line property 0 of
        None \<Rightarrow> line
      | Some keyAt \<Rightarrow>
          (let valueFrom = keyAt + length property + 1 in
           case Index (drop valueFrom line) old of
             None \<Rightarrow> line
           | Some rel \<Rightarrow>
               (let at = valueFrom + rel in take at line @ replacement @ drop (at + length old) line)))"

definition applyReplace :: "string list \<Rightarrow> PatchOp \<Rightarrow> string list \<times> nat" where
  "applyReplace lines op =
     (if \<not> in_lines (poStartLine op) lines then (lines, 1)
      else
        (let idx = nat (poStartLine op - 1); old = takeWhile (\<lambda>c. c \<noteq> nl) (poOld op) in
         if old = [] then (lines, 0)
         else if poProperty op \<noteq> [] then
           (lines[idx := replaceInProperty (lines ! idx) (poProperty op) old (poNew op)], 0)
         else (lines[idx := ReplaceAll (lines ! idx) old (poNew op)], 0)))"

definition applyAppend :: "string list \<Rightarrow> PatchOp \<Rightarrow> string list \<times> nat" where
  "applyAppend lines op =
     (if \<not> in_lines (poStartLine op) lines then (lines, 1)
      else
        (let idx = nat (poStartLine op - 1) in
         case poLines op of [] \<Rightarrow> (lines, 0) | l # _ \<Rightarrow> (lines[idx := lines ! idx @ l], 0)))"

definition applyInsert :: "string list \<Rightarrow> PatchOp \<Rightarrow> string list \<times> nat" where
  "applyInsert lines op =
     (if poBeforeLine op < 1 \<or> poBeforeLine op > int (length lines) + 1 then (lines, 1)
      else (let idx = nat (poBeforeLine op - 1) in (take idx lines @ poLines op @ drop idx lines, 0)))"

text \<open>One pass over the operations of a kind, adding up what is skipped.\<close>

definition run_ops :: "(string list \<Rightarrow> PatchOp \<Rightarrow> string list \<times> nat) \<Rightarrow> PatchOp list \<Rightarrow> string list \<times> nat \<Rightarrow> string list \<times> nat" where
  "run_ops f ops st = foldl (\<lambda>(lines, n) op. case f lines op of (lines', k) \<Rightarrow> (lines', n + k)) st ops"

definition of_kind :: "string \<Rightarrow> Patch \<Rightarrow> PatchOp list" where
  "of_kind k p = filter (\<lambda>op. poKind op = k) p"

definition patch_lines :: "op_sorter \<Rightarrow> Patch \<Rightarrow> string list \<Rightarrow> string list \<times> nat" where
  "patch_lines sorter p lines =
     run_ops applyInsert (sorter poBeforeLine (of_kind ''insert'' p))
       (run_ops applyAppend (of_kind ''append'' p)
         (run_ops applyReplace (of_kind ''replace'' p)
           (run_ops applyWrap (of_kind ''wrap'' p)
             (run_ops applyRemove (sorter poStartLine (of_kind ''remove'' p)) (lines, 0)))))"

definition ApplyPatch :: "op_sorter \<Rightarrow> string \<Rightarrow> Patch \<Rightarrow> string \<times> nat" where
  "ApplyPatch sorter source p =
     (if p = [] then (source, 0)
      else
        (let crlf = Contains source [cr, nl];
             raw = (if crlf then ReplaceAll source [cr, nl] [nl] else source)
         in case patch_lines sorter p (SplitByte raw nl) of (lines, skipped) \<Rightarrow>
           (let out = Join lines [nl] in (if crlf then ReplaceAll out [nl] [cr, nl] else out, skipped))))"

section \<open>Builders\<close>

definition indentCols :: "block_info \<Rightarrow> string" where
  "indentCols b = replicate (bIndent b) sp"

definition indentColsDeeper :: "block_info \<Rightarrow> nat \<Rightarrow> string" where
  "indentColsDeeper b n = replicate (bIndent b + 4 * n) sp"

fun blockEndLine :: "Block \<Rightarrow> nat" where
  "blockEndLine (Block b cs) =
     foldl (\<lambda>e c. let k = blockEndLine c in if k > e then k else e)
       (if bEndLineNumber b > bLineNumber b then bEndLineNumber b else bLineNumber b) cs"

definition insert_before :: "nat \<Rightarrow> string list \<Rightarrow> PatchOp" where
  "insert_before n ls = (patch_op ''insert'')\<lparr>poBeforeLine := int n, poLines := ls\<rparr>"

definition append_to :: "nat \<Rightarrow> string \<Rightarrow> PatchOp" where
  "append_to n s = (patch_op ''append'')\<lparr>poStartLine := int n, poLines := [s]\<rparr>"

definition replace_on :: "nat \<Rightarrow> string \<Rightarrow> string \<Rightarrow> PatchOp" where
  "replace_on n old new = (patch_op ''replace'')\<lparr>poStartLine := int n, poOld := old, poNew := new\<rparr>"

definition SuppressFindingPatch :: "Block \<Rightarrow> string \<Rightarrow> Patch" where
  "SuppressFindingPatch blk ruleID =
     (let directive = (if ruleID \<noteq> [] then ''# pad-ignore['' @ ruleID @ '']'' else ''# pad-ignore'')
      in [insert_before (bLineNumber (binfo blk)) [indentCols (binfo blk) @ directive]])"

definition WrapInErrorHandlerPatch :: "Block \<Rightarrow> Patch" where
  "WrapInErrorHandlerPatch blk =
     (let indent = indentCols (binfo blk) in
      [(patch_op ''wrap'')\<lparr>poStartLine := int (bLineNumber (binfo blk)), poEndLine := int (blockEndLine blk),
         poHeader := indent @ ''ON BLOCK ERROR'', poFooter := indent @ ''END'', poIndentDelta := 1\<rparr>])"

record resourcePair =
  openPrefix :: string
  closePrefix :: string
  closeAction :: string
  pairLabel :: string

definition resourcePairs :: "resourcePair list" where
  "resourcePairs = map (\<lambda>(a, b, c, d). \<lparr>openPrefix = a, closePrefix = b, closeAction = c, pairLabel = d\<rparr>) [
     (''File.OpenTextFile'', ''File.CloseTextFile'', [], ''file''),
     (''Database.Connect'', ''Database.Close'', [], ''database connection''),
     (''Database.Open'', ''Database.Close'', [], ''database connection''),
     (''FTP.Open'', ''FTP.CloseConnection'', [], ''FTP connection''),
     (''Excel.LaunchExcel'', ''Excel.Close'', [], ''Excel instance''),
     (''Excel.AttachToRunningExcel'', ''Excel.Close'', [], ''Excel instance''),
     (''Outlook.Launch'', ''Outlook.Close'', [], ''Outlook instance''),
     (''SAP.Login'', ''SAP.Logout'', [], ''SAP session''),
     (''WebAutomation.Launch'', ''WebAutomation.Close'', ''WebAutomation.CloseWebBrowser'', ''web browser instance'')]"

definition matchResourcePair :: "string \<Rightarrow> resourcePair option" where
  "matchResourcePair rawType = find (\<lambda>p. hasPrefixFold rawType (openPrefix p)) resourcePairs"

definition closeActionName :: "resourcePair \<Rightarrow> string" where
  "closeActionName p = (if closeAction p \<noteq> [] then closeAction p else closePrefix p)"

definition InsertClosePatch :: "Block \<Rightarrow> Patch" where
  "InsertClosePatch blk =
     (case matchResourcePair (bRawType (binfo blk)) of
        None \<Rightarrow> []
      | Some pair \<Rightarrow>
          (let out = getprop (bProperties (binfo blk)) ''_output'';
               out = (if out = [] then getprop (bProperties (binfo blk)) ''output'' else out)
           in if out = [] then []
              else [insert_before (blockEndLine blk + 1)
                      [indentCols (binfo blk) @ closeActionName pair @ '' Handle: %'' @ out @ ''%'']]))"

definition defaultTimeoutSeconds :: string where
  "defaultTimeoutSeconds = ''30''"

definition SetTimeoutPatch :: "Block \<Rightarrow> Patch" where
  "SetTimeoutPatch blk = [append_to (blockEndLine blk) ('' Timeout: '' @ defaultTimeoutSeconds)]"

definition InsertDelayPatch :: "Block \<Rightarrow> Patch" where
  "InsertDelayPatch blk = [insert_before (bLineNumber (binfo blk)) [indentCols (binfo blk) @ ''WAIT 1'']]"

definition first_child_line :: "Block \<Rightarrow> nat" where
  "first_child_line blk = (let n = bLineNumber (binfo (hd (Children blk))) in if n = 0 then bLineNumber (binfo blk) + 1 else n)"

definition InsertDelayInLoopPatch :: "Block \<Rightarrow> Patch" where
  "InsertDelayInLoopPatch blk =
     (if Children blk = [] then InsertDelayPatch blk
      else [insert_before (first_child_line blk) [indentColsDeeper (binfo blk) 1 @ ''WAIT 1'']])"

definition InsertHandlerLogPatch :: "Block \<Rightarrow> Patch" where
  "InsertHandlerLogPatch blk = [insert_before (blockEndLine blk)
     [indentColsDeeper (binfo blk) 1 @ ''Display.ShowMessageBox Message: '' @ [quote] @ ''Error occurred'' @ [quote]]]"

definition InsertVariableInitPatch :: "Block \<Rightarrow> string \<Rightarrow> Patch" where
  "InsertVariableInitPatch blk var =
     (if var = [] then []
      else [insert_before (bLineNumber (binfo blk)) [indentCols (binfo blk) @ ''SET '' @ var @ '' TO '' @ [dquote, dquote]]])"

definition InsertErrorLogPatch :: "Block \<Rightarrow> Patch" where
  "InsertErrorLogPatch blk = [insert_before (blockEndLine blk)
     [indentColsDeeper (binfo blk) 1 @ ''Display.ShowMessageBox Message: %LastError%'']]"

definition ReplaceWithVariablePatch :: "Block \<Rightarrow> string \<Rightarrow> Patch" where
  "ReplaceWithVariablePatch blk propKey =
     (let v = getprop (bProperties (binfo blk)) propKey in
      if v = [] then []
      else [(replace_on (bLineNumber (binfo blk)) v (''%input_'' @ ToLower propKey @ ''%''))\<lparr>poProperty := propKey\<rparr>])"

definition WrapInRetryPatch :: "Block \<Rightarrow> Patch" where
  "WrapInRetryPatch blk = [insert_before (blockEndLine blk + 1) [indentCols (binfo blk) @ ''ON ERROR REPEAT 3 TIMES WAIT 5'']]"

definition InsertExitConditionPatch :: "Block \<Rightarrow> Patch" where
  "InsertExitConditionPatch blk =
     (if Children blk = [] then []
      else
        (let b = binfo blk; indent = indentColsDeeper b 1; inner = indentColsDeeper b 2 in
         [insert_before (bLineNumber b) [indentCols b @ ''SET __LoopGuard TO 0''],
          insert_before (first_child_line blk)
            [indent @ ''SET __LoopGuard TO %__LoopGuard% + 1'', indent @ ''IF %__LoopGuard% > 10000'',
             inner @ ''EXIT LOOP'', indent @ ''END'']]))"

definition RemoveBlockPatch :: "Block \<Rightarrow> Patch" where
  "RemoveBlockPatch blk = [(patch_op ''remove'')\<lparr>poStartLine := int (bLineNumber (binfo blk)), poEndLine := int (blockEndLine blk)\<rparr>]"

definition sqlVarRef :: rx where
  "sqlVarRef = seqs [chr (CHR ''%''), Grp 1 (seqs [Cls (\<lambda>c. is_upper c \<or> is_lower c \<or> c = CHR ''_''),
     Star (Cls (\<lambda>c. is_upper c \<or> is_lower c \<or> is_digit c \<or> c = CHR ''_''))]), chr (CHR ''%'')]"

definition FindAllString :: "rx \<Rightarrow> string \<Rightarrow> string list" where
  "FindAllString r s = map (\<lambda>m. group_text m 0) (FindAllStringSubmatchIndex r s)"

text \<open>The references in the order they are found, each once.\<close>

definition first_occurrences :: "string list \<Rightarrow> string list" where
  "first_occurrences xs = rev (remdups (rev xs))"

definition ParameterizeSqlPatch :: "Block \<Rightarrow> string \<Rightarrow> Patch" where
  "ParameterizeSqlPatch blk propKey =
     (let sqlText = getprop (bProperties (binfo blk)) propKey in
      if propKey = [] \<or> sqlText = [] then []
      else map (\<lambda>m. replace_on (bLineNumber (binfo blk)) m (CHR ''@'' # Trim m ''%''))
             (first_occurrences (FindAllString sqlVarRef sqlText)))"

definition AppendOutputPatch :: "Block \<Rightarrow> Patch" where
  "AppendOutputPatch blk = [append_to (bLineNumber (binfo blk)) '' => Output_Result'']"

definition InsertDefaultPatch :: "Block \<Rightarrow> Patch" where
  "InsertDefaultPatch blk = [insert_before (blockEndLine blk) [indentColsDeeper (binfo blk) 1 @ ''DEFAULT'']]"

definition MaskSensitiveVariablePatch :: "Block \<Rightarrow> string \<Rightarrow> Patch" where
  "MaskSensitiveVariablePatch blk var =
     (if var = [] then [] else [replace_on (bLineNumber (binfo blk)) (''%'' @ var @ ''%'') ([quote] @ ''*** MASKED ***'' @ [quote])])"

definition UpgradeToHttpsPatch :: "Block \<Rightarrow> Patch" where
  "UpgradeToHttpsPatch blk = [replace_on (bLineNumber (binfo blk)) ''http://'' ''https://'']"

definition sortedPropertyKeys :: "(string \<times> string) list \<Rightarrow> string list" where
  "sortedPropertyKeys props = sort (remdups (map fst props))"

definition SanitizeCommandVarsPatch :: "Block \<Rightarrow> Patch" where
  "SanitizeCommandVarsPatch blk =
     (let props = bProperties (binfo blk) in
      map (\<lambda>m. replace_on (bLineNumber (binfo blk)) m [])
        (first_occurrences (concat (map (\<lambda>k. FindAllString sqlVarRef (getprop props k)) (sortedPropertyKeys props)))))"

section \<open>The registry\<close>

datatype FixFlag = FixBehaviourChanging | FixUsesVariable | FixUsesProperty | FixUsesRuleID | FixStandalone

record FixInput =
  fiBlock :: Block
  fiRuleID :: string
  fiVariable :: string
  fiProperty :: string

record FixSpec =
  fsBuild :: "FixInput \<Rightarrow> Patch"
  fsFlags :: "FixFlag list"

definition blockFix :: "(Block \<Rightarrow> Patch) \<Rightarrow> FixFlag list \<Rightarrow> FixSpec" where
  "blockFix build flags = \<lparr>fsBuild = (\<lambda>i. build (fiBlock i)), fsFlags = flags\<rparr>"

definition fixRegistry :: "(string \<times> FixSpec) list" where
  "fixRegistry = [
     (''suppress'', \<lparr>fsBuild = (\<lambda>i. SuppressFindingPatch (fiBlock i) (fiRuleID i)), fsFlags = [FixUsesRuleID, FixStandalone]\<rparr>),
     (''wrap-error-handler'', blockFix WrapInErrorHandlerPatch []),
     (''insert-close'', blockFix InsertClosePatch []),
     (''set-timeout'', blockFix SetTimeoutPatch []),
     (''insert-delay'', blockFix InsertDelayPatch []),
     (''insert-delay-in-loop'', blockFix InsertDelayInLoopPatch []),
     (''insert-handler-log'', blockFix InsertHandlerLogPatch []),
     (''init-variable'', \<lparr>fsBuild = (\<lambda>i. InsertVariableInitPatch (fiBlock i) (fiVariable i)), fsFlags = [FixUsesVariable]\<rparr>),
     (''insert-error-log'', blockFix InsertErrorLogPatch []),
     (''replace-with-variable'', \<lparr>fsBuild = (\<lambda>i. ReplaceWithVariablePatch (fiBlock i) (fiProperty i)),
        fsFlags = [FixBehaviourChanging, FixUsesProperty]\<rparr>),
     (''wrap-in-retry'', blockFix WrapInRetryPatch []),
     (''insert-exit-condition'', blockFix InsertExitConditionPatch []),
     (''remove-block'', blockFix RemoveBlockPatch []),
     (''parameterize-sql'', \<lparr>fsBuild = (\<lambda>i. ParameterizeSqlPatch (fiBlock i) (fiProperty i)), fsFlags = [FixUsesProperty]\<rparr>),
     (''append-output'', blockFix AppendOutputPatch []),
     (''insert-default'', blockFix InsertDefaultPatch []),
     (''mask-sensitive-variable'', \<lparr>fsBuild = (\<lambda>i. MaskSensitiveVariablePatch (fiBlock i) (fiVariable i)),
        fsFlags = [FixBehaviourChanging, FixUsesVariable]\<rparr>),
     (''upgrade-to-https'', blockFix UpgradeToHttpsPatch []),
     (''sanitize-command-vars'', blockFix SanitizeCommandVarsPatch [FixBehaviourChanging])]"

text \<open>\<open>None\<close> is the error for an unknown fix type.\<close>

definition PatchForFix :: "Block \<Rightarrow> string \<Rightarrow> string \<Rightarrow> string \<Rightarrow> string \<Rightarrow> Patch option" where
  "PatchForFix blk fixType ruleID variable property =
     map_option (\<lambda>s. fsBuild s \<lparr>fiBlock = blk, fiRuleID = ruleID, fiVariable = variable, fiProperty = property\<rparr>)
       (map_of fixRegistry fixType)"

definition IsBehaviourChangingFix :: "string \<Rightarrow> bool" where
  "IsBehaviourChangingFix fixType \<longleftrightarrow>
     (case map_of fixRegistry fixType of None \<Rightarrow> False | Some s \<Rightarrow> FixBehaviourChanging \<in> set (fsFlags s))"

end
