(* ===== verification/Patch_Correct.thy ===== *)
theory Patch_Correct
  imports Patches
begin

text \<open>
  What a patch does to the lines of a text: every operation keeps the lines above its target and those
  below its reach and, with its target inside the text, is never skipped; line endings survive a
  patch; and the patches of the registered fixes change nothing outside the block they are built for.
\<close>

section \<open>The contract of an operation\<close>

text \<open>
  \<open>target\<close> is the first line an operation may change, \<open>reach\<close> the last one, \<open>ok\<close> says that its
  target exists in a text of that many lines.
\<close>

locale line_edit =
  fixes edit :: "string list \<Rightarrow> PatchOp \<Rightarrow> string list \<times> nat"
    and target reach :: "PatchOp \<Rightarrow> int"
    and ok :: "nat \<Rightarrow> PatchOp \<Rightarrow> bool"
  assumes keeps_above: "int k < target op \<Longrightarrow> take k (fst (edit lines op)) = take k lines"
    and hit: "ok (length lines) op \<Longrightarrow> snd (edit lines op) = 0"
    and keeps_below: "ok (length (us @ vs)) op \<Longrightarrow> reach op \<le> int (length us) \<Longrightarrow> \<exists>us'. fst (edit (us @ vs) op) = us' @ vs"
begin

lemma run_keeps_above:
  "(\<And>op. op \<in> set ops \<Longrightarrow> int k < target op) \<Longrightarrow> take k (fst (run_ops edit ops st)) = take k (fst st)"
proof (induction ops arbitrary: st)
  case (Cons op ops)
  have "fst (run_ops edit (op # ops) st) = fst (run_ops edit ops (fst (edit (fst st) op), snd st + snd (edit (fst st) op)))"
    by (simp add: run_ops_def case_prod_unfold)
  with Cons keeps_above show ?case by simp
qed (simp add: run_ops_def)

end

text \<open>Operations that never shorten the text keep every target in range.\<close>

locale growing_edit = line_edit +
  assumes grows: "length lines \<le> length (fst (edit lines op))"
    and ok_mono: "ok m op \<Longrightarrow> m \<le> n \<Longrightarrow> ok n op"
begin

lemma run_hits:
  "(\<And>op. op \<in> set ops \<Longrightarrow> ok (length (fst st)) op) \<Longrightarrow>
     snd (run_ops edit ops st) = snd st \<and> length (fst st) \<le> length (fst (run_ops edit ops st))"
proof (induction ops arbitrary: st)
  case (Cons op ops)
  let ?st = "(fst (edit (fst st) op), snd st + snd (edit (fst st) op))"
  have "run_ops edit (op # ops) st = run_ops edit ops ?st" by (simp add: run_ops_def case_prod_unfold)
  moreover have "snd (run_ops edit ops ?st) = snd ?st \<and> length (fst ?st) \<le> length (fst (run_ops edit ops ?st))"
    using Cons.prems by (intro Cons.IH) (auto intro: ok_mono grows)
  ultimately show ?case using Cons.prems [of op] hit [of "fst st" op] grows [of "fst st" op] by simp
qed (simp add: run_ops_def)

lemma run_keeps_below:
  "(\<And>op. op \<in> set ops \<Longrightarrow> ok (length (us @ vs)) op \<and> reach op \<le> int (length us)) \<Longrightarrow>
     \<exists>us'. fst (run_ops edit ops (us @ vs, n)) = us' @ vs \<and> length us \<le> length us'"
proof (induction ops arbitrary: us n)
  case (Cons op ops)
  have "run_ops edit (op # ops) (us @ vs, n) = run_ops edit ops (fst (edit (us @ vs) op), n + snd (edit (us @ vs) op))"
    by (simp add: run_ops_def case_prod_unfold)
  moreover obtain us' where us': "fst (edit (us @ vs) op) = us' @ vs" using keeps_below [of us vs op] Cons.prems by auto
  moreover have le: "length us \<le> length us'" using grows [of "us @ vs" op] us' by simp
  moreover have "\<exists>us''. fst (run_ops edit ops (us' @ vs, k)) = us'' @ vs \<and> length us' \<le> length us''" for k
  proof (rule Cons.IH)
    fix o' assume "o' \<in> set ops"
    with Cons.prems have "ok (length (us @ vs)) o'" "reach o' \<le> int (length us)" by auto
    with le show "ok (length (us' @ vs)) o' \<and> reach o' \<le> int (length us')" by (auto intro: ok_mono)
  qed
  ultimately show ?case by (metis order_trans)
qed (simp add: run_ops_def)

end

lemma run_ops_Nil [simp]: "run_ops edit [] st = st"
  by (simp add: run_ops_def)

lemma take_above: "k \<le> i \<Longrightarrow> i \<le> length lines \<Longrightarrow> take k (take i lines @ zs) = take k lines"
  by (simp add: min_def)

lemma start_index: "in_lines n lines \<Longrightarrow> int k < n \<Longrightarrow> k \<le> nat (n - 1) \<and> nat (n - 1) < length lines"
  unfolding in_lines_def by linarith

abbreviation starts_in :: "nat \<Rightarrow> PatchOp \<Rightarrow> bool" where
  "starts_in n op \<equiv> 1 \<le> poStartLine op \<and> poStartLine op \<le> int n"

text \<open>The 0-based bounds of a wrapped or removed range that stays above \<open>vs\<close>.\<close>

lemma range_below:
  assumes "starts_in (length (us @ vs)) op" "max (poStartLine op) (poEndLine op) \<le> int (length us)"
  defines "s \<equiv> nat (poStartLine op - 1)"
    and "e \<equiv> min (max (nat (poEndLine op)) (nat (poStartLine op - 1))) (length (us @ vs))"
  shows "in_lines (poStartLine op) (us @ vs)" "s \<le> e" "e \<le> length us"
    and "take s (us @ vs) @ zs @ drop e (us @ vs) = (take s us @ zs @ drop e us) @ vs"
proof -
  show in_l: "in_lines (poStartLine op) (us @ vs)" using assms(1) by (simp add: in_lines_def)
  show le: "s \<le> e" "e \<le> length us" using assms(1,2) by (auto simp: s_def e_def)
  then show "take s (us @ vs) @ zs @ drop e (us @ vs) = (take s us @ zs @ drop e us) @ vs" by simp
qed

lemma update_below: "i < length us \<Longrightarrow> (us @ vs)[i := x] = us[i := x] @ vs"
  by (simp add: list_update_append)

interpretation wrap_edit: growing_edit applyWrap poStartLine "\<lambda>op. max (poStartLine op) (poEndLine op)" starts_in
proof
  fix k lines and op :: PatchOp assume "int k < poStartLine op"
  then show "take k (fst (applyWrap lines op)) = take k lines"
    by (cases "in_lines (poStartLine op) lines") (auto simp: applyWrap_def Let_def take_above dest: start_index)
next
  fix us vs :: "string list" and op :: PatchOp
  assume "starts_in (length (us @ vs)) op" "max (poStartLine op) (poEndLine op) \<le> int (length us)"
  note r = range_below [OF this]
  show "\<exists>us'. fst (applyWrap (us @ vs) op) = us' @ vs"
    unfolding applyWrap_def Let_def using r(1) by (simp only: if_True not_True_eq_False if_False fst_conv r(4)) (rule exI, rule refl)
next
  fix lines :: "string list" and op :: PatchOp
  let ?s = "nat (poStartLine op - 1)"
  let ?e = "min (max (nat (poEndLine op)) ?s) (length lines)"
  have "length lines \<le> length (take ?s lines @ as @ map f (drop ?s (take ?e lines)) @ bs @ drop ?e lines)"
    if "in_lines (poStartLine op) lines" for as bs and f :: "string \<Rightarrow> string"
  proof -
    have "?s \<le> ?e" "?e \<le> length lines" using that by (auto simp: in_lines_def)
    then show ?thesis by simp
  qed
  then show "length lines \<le> length (fst (applyWrap lines op))"
    by (cases "in_lines (poStartLine op) lines") (simp_all add: applyWrap_def Let_def)
qed (auto simp: applyWrap_def in_lines_def Let_def)

interpretation remove_edit: line_edit applyRemove poStartLine "\<lambda>op. max (poStartLine op) (poEndLine op)" starts_in
proof
  fix k lines and op :: PatchOp assume "int k < poStartLine op"
  then show "take k (fst (applyRemove lines op)) = take k lines"
    by (cases "in_lines (poStartLine op) lines") (auto simp: applyRemove_def Let_def take_above dest: start_index)
next
  fix us vs :: "string list" and op :: PatchOp
  assume "starts_in (length (us @ vs)) op" "max (poStartLine op) (poEndLine op) \<le> int (length us)"
  note r = range_below [OF this]
  show "\<exists>us'. fst (applyRemove (us @ vs) op) = us' @ vs"
    unfolding applyRemove_def Let_def using r(1) r(4) [of "[]"] by (simp only: if_True not_True_eq_False if_False fst_conv append_Nil) (rule exI, rule refl)
qed (auto simp: applyRemove_def in_lines_def Let_def)

interpretation replace_edit: growing_edit applyReplace poStartLine poStartLine starts_in
proof
  fix k lines and op :: PatchOp assume "int k < poStartLine op"
  then show "take k (fst (applyReplace lines op)) = take k lines"
    by (cases "in_lines (poStartLine op) lines") (auto simp: applyReplace_def Let_def dest: start_index)
next
  fix us vs :: "string list" and op :: PatchOp
  assume "starts_in (length (us @ vs)) op" "poStartLine op \<le> int (length us)"
  then have "nat (poStartLine op - 1) < length us" by linarith
  then show "\<exists>us'. fst (applyReplace (us @ vs) op) = us' @ vs"
    by (auto simp: applyReplace_def Let_def update_below)
qed (auto simp: applyReplace_def in_lines_def Let_def)

interpretation append_edit: growing_edit applyAppend poStartLine poStartLine starts_in
proof
  fix k lines and op :: PatchOp assume "int k < poStartLine op"
  then show "take k (fst (applyAppend lines op)) = take k lines"
    by (cases "in_lines (poStartLine op) lines") (auto simp: applyAppend_def Let_def split: list.split dest: start_index)
next
  fix us vs :: "string list" and op :: PatchOp
  assume "starts_in (length (us @ vs)) op" "poStartLine op \<le> int (length us)"
  then have "nat (poStartLine op - 1) < length us" by linarith
  then show "\<exists>us'. fst (applyAppend (us @ vs) op) = us' @ vs"
    by (auto simp: applyAppend_def Let_def update_below split: list.split)
qed (auto simp: applyAppend_def in_lines_def Let_def split: list.split)

interpretation insert_edit: growing_edit applyInsert poBeforeLine "\<lambda>op. poBeforeLine op - 1"
  "\<lambda>n op. 1 \<le> poBeforeLine op \<and> poBeforeLine op \<le> int n + 1"
proof
  fix k lines and op :: PatchOp assume "int k < poBeforeLine op"
  then show "take k (fst (applyInsert lines op)) = take k lines"
    by (auto simp: applyInsert_def Let_def intro!: take_above)
next
  fix us vs :: "string list" and op :: PatchOp
  assume "1 \<le> poBeforeLine op \<and> poBeforeLine op \<le> int (length (us @ vs)) + 1" "poBeforeLine op - 1 \<le> int (length us)"
  then show "\<exists>us'. fst (applyInsert (us @ vs) op) = us' @ vs"
    by (auto simp: applyInsert_def Let_def)
qed (auto simp: applyInsert_def Let_def)

section \<open>Well-aimed patches\<close>

definition sorts_ops :: "op_sorter \<Rightarrow> bool" where
  "sorts_ops sorter \<longleftrightarrow>
     (\<forall>key ops. mset (sorter key ops) = mset ops \<and> sorted_wrt (\<lambda>a b. key a \<ge> key b) (sorter key ops))"

lemma sorted_ops_set: "sorts_ops sorter \<Longrightarrow> set (sorter key ops) = set ops"
  unfolding sorts_ops_def by (metis mset_eq_setD)

lemma sorted_ops_single: "sorts_ops sorter \<Longrightarrow> sorter key [op] = [op]"
  unfolding sorts_ops_def by (metis mset.simps mset_single_iff_right mset_single_iff)

lemma sorted_ops_Nil: "sorts_ops sorter \<Longrightarrow> sorter key [] = []"
  unfolding sorts_ops_def by (metis mset_zero_iff mset.simps(1))

text \<open>An operation aimed at the lines \<open>l..e\<close> of a text.\<close>

definition aimed :: "nat \<Rightarrow> nat \<Rightarrow> PatchOp \<Rightarrow> bool" where
  "aimed l e op \<longleftrightarrow>
     poKind op = ''insert'' \<and> int l \<le> poBeforeLine op \<and> poBeforeLine op \<le> int e + 1 \<or>
     poKind op \<in> {''append'', ''replace''} \<and> int l \<le> poStartLine op \<and> poStartLine op \<le> int e \<or>
     poKind op = ''wrap'' \<and> int l \<le> poStartLine op \<and> poStartLine op \<le> int e \<and> poEndLine op \<le> int e"

definition well_aimed :: "nat \<Rightarrow> nat \<Rightarrow> Patch \<Rightarrow> bool" where
  "well_aimed l e p \<longleftrightarrow> list_all (aimed l e) p \<or>
     (\<exists>op. p = [op] \<and> poKind op = ''remove'' \<and> int l \<le> poStartLine op \<and> poStartLine op \<le> int e \<and> poEndLine op \<le> int e)"

lemma aimed_kinds:
  assumes "list_all (aimed l e) p"
  shows "of_kind ''remove'' p = []"
    and "op \<in> set (of_kind ''insert'' p) \<Longrightarrow> int l \<le> poBeforeLine op \<and> poBeforeLine op \<le> int e + 1"
    and "op \<in> set (of_kind ''append'' p) \<union> set (of_kind ''replace'' p) \<union> set (of_kind ''wrap'' p) \<Longrightarrow>
      int l \<le> poStartLine op \<and> poStartLine op \<le> int e"
    and "op \<in> set (of_kind ''wrap'' p) \<Longrightarrow> poEndLine op \<le> int e"
  using assms by (auto simp: of_kind_def aimed_def list_all_iff filter_empty_conv)

text \<open>Each pass keeps the lines outside \<open>l..e\<close>.\<close>

lemma pass_outside:
  assumes edit: "growing_edit f target reach ok"
    and ops: "\<And>op. op \<in> set ops \<Longrightarrow> int l \<le> target op \<and> ok (length (us @ vs)) op \<and> reach op \<le> int (length us)"
    and l: "0 < l" "l \<le> length us"
  shows "\<exists>us'. run_ops f ops (us @ vs, n) = (us' @ vs, n) \<and> length us \<le> length us' \<and> take (l - 1) us' = take (l - 1) us"
proof -
  from growing_edit.run_keeps_below [OF edit, of ops us vs n] ops obtain us' where
    us': "fst (run_ops f ops (us @ vs, n)) = us' @ vs" "length us \<le> length us'" by blast
  have "take (l - 1) (fst (run_ops f ops (us @ vs, n))) = take (l - 1) (us @ vs)"
    using line_edit.run_keeps_above [OF growing_edit.axioms(1) [OF edit], of ops "l - 1" "(us @ vs, n)"] ops l by fastforce
  with us' l have "take (l - 1) us' = take (l - 1) us" by simp
  moreover have "snd (run_ops f ops (us @ vs, n)) = n"
    using growing_edit.run_hits [OF edit, of ops "(us @ vs, n)"] ops by simp
  ultimately show ?thesis using us' by (metis prod.collapse)
qed

lemma aimed_patch:
  assumes s: "sorts_ops sorter" and p: "list_all (aimed l e) p" and l: "0 < l" "l \<le> e" "e \<le> length lines"
  shows "\<exists>us. patch_lines sorter p lines = (us @ drop e lines, 0) \<and> take (l - 1) us = take (l - 1) lines"
proof -
  let ?vs = "drop e lines" and ?us = "take e lines"
  note k = aimed_kinds [OF p]
  have us: "length ?us = e" using l by simp
  obtain w where w: "run_ops applyWrap (of_kind ''wrap'' p) (?us @ ?vs, 0) = (w @ ?vs, 0)"
    "e \<le> length w" "take (l - 1) w = take (l - 1) ?us"
    using pass_outside [OF wrap_edit.growing_edit_axioms, of "of_kind ''wrap'' p" l ?us ?vs 0] k(3,4) l us by fastforce
  obtain r where r: "run_ops applyReplace (of_kind ''replace'' p) (w @ ?vs, 0) = (r @ ?vs, 0)"
    "e \<le> length r" "take (l - 1) r = take (l - 1) w"
    using pass_outside [OF replace_edit.growing_edit_axioms, of "of_kind ''replace'' p" l w ?vs 0] k(3) l w(2) by fastforce
  obtain a where a: "run_ops applyAppend (of_kind ''append'' p) (r @ ?vs, 0) = (a @ ?vs, 0)"
    "e \<le> length a" "take (l - 1) a = take (l - 1) r"
    using pass_outside [OF append_edit.growing_edit_axioms, of "of_kind ''append'' p" l r ?vs 0] k(3) l r(2) by fastforce
  obtain i where i: "run_ops applyInsert (sorter poBeforeLine (of_kind ''insert'' p)) (a @ ?vs, 0) = (i @ ?vs, 0)"
    "take (l - 1) i = take (l - 1) a"
    using pass_outside [OF insert_edit.growing_edit_axioms, of "sorter poBeforeLine (of_kind ''insert'' p)" l a ?vs 0]
      k(2) l a(2) sorted_ops_set [OF s] by fastforce
  have "patch_lines sorter p lines = (i @ ?vs, 0)"
    using w(1) r(1) a(1) i(1) k(1) sorted_ops_Nil [OF s] by (simp add: patch_lines_def)
  moreover have "take (l - 1) i = take (l - 1) lines" using i(2) a(3) r(3) w(3) l by (simp add: min_def)
  ultimately show ?thesis by blast
qed

lemma well_aimed_patch:
  assumes s: "sorts_ops sorter" and p: "well_aimed l e p" and l: "0 < l" "l \<le> e" "e \<le> length lines"
  shows "\<exists>us. patch_lines sorter p lines = (us @ drop e lines, 0) \<and> take (l - 1) us = take (l - 1) lines"
  using p unfolding well_aimed_def
proof
  assume "list_all (aimed l e) p"
  then show ?thesis by (rule aimed_patch [OF s _ l])
next
  assume "\<exists>op. p = [op] \<and> poKind op = ''remove'' \<and> int l \<le> poStartLine op \<and> poStartLine op \<le> int e \<and> poEndLine op \<le> int e"
  then obtain op where op: "p = [op]" "poKind op = ''remove''" "int l \<le> poStartLine op" "poStartLine op \<le> int e"
    "poEndLine op \<le> int e" by blast
  let ?s = "nat (poStartLine op - 1)"
  let ?e = "min (max (nat (poEndLine op)) ?s) (length lines)"
  have le: "l - 1 \<le> ?s" "?s \<le> e" "?e \<le> e" "?s < length lines" using op l by linarith+
  have "in_lines (poStartLine op) lines" using op l by (simp add: in_lines_def)
  then have "applyRemove lines op = (take ?s lines @ drop ?e lines, 0)" by (simp add: applyRemove_def Let_def)
  moreover have "drop ?e lines = drop ?e (take e lines) @ drop e lines"
    using le(3) l(3) by (metis append_take_drop_id drop_append diff_is_0_eq drop0 length_take min.absorb2)
  ultimately have "patch_lines sorter p lines = ((take ?s lines @ drop ?e (take e lines)) @ drop e lines, 0)"
    using op(1,2) sorted_ops_Nil [OF s] sorted_ops_single [OF s]
    by (simp add: patch_lines_def of_kind_def run_ops_def)
  moreover have "take (l - 1) (take ?s lines @ drop ?e (take e lines)) = take (l - 1) lines"
    using le by (simp add: min_def)
  ultimately show ?thesis by blast
qed

section \<open>The registered fixes\<close>

lemma blockEndLine_bounds:
  shows "bLineNumber (binfo blk) \<le> blockEndLine blk"
    and "c \<in> set (Children blk) \<Longrightarrow> blockEndLine c \<le> blockEndLine blk"
proof -
  obtain b cs where blk: "blk = Block b cs" by (cases blk)
  have mono: "e \<le> foldl (\<lambda>e c. let k = g c in if k > e then k else e) e xs" for g :: "Block \<Rightarrow> nat" and e xs
    by (induction xs arbitrary: e) (auto simp: Let_def intro: order_trans less_imp_le)
  have elem: "c \<in> set xs \<Longrightarrow> g c \<le> foldl (\<lambda>e c. let k = g c in if k > e then k else e) e xs"
    for g :: "Block \<Rightarrow> nat" and e xs
  proof (induction xs arbitrary: e)
    case (Cons x xs)
    have "c = x \<Longrightarrow> g c \<le> (let k = g x in if k > e then k else e)" by (simp add: Let_def)
    with Cons mono show ?case by (auto intro: order_trans)
  qed simp
  have "(if bEndLineNumber b > bLineNumber b then bEndLineNumber b else bLineNumber b) \<le> blockEndLine blk"
    unfolding blk blockEndLine.simps by (rule mono)
  then show "bLineNumber (binfo blk) \<le> blockEndLine blk" by (auto simp: blk split: if_splits)
  show "c \<in> set (Children blk) \<Longrightarrow> blockEndLine c \<le> blockEndLine blk"
    unfolding blk using elem [of cs blockEndLine] by simp
qed

text \<open>A block whose lines a text of \<open>n\<close> lines holds; children stand below their parent.\<close>

definition block_in_text :: "nat \<Rightarrow> Block \<Rightarrow> bool" where
  "block_in_text n blk \<longleftrightarrow> 1 \<le> bLineNumber (binfo blk) \<and> blockEndLine blk \<le> n \<and>
     list_all (\<lambda>c. bLineNumber (binfo blk) \<le> bLineNumber (binfo c)) (Children blk)"

lemma first_child_line_bounds:
  assumes "block_in_text n blk" "Children blk \<noteq> []"
  shows "bLineNumber (binfo blk) \<le> first_child_line blk" "first_child_line blk \<le> blockEndLine blk + 1"
proof -
  have hd: "hd (Children blk) \<in> set (Children blk)" using assms(2) by simp
  then show "bLineNumber (binfo blk) \<le> first_child_line blk"
    using assms(1) by (auto simp: block_in_text_def first_child_line_def Let_def list_all_iff)
  have "bLineNumber (binfo (hd (Children blk))) \<le> blockEndLine blk"
    using blockEndLine_bounds(1) [of "hd (Children blk)"] blockEndLine_bounds(2) [OF hd] by linarith
  then show "first_child_line blk \<le> blockEndLine blk + 1"
    using blockEndLine_bounds(1) [of blk] by (simp add: first_child_line_def Let_def)
qed

lemmas builder_defs = SuppressFindingPatch_def WrapInErrorHandlerPatch_def InsertClosePatch_def SetTimeoutPatch_def
  InsertDelayPatch_def InsertDelayInLoopPatch_def InsertHandlerLogPatch_def InsertVariableInitPatch_def
  InsertErrorLogPatch_def ReplaceWithVariablePatch_def WrapInRetryPatch_def InsertExitConditionPatch_def
  RemoveBlockPatch_def ParameterizeSqlPatch_def AppendOutputPatch_def InsertDefaultPatch_def
  MaskSensitiveVariablePatch_def UpgradeToHttpsPatch_def SanitizeCommandVarsPatch_def

lemmas op_defs = patch_op_def insert_before_def append_to_def replace_on_def

lemma registered_fix_aimed:
  assumes "(ft, s) \<in> set fixRegistry" "block_in_text n (fiBlock i)"
  shows "well_aimed (bLineNumber (binfo (fiBlock i))) (blockEndLine (fiBlock i)) (fsBuild s i)"
proof -
  have l: "bLineNumber (binfo (fiBlock i)) \<le> blockEndLine (fiBlock i)" by (rule blockEndLine_bounds)
  then have l1: "int (bLineNumber (binfo (fiBlock i))) \<le> int (blockEndLine (fiBlock i)) + 1"
    "int (bLineNumber (binfo (fiBlock i))) \<le> 1 + int (blockEndLine (fiBlock i))" by simp_all
  have fc: "bLineNumber (binfo (fiBlock i)) \<le> first_child_line (fiBlock i)"
    "int (first_child_line (fiBlock i)) \<le> int (blockEndLine (fiBlock i)) + 1" if "Children (fiBlock i) \<noteq> []"
    using first_child_line_bounds [OF assms(2) that] by simp_all
  from assms(1) show ?thesis
    unfolding fixRegistry_def blockFix_def set_simps insert_iff prod.inject
    by (elim disjE conjE emptyE; simp only: FixSpec.simps builder_defs Let_def)
      (auto simp: well_aimed_def aimed_def op_defs list_all_iff l l1 fc split: option.split)
qed

text \<open>
  C34: a fix changes nothing outside its block. For every registered fix and every block whose lines lie
  in the text, no operation of the patch is skipped, the lines above the block stay as they are, and
  the lines below it follow unchanged, however the library orders operations on the same line.
\<close>

theorem fixes_stay_in_block:
  assumes "sorts_ops sorter" "block_in_text (length lines) blk" "PatchForFix blk fixType ruleID variable property = Some p"
  shows "\<exists>us. patch_lines sorter p lines = (us @ drop (blockEndLine blk) lines, 0) \<and>
    take (bLineNumber (binfo blk) - 1) us = take (bLineNumber (binfo blk) - 1) lines"
proof -
  from assms(3) obtain s where s: "(fixType, s) \<in> set fixRegistry"
    "p = fsBuild s \<lparr>fiBlock = blk, fiRuleID = ruleID, fiVariable = variable, fiProperty = property\<rparr>"
    by (auto simp: PatchForFix_def dest: map_of_SomeD)
  have "well_aimed (bLineNumber (binfo blk)) (blockEndLine blk) p"
    using registered_fix_aimed [OF s(1), of "length lines"
        "\<lparr>fiBlock = blk, fiRuleID = ruleID, fiVariable = variable, fiProperty = property\<rparr>"] assms(2) s(2) by simp
  then show ?thesis
    using assms(2) blockEndLine_bounds(1) [of blk] by (intro well_aimed_patch [OF assms(1)]) (simp_all add: block_in_text_def)
qed

definition stable_sorter :: op_sorter where
  "stable_sorter key ops = rev (sort_key key ops)"

lemma stable_sorter_sorts: "sorts_ops stable_sorter"
proof -
  have "sorted_wrt (\<lambda>a b. key a \<ge> key b) (rev (sort_key key ops))" for key :: "PatchOp \<Rightarrow> int" and ops
    using sorted_sort_key [of key ops] by (simp add: sorted_map sorted_wrt_rev)
  then show ?thesis by (simp add: sorts_ops_def stable_sorter_def)
qed

definition loop_sample :: Block where
  "loop_sample = Block ((binfo (note_block BlockTypeLoop ''l'' ''l''))\<lparr>bLineNumber := 2, bIndent := 0\<rparr>)
     [Block ((binfo (note_block BlockTypeAction ''c'' ''c''))\<lparr>bLineNumber := 3, bIndent := 4\<rparr>) [],
      Block ((binfo (note_block BlockTypeEnd ''e'' ''e''))\<lparr>bLineNumber := 4, bIndent := 0\<rparr>) []]"

theorem fixes_stay_in_block_witness:
  "let lines = [''a'', ''LOOP'', ''    b'', ''END'', ''c'']; p = the (PatchForFix loop_sample ''insert-exit-condition'' [] [] []) in
     \<exists>us. patch_lines stable_sorter p lines = (us @ [''c''], 0) \<and> take 1 us = [''a''] \<and> length us = 9"
proof -
  let ?lines = "[''a'', ''LOOP'', ''    b'', ''END'', ''c'']"
  have b: "block_in_text (length ?lines) loop_sample" by code_simp
  have p: "PatchForFix loop_sample ''insert-exit-condition'' [] [] [] = Some (InsertExitConditionPatch loop_sample)" by code_simp
  have d: "drop (blockEndLine loop_sample) ?lines = [''c'']" "bLineNumber (binfo loop_sample) = 2" by code_simp+
  obtain us where us: "patch_lines stable_sorter (InsertExitConditionPatch loop_sample) ?lines = (us @ [''c''], 0)" "take 1 us = [''a'']"
    using fixes_stay_in_block [OF stable_sorter_sorts b p] unfolding d by auto
  have "length (fst (patch_lines stable_sorter (InsertExitConditionPatch loop_sample) ?lines)) = 10" by code_simp
  with us show ?thesis by (simp add: p)
qed

section \<open>Line endings\<close>

definition source_lines :: "string \<Rightarrow> string list" where
  "source_lines src = SplitByte (ReplaceAll src [cr, nl] [nl]) nl"

lemma ReplaceAll_absent: "old \<noteq> [] \<Longrightarrow> \<not> Contains s old \<Longrightarrow> ReplaceAll s old new = s"
proof (induction s old new rule: ReplaceAll.induct)
  case (2 c s old new)
  then show ?case by (auto simp: Contains_def split: if_splits)
qed simp

lemma crlf_back: "ReplaceAll (ReplaceAll x [nl] [cr, nl]) [cr, nl] [nl] = x"
proof (induction x)
  case (Cons c x)
  have r: "ReplaceAll (c # x) [nl] [cr, nl] = (if c = nl then [cr, nl] else [c]) @ ReplaceAll x [nl] [cr, nl]"
    by simp
  have "hd (ReplaceAll x [nl] [cr, nl]) \<noteq> nl" if "ReplaceAll x [nl] [cr, nl] \<noteq> []"
    using that by (cases x) auto
  then have "\<not> HasPrefix (ReplaceAll x [nl] [cr, nl]) [nl]"
    by (cases "ReplaceAll x [nl] [cr, nl]") (auto simp: HasPrefix_def)
  with Cons.IH show ?case unfolding r by (cases "c = nl") auto
qed simp

lemma split_join:
  "ls \<noteq> [] \<Longrightarrow> list_all (\<lambda>l. c \<notin> set l) ls \<Longrightarrow> SplitByte (Join ls [c]) c = ls"
proof (induction ls "[c]" rule: Join.induct)
  case (2 w)
  then show ?case by (induction w) auto
next
  case (3 w v vs)
  then have "SplitByte (Join (v # vs) [c]) c = v # vs" and "c \<notin> set w" by simp_all
  then have "SplitByte (w @ c # Join (v # vs) [c]) c = w # v # vs"
    by (induction w) auto
  then show ?case by simp
qed simp

lemma Join_set: "set (Join ls sep) \<subseteq> (\<Union>l\<in>set ls. set l) \<union> set sep"
  by (induction ls sep rule: Join.induct) auto

lemma Contains_chars: "Contains s p \<Longrightarrow> set p \<subseteq> set s"
proof -
  have "Index s p = Some i \<Longrightarrow> set p \<subseteq> set s" for i
  proof (induction s p arbitrary: i rule: Index.induct)
    case (2 c s p)
    show ?case
    proof (cases "HasPrefix (c # s) p")
      case True
      then show ?thesis unfolding HasPrefix_iff_prefix by (rule set_mono_prefix)
    next
      case False
      with 2 show ?thesis by auto
    qed
  qed (simp split: if_splits)
  then show "Contains s p \<Longrightarrow> set p \<subseteq> set s" by (auto simp: Contains_def)
qed

text \<open>
  C35: a patch edits lines and nothing else. Reading the patched text back line by line gives exactly the
  patched lines, and the text keeps the line ending of the source: all CRLF when the source has one,
  no CRLF when it has none.
\<close>

theorem patched_text_lines:
  assumes "p \<noteq> []"
    and "fst (patch_lines sorter p (source_lines src)) \<noteq> []"
    and "list_all (\<lambda>l. nl \<notin> set l \<and> (cr \<notin> set l \<or> Contains src [cr, nl])) (fst (patch_lines sorter p (source_lines src)))"
  shows "let out = fst (ApplyPatch sorter src p) in
    source_lines out = fst (patch_lines sorter p (source_lines src)) \<and>
    (if Contains src [cr, nl] then ReplaceAll (ReplaceAll out [cr, nl] [nl]) [nl] [cr, nl] = out
     else \<not> Contains out [cr, nl])"
proof -
  let ?ls = "fst (patch_lines sorter p (source_lines src))"
  let ?j = "Join ?ls [nl]"
  have split: "SplitByte ?j nl = ?ls"
    using assms(2,3) by (intro split_join) (auto simp: list_all_iff)
  have src: "SplitByte (if Contains src [cr, nl] then ReplaceAll src [cr, nl] [nl] else src) nl = source_lines src"
    by (simp add: source_lines_def ReplaceAll_absent)
  have out: "fst (ApplyPatch sorter src p) = (if Contains src [cr, nl] then ReplaceAll ?j [nl] [cr, nl] else ?j)"
    unfolding ApplyPatch_def Let_def case_prod_unfold src using assms(1) by simp
  show ?thesis
  proof (cases "Contains src [cr, nl]")
    case True
    then show ?thesis unfolding out Let_def source_lines_def [of "if _ then _ else _"] by (simp add: crlf_back split)
  next
    case False
    then have "cr \<notin> set ?j" using assms(3) Join_set [of ?ls "[nl]"] by (auto simp: list_all_iff)
    then have "\<not> Contains ?j [cr, nl]" using Contains_chars by fastforce
    with False show ?thesis
      unfolding out Let_def source_lines_def [of "if _ then _ else _"] by (simp add: ReplaceAll_absent split)
  qed
qed

definition delay_sample :: Patch where
  "delay_sample = [insert_before 2 [''WAIT 1'']]"

theorem patched_text_lines_witness:
  "let src = ''a'' @ [cr, nl] @ ''b''; out = fst (ApplyPatch stable_sorter src delay_sample) in
     source_lines out = [''a'', ''WAIT 1'', ''b''] \<and> out = ''a'' @ [cr, nl] @ ''WAIT 1'' @ [cr, nl] @ ''b''"
proof -
  let ?src = "''a'' @ [cr, nl] @ ''b''"
  have 1: "delay_sample \<noteq> []" by (simp add: delay_sample_def)
  have 2: "fst (patch_lines stable_sorter delay_sample (source_lines ?src)) = [''a'', ''WAIT 1'', ''b'']" by code_simp
  have 3: "fst (patch_lines stable_sorter delay_sample (source_lines ?src)) \<noteq> []" unfolding 2 by simp
  have 4: "list_all (\<lambda>l. nl \<notin> set l \<and> (cr \<notin> set l \<or> Contains ?src [cr, nl]))
      (fst (patch_lines stable_sorter delay_sample (source_lines ?src)))" unfolding 2 by code_simp
  have "fst (ApplyPatch stable_sorter ?src delay_sample) = ''a'' @ [cr, nl] @ ''WAIT 1'' @ [cr, nl] @ ''b''" by code_simp
  with patched_text_lines [OF 1 3 4, unfolded 2] show ?thesis by (simp add: Let_def)
qed

text \<open>
  A source that mixes line endings does not keep them: one CRLF makes every line of the patched text
  end in CRLF, also the lines the patch does not touch.
\<close>

theorem mixed_endings_rewritten:
  "fst (ApplyPatch stable_sorter (''a'' @ [cr, nl] @ ''b'' @ [nl] @ ''c'') [append_to 1 ''!'']) =
     ''a!'' @ [cr, nl] @ ''b'' @ [cr, nl] @ ''c''"
  by code_simp

end
