(* ===== verification/Suppress_Fix.thy ===== *)
theory Suppress_Fix
  imports Patch_Correct
begin

text \<open>
  The suppress fix and the directive parser are inverse to each other: the comment line that
  \<open>SuppressFindingPatch\<close> writes is tokenized as a comment and read back as a directive naming the rule.
\<close>

section \<open>Reading a directive back\<close>

definition id_char :: "char \<Rightarrow> bool" where
  "id_char c \<longleftrightarrow> is_lower c \<or> is_upper c \<or> is_digit c \<or> c = CHR ''-'' \<or> c = CHR ''_''"

lemma star_outs_last: "\<exists>sts. star_outs n f st = sts @ [st]"
  by (cases n) auto

lemma skip_Suc: "skip_chars (Suc n) st = skip_chars n (advance st)"
  by (simp add: skip_chars_def funpow_swap1)

text \<open>A greedy run up to a delimiter that the run excludes has one way to continue.\<close>

lemma greedy_until:
  "mrest st = xs @ c # ys \<Longrightarrow> c \<notin> set xs \<Longrightarrow> length xs \<le> n \<Longrightarrow>
     concat (map (\<lambda>s. outs (chr c) (s\<lparr>mcaps := (k, p, mpos s) # mcaps s\<rparr>)) (star_outs n (outs (Cls (\<lambda>d. d \<noteq> c))) st)) =
       [(skip_chars (Suc (length xs)) st)\<lparr>mcaps := (k, p, mpos st + length xs) # mcaps st\<rparr>]"
proof (induction xs arbitrary: st n)
  case Nil
  then show ?case by (cases n) (simp_all add: chr_def skip_chars_def)
next
  case (Cons x xs)
  then obtain m where n: "n = Suc m" by (cases n) auto
  have rest: "mrest (advance st) = xs @ c # ys" using Cons.prems by simp
  have step: "outs (Cls (\<lambda>d. d \<noteq> c)) st = [advance st]" using Cons.prems by auto
  have adv: "mpos (advance st) = Suc (mpos st)" "mcaps (advance st) = mcaps st" using Cons.prems by simp_all
  have "concat (map (\<lambda>s. outs (chr c) (s\<lparr>mcaps := (k, p, mpos s) # mcaps s\<rparr>)) (star_outs m (outs (Cls (\<lambda>d. d \<noteq> c))) (advance st))) =
      [(skip_chars (Suc (length xs)) (advance st))\<lparr>mcaps := (k, p, mpos (advance st) + length xs) # mcaps (advance st)\<rparr>]"
    using Cons.prems n by (intro Cons.IH [OF rest]) auto
  moreover have "outs (chr c) (st\<lparr>mcaps := (k, p, mpos st) # mcaps st\<rparr>) = []" using Cons.prems by (auto simp: chr_def)
  moreover have "length (mrest (advance st)) < length (mrest st)" using Cons.prems rest by simp
  ultimately show ?case
    unfolding n star_outs.simps step
    by (simp add: skip_Suc [of "Suc (length xs)"] adv del: advance_simps(1))
qed

lemma lit_ci_here:
  assumes "plain_fold cs" "map lower w = map lower cs" "mrest st = w @ s"
  shows "outs (lit_ci cs) st = [skip_chars (length w) st]"
proof -
  have "length w = length cs" using assms(2) map_eq_imp_length_eq by blast
  with assms show ?thesis by (simp add: lit_ci_outs)
qed

lemma mpos_skip: "n \<le> length (mrest st) \<Longrightarrow> mpos (skip_chars n st) = mpos st + n \<and> mcaps (skip_chars n st) = mcaps st"
proof (induction n arbitrary: st)
  case 0
  then show ?case by (simp add: skip_chars_def)
next
  case (Suc n)
  then obtain c s where "mrest st = c # s" by (cases "mrest st") auto
  with Suc show ?case by (simp add: skip_Suc)
qed

lemma find_hit:
  "outs r (start_state s) = st' # sts \<Longrightarrow> FindStringSubmatch r s =
     Some \<lparr>msubject = s, mstart = 0, mend = mpos st', mgroups = mcaps st'\<rparr>"
proof -
  assume o: "outs r (start_state s) = st' # sts"
  have "(start_state s)\<lparr>mcaps := []\<rparr> = start_state s" by (simp add: start_state_def)
  with o have "outs r ((start_state s)\<lparr>mcaps := []\<rparr>) = st' # sts" by (simp only:)
  then show ?thesis unfolding FindStringSubmatch_def by (subst find_from.simps) simp
qed

lemma directive_match:
  assumes "CHR '']'' \<notin> set rid"
  shows "\<exists>m. FindStringSubmatch rePadIgnoreRules (''pad-ignore['' @ rid @ '']'') = Some m \<and> group_text m 1 = rid"
proof -
  let ?p = "''pad-ignore''" and ?s = "''pad-ignore['' @ rid @ '']''"
  let ?st = "start_state ?s"
  have p: "plain_fold ?p" by code_simp
  have wb: "outs WordB ?st = [?st]" by (simp add: at_word_boundary_def word_char_def char_class_simps)
  have lit: "outs (lit_ci ?p) ?st = [skip_chars 10 ?st]"
  proof -
    have "outs (lit_ci ?p) ?st = [skip_chars (length ?p) ?st]"
      by (rule lit_ci_here [OF p, where s = "CHR ''['' # rid @ '']''"]) simp_all
    moreover have "length ?p = 10" by simp
    ultimately show ?thesis by (simp only:)
  qed
  let ?s2 = "skip_chars 10 ?st"
  have r2: "mrest ?s2 = CHR ''['' # rid @ '']''" by (simp add: mrest_skip)
  have "outs (lit_ci ''-next-line'') ?s2 = []"
    using lit_ci_outs [of "''-next-line''" ?s2] r2 by (simp add: plain_fold_def char_class_simps)
  then have opt: "outs (Opt (lit_ci ''-next-line'')) ?s2 = [?s2]" by (simp add: Opt_def)
  have br: "outs (chr (CHR ''['')) ?s2 = [skip_chars 11 ?st]"
    using r2 by (simp add: chr_def skip_chars_def eval_nat_numeral del: advance_simps(1))
  let ?s3 = "skip_chars 11 ?st"
  have r3: "mrest ?s3 = rid @ CHR '']'' # []" by (simp add: mrest_skip)
  have p3: "mpos ?s3 = 11" "mcaps ?s3 = []" using mpos_skip [of 11 ?st] by simp_all
  have last: "outs (seqs [Grp 1 (Star (Cls (\<lambda>c. c \<noteq> CHR '']''))), chr (CHR '']'')]) ?s3 =
      [(skip_chars (Suc (length rid)) ?s3)\<lparr>mcaps := [(1, 11, 11 + length rid)]\<rparr>]"
    using greedy_until [OF r3 assms, of "length (mrest ?s3)" 1 11] r3 p3 by (simp add: comp_def)
  have "outs rePadIgnoreRules ?st = [(skip_chars (Suc (length rid)) ?s3)\<lparr>mcaps := [(1, 11, 11 + length rid)]\<rparr>]"
    unfolding rePadIgnoreRules_def outs_seqs_Cons [of WordB] wb outs_seqs_Cons [of "lit_ci ?p"]
    by (simp only: list.map concat.simps append_Nil2 lit outs_seqs_Cons [of "Opt _"] opt outs_seqs_Cons [of "chr _" "_ # _"] br last)
  from find_hit [OF this] have "FindStringSubmatch rePadIgnoreRules ?s =
      Some \<lparr>msubject = ?s, mstart = 0, mend = mpos (skip_chars (Suc (length rid)) ?s3), mgroups = [(1, 11, 11 + length rid)]\<rparr>"
    by simp
  moreover have "drop 11 (take (11 + length rid) ?s) = rid" by (simp add: eval_nat_numeral)
  ultimately show ?thesis
    by (simp only: group_text_def group_at_def slice_def) simp
qed

lemma strip_words_none: "(\<And>w. w \<in> set words \<Longrightarrow> w \<noteq> [] \<Longrightarrow> hd w \<noteq> c) \<Longrightarrow> strip_words words (c # s) = c # s"
proof -
  assume h: "\<And>w. w \<in> set words \<Longrightarrow> w \<noteq> [] \<Longrightarrow> hd w \<noteq> c"
  have "\<not> (w \<noteq> [] \<and> HasPrefix (c # s) w)" if "w \<in> set words" for w
    using h [OF that] by (cases w) auto
  then have "find (\<lambda>w. w \<noteq> [] \<and> HasPrefix (c # s) w) words = None" by (simp add: find_None_iff)
  then show ?thesis by (subst strip_words.simps) simp
qed

definition ink :: "char \<Rightarrow> bool" where
  "ink c \<longleftrightarrow> list_all (\<lambda>w. hd w \<noteq> c \<and> last w \<noteq> c) space_runes"

lemma TrimSpace_ink:
  assumes "ink c" "ink d"
  shows "TrimSpace (c # s @ [d]) = c # s @ [d]" "TrimSpace [c] = [c]"
proof -
  have l: "strip_words space_runes (c # t) = c # t" for t
    using assms(1) by (intro strip_words_none) (auto simp: ink_def list_all_iff)
  have r: "ink e \<Longrightarrow> strip_words (map rev space_runes) (e # t) = e # t" for e t
    by (intro strip_words_none) (auto simp: ink_def list_all_iff hd_rev)
  show "TrimSpace (c # s @ [d]) = c # s @ [d]" "TrimSpace [c] = [c]"
    using r [OF assms(2), of "rev s @ [c]"] r [OF assms(1), of "[]"] by (simp_all add: TrimSpace_def TrimSpaceLeft_def TrimSpaceRight_def l)
qed

lemma TrimSpace_ink_all: "s \<noteq> [] \<Longrightarrow> list_all ink s \<Longrightarrow> TrimSpace s = s"
proof -
  assume s: "s \<noteq> []" "list_all ink s"
  then obtain c t where c: "s = c # t" "ink c" by (cases s) auto
  show "TrimSpace s = s"
  proof (cases t rule: rev_cases)
    case Nil
    then show ?thesis using c TrimSpace_ink(2) by simp
  next
    case (snoc u d)
    then show ?thesis using c s TrimSpace_ink(1) [of c d u] by simp
  qed
qed

lemma id_char_ink: "id_char c \<Longrightarrow> ink c"
  by (auto simp: id_char_def ink_def space_runes_def is_lower_def is_upper_def is_digit_def byte_def)

lemma id_char_plain: "id_char c \<Longrightarrow> c \<noteq> CHR '','' \<and> c \<noteq> CHR '']''"
  by (auto simp: id_char_def is_lower_def is_upper_def is_digit_def byte_def)

lemma id_char_lower: "id_char c \<Longrightarrow> lower c \<noteq> CHR ''*''"
proof
  assume c: "id_char c" "lower c = CHR ''*''"
  then have "is_upper c" by (auto simp: lower_def id_char_def is_lower_def is_digit_def byte_def split: if_splits)
  then have "of_char (lower c) = of_char c + (32 :: nat)" by (simp add: lower_def is_upper_def byte_def)
  with c \<open>is_upper c\<close> show False by (simp add: is_upper_def byte_def)
qed

lemma ToLower_id: "list_all id_char s \<Longrightarrow> ToLower s = map lower s"
proof (induction s)
  case (Cons c s)
  then show ?case by (auto simp: ToLower.simps id_char_def is_lower_def is_upper_def is_digit_def byte_def)
qed simp

lemma SplitByte_none: "c \<notin> set s \<Longrightarrow> SplitByte s c = [s]"
  by (induction s) auto

lemma pad_ignore_reads_back:
  assumes "rid \<noteq> []" "list_all id_char rid"
  shows "parsePadIgnore (''pad-ignore['' @ rid @ '']'') = Some (False, [map lower rid])"
proof -
  let ?s = "''pad-ignore['' @ rid @ '']''"
  have plain: "CHR '']'' \<notin> set rid" "CHR '','' \<notin> set rid"
    using assms(2) id_char_plain by (auto simp: list_all_iff)
  have "TrimSpace ?s = ?s"
    using TrimSpace_ink(1) [of "CHR ''p''" "CHR '']''" "''ad-ignore['' @ rid"] by (simp add: ink_def space_runes_def)
  moreover have "TrimPrefix ?s ''/#'' = ?s" by (simp add: TrimPrefix_def)
  moreover have "TrimSuffix ?s ''#/'' = ?s"
    by (simp add: TrimSuffix_def HasSuffix_iff_suffix suffix_def)
  ultimately have t: "directive_text ?s = ?s" by (simp add: directive_text_def)
  obtain m where m: "FindStringSubmatch rePadIgnoreRules ?s = Some m" "group_text m 1 = rid"
    using directive_match [OF plain(1)] by blast
  have "TrimSpace rid = rid" using assms id_char_ink by (intro TrimSpace_ink_all) (auto simp: list_all_iff)
  then show ?thesis
    unfolding parsePadIgnore_def Let_def t m(1) option.case m(2)
    using assms by (simp add: SplitByte_none [OF plain(2)] ToLower_id)
qed

section \<open>Writing a directive\<close>

text \<open>A line that starts with a hash, one blank and a letter other than R and E is a plain comment.\<close>

lemma plus_ws_once:
  "mrest st = sp # c # s \<Longrightarrow> \<not> space_char c \<Longrightarrow> outs (Plus ws) st = [advance st]"
  by (simp add: Plus_def ws_def space_char_def)

lemma star_ws_once:
  "mrest st = sp # c # s \<Longrightarrow> \<not> space_char c \<Longrightarrow> outs (Star ws) st = [advance st, st]"
  by (simp add: ws_def space_char_def)

lemma outs_star_nonempty: "outs (Star r) st \<noteq> []"
  using star_outs_last [of "length (mrest st)" "outs r" st] by auto

lemma hash_comment:
  assumes "mrest st = CHR ''#'' # sp # CHR ''p'' # s"
  shows "outs (seqs (chr (CHR ''#'') # Star ws # lit ''Region'' # rs)) st = []"
    and "outs (seqs (chr (CHR ''#'') # Star ws # lit ''End'' # rs)) st = []"
    and "outs (seqs [chr (CHR ''#''), Plus ws, Star dot]) st \<noteq> []"
proof -
  let ?a = "advance st"
  have h: "outs (chr (CHR ''#'')) st = [?a]" using assms by (simp add: chr_def)
  have a: "mrest ?a = sp # CHR ''p'' # s" using assms by simp
  have p: "\<not> space_char (CHR ''p'')" by (simp add: space_char_def)
  note ws = star_ws_once [OF a p] plus_ws_once [OF a p]
  have b: "mrest (advance ?a) = CHR ''p'' # s" using a by simp
  have l: "outs (lit (c # cs)) x = []" if "mrest x = d # y" "d \<noteq> c" for x c cs d y
    unfolding lit_def list.map outs_seqs_Cons using that by (simp add: chr_def)
  have R: "outs (lit ''Region'') (advance ?a) = []" "outs (lit ''Region'') ?a = []"
    "outs (lit ''End'') (advance ?a) = []" "outs (lit ''End'') ?a = []"
    by (rule l [OF b], simp) (rule l [OF a], simp, rule l [OF b], simp, rule l [OF a], simp)
  show "outs (seqs (chr (CHR ''#'') # Star ws # lit ''Region'' # rs)) st = []"
    "outs (seqs (chr (CHR ''#'') # Star ws # lit ''End'' # rs)) st = []"
    unfolding outs_seqs_Cons [of "chr _"] outs_seqs_Cons [of "Star ws"] outs_seqs_Cons [of "lit _"] h
    by (simp_all only: list.map concat.simps append_Nil append_Nil2 ws R)
  show "outs (seqs [chr (CHR ''#''), Plus ws, Star dot]) st \<noteq> []"
    unfolding outs_seqs_Cons h using outs_star_nonempty [of dot "advance ?a"]
    by (simp only: list.map concat.simps append_Nil2 ws outs_seqs_Cons) (simp del: outs.simps(5))
qed

lemma alts_nonempty: "r \<in> set rs \<Longrightarrow> outs r st \<noteq> [] \<Longrightarrow> outs (alts rs) st \<noteq> []"
  by (induction rs rule: alts.induct) auto

lemma classify_directive:
  assumes "lbContent b = ''# pad-ignore['' @ rid @ '']''"
  shows "classifyComment b = Some (line_token b TokComment (''pad-ignore['' @ rid @ '']'') ''COMMENT'')"
proof -
  let ?c = "''# pad-ignore['' @ rid @ '']''"
  have r: "mrest (start_state ?c) = CHR ''#'' # sp # CHR ''p'' # ''ad-ignore['' @ rid @ '']''" by simp
  have re: "\<not> MatchString reRegionStart ?c" "\<not> MatchString reRegionEnd ?c"
    unfolding reRegionStart_def reRegionEnd_def MatchString_Bot hash_comment(1) [OF r] hash_comment(2) [OF r] by simp_all
  have "outs (alts [seqs [lit_ci ''COMMENT'', Plus ws, Star dot], seqs [chr (CHR ''#''), Plus ws, Star dot],
      seqs [lit ''//'', Plus ws, Star dot]]) (start_state ?c) \<noteq> []"
    by (rule alts_nonempty [OF _ hash_comment(3) [OF r]]) simp
  then have com: "MatchString reComment ?c"
    unfolding reComment_def MatchString_Bot by (simp del: outs.simps(4) alts.simps)
  have fold: "\<not> hasPrefixFold ?c ''COMMENT''"
    by (simp add: hasPrefixFold_def EqualFold.simps char_class_simps)
  have "TrimSpace (drop 1 ?c) = ''pad-ignore['' @ rid @ '']''"
  proof -
    have "TrimSpaceLeft (drop 1 ?c) = TrimSpaceLeft (''pad-ignore['' @ rid @ '']'')"
      unfolding TrimSpaceLeft_def by (subst strip_words.simps) (simp add: space_runes_def)
    then have "TrimSpace (drop 1 ?c) = TrimSpace (''pad-ignore['' @ rid @ '']'')" by (simp only: TrimSpace_def)
    then show ?thesis
      using TrimSpace_ink(1) [of "CHR ''p''" "CHR '']''" "''ad-ignore['' @ rid"] by (simp add: ink_def space_runes_def)
  qed
  then show ?thesis
    unfolding classifyComment_def Let_def assms using re com fold by (simp del: drop_append)
qed

text \<open>The identifiers of the built-in rules: lower-case words, digits, hyphens and underscores.\<close>

definition kebab_char :: "char \<Rightarrow> bool" where
  "kebab_char c \<longleftrightarrow> is_lower c \<or> is_digit c \<or> c = CHR ''-'' \<or> c = CHR ''_''"

lemma kebab_id: "list_all kebab_char s \<Longrightarrow> list_all id_char s \<and> map lower s = s"
  by (induction s) (auto simp: kebab_char_def id_char_def lower_def is_lower_def is_upper_def is_digit_def byte_def)

text \<open>
  C36: what the suppress fix writes is what the directive parser reads. For a rule identifier of
  lower-case letters, digits, hyphens and underscores, the inserted line, met by the tokenizer
  outside a multi-line span, becomes a comment at the indentation of the block, and its text is a
  directive that names this rule, suppresses it and suppresses no other.
\<close>

theorem suppress_fix_reads_back:
  assumes "ruleID \<noteq> []" "list_all kebab_char ruleID" "\<not> inBlockComment st" "\<not> inTripleQuote st"
  shows "\<exists>tok. tz_body st (hd (poLines (hd (SuppressFindingPatch blk ruleID)))) = emit st tok \<and>
    tkKind tok = TokComment \<and> tkIndent tok = bIndent (binfo blk) \<and>
    parsePadIgnore (tkName tok) = Some (False, [ruleID]) \<and>
    (\<forall>other. ruleSetHas (mergeDirective [] (the (parsePadIgnore (tkName tok)))) other \<longleftrightarrow> other = ruleID)"
proof -
  let ?d = "''# pad-ignore['' @ ruleID @ '']''"
  let ?raw = "indentCols (binfo blk) @ ?d" and ?n = "bIndent (binfo blk)"
  have raw: "hd (poLines (hd (SuppressFindingPatch blk ruleID))) = ?raw"
    using assms(1) by (simp add: SuppressFindingPatch_def insert_before_def patch_op_def)
  have trim: "TrimRight ?raw blanks = ?raw"
    by (simp add: TrimRight_def blanks_def)
  have ind: "computeIndent (replicate k sp @ ?d) = k" "TrimLeft (replicate k sp @ ?d) [sp, tab] = ?d" for k
    by (induction k) (simp_all add: TrimLeft_def)
  define base where "base = \<lparr>lbLineNum = lineNum st, lbIndent = ?n, lbColumn = ?n + 1, lbRaw = ?raw, lbContent = ?d\<rparr>"
  have cls: "classifyLine (lineNum st) ?n (?n + 1) ?raw ?d =
      (line_token base TokComment (''pad-ignore['' @ ruleID @ '']'') ''COMMENT'')\<lparr>tkColumn := ?n + 1\<rparr>" (is "_ = ?tok")
    using classify_directive [of base ruleID] unfolding classifyLine_def classifiers_def Let_def base_def by simp
  have "tz_body st ?raw = emit st ?tok"
    unfolding tz_body_def trim Let_def using assms(3,4) cls ind [of ?n]
    by (simp add: indentCols_def line_token_def)
  moreover have "parsePadIgnore (tkName ?tok) = Some (False, [ruleID])"
    using pad_ignore_reads_back [OF assms(1)] kebab_id [OF assms(2)] by (simp add: line_token_def)
  moreover have "suppressAll \<noteq> ruleID"
    using assms(2) by (auto simp: suppressAll_def kebab_char_def is_lower_def is_digit_def byte_def)
  ultimately show ?thesis
    unfolding raw by (intro exI [of _ ?tok]) (auto simp: line_token_def base_def ruleSetHas_def)
qed

theorem suppress_fix_reads_back_witness:
  "\<exists>tok. tz_body tz_init (hd (poLines (hd (SuppressFindingPatch loop_sample ''dead-code'')))) = emit tz_init tok \<and>
     parsePadIgnore (tkName tok) = Some (False, [''dead-code''])"
proof -
  have 1: "''dead-code'' \<noteq> []" "list_all kebab_char ''dead-code''" "\<not> inBlockComment tz_init" "\<not> inTripleQuote tz_init" by code_simp+
  from suppress_fix_reads_back [OF 1, of loop_sample] show ?thesis by blast
qed

text \<open>
  A custom rule may carry upper-case letters in its identifier: the directive the fix writes for it is
  read in lower case, and the finding stays.
\<close>

theorem upper_case_rule_not_suppressed:
  "let s = collectInlineSuppressions (suppress_sample ''pad-ignore[MyRule]'') in
     \<not> suppresses s (sample_finding ''MyRule'' ''x'') \<and> suppresses s (sample_finding ''myrule'' ''x'')"
  by code_simp

end
