(* ===== verification/Report_Drift.thy ===== *)
theory Report_Drift
  imports Metrics "HOL-Library.Product_Lexorder"
begin

text \<open>
  core/analyzer/batch.go (comparison of reports) and ruleset.go with models/ruleset.go: what changed
  between two reports, which findings are new against a baseline, which of those come from rules the
  baseline never saw, and the digest that identifies a recorded rule set. SHA-256 in hexadecimal is
  the argument \<open>sha\<close>, the match digest of a custom rule the argument \<open>md\<close>; the order in which Go
  iterates over a map is the argument \<open>iter\<close>.
\<close>

section \<open>Reports against reports and baselines\<close>

definition diffKey :: "Finding \<Rightarrow> string" where
  "diffKey f = (if fFingerprint f \<noteq> [] then fFingerprint f else Key f)"

record AnalysisDiff =
  adFlowID :: string
  adAdded :: "Finding list"
  adRemoved :: "Finding list"
  adPersisted :: "Finding list"
  adAddedCount :: nat
  adRemovedCount :: nat
  adPersistedCount :: nat

type_synonym finding_map = "(string \<times> Finding) list"

definition by_key :: "Finding list \<Rightarrow> finding_map" where
  "by_key fs = foldl (\<lambda>m f. AList.update (diffKey f) f m) [] fs"

definition DiffReports :: "(finding_map \<Rightarrow> finding_map) \<Rightarrow> AnalysisReport \<Rightarrow> AnalysisReport \<Rightarrow> AnalysisDiff" where
  "DiffReports iter old new =
     (let oldMap = by_key (arFindings old); newMap = by_key (arFindings new);
          persisted = map snd (filter (\<lambda>(k, f). map_of oldMap k \<noteq> None) (iter newMap));
          added = map snd (filter (\<lambda>(k, f). map_of oldMap k = None) (iter newMap));
          removed = map snd (filter (\<lambda>(k, f). map_of newMap k = None) (iter oldMap))
      in \<lparr>adFlowID = arFlowID new, adAdded = added, adRemoved = removed, adPersisted = persisted,
          adAddedCount = length added, adRemovedCount = length removed, adPersistedCount = length persisted\<rparr>)"

record BaselineDrift =
  bdFlowID :: string
  bdHasBaseline :: bool
  bdNew :: "Finding list"
  bdNewErrors :: nat
  bdNewWarnings :: nat
  bdNewInfo :: nat
  bdNewRuleIDs :: "string list"
  bdNewFromNewRules :: nat
  bdPreview :: nat

definition drift_step :: "string list \<Rightarrow> BaselineDrift \<Rightarrow> Finding \<Rightarrow> BaselineDrift" where
  "drift_step base drift f =
     (if fFingerprint f \<in> set base \<or> Key f \<in> set base then drift
      else
        (let drift = drift\<lparr>bdNew := bdNew drift @ [f]\<rparr> in
         if fSeverity f = SeverityError then drift\<lparr>bdNewErrors := bdNewErrors drift + 1\<rparr>
         else if fSeverity f = SeverityWarning then drift\<lparr>bdNewWarnings := bdNewWarnings drift + 1\<rparr>
         else if fSeverity f = SeverityInfo then drift\<lparr>bdNewInfo := bdNewInfo drift + 1\<rparr>
         else drift))"

definition ComputeDrift :: "string \<Rightarrow> AnalysisReport option \<Rightarrow> string list option \<Rightarrow> BaselineDrift" where
  "ComputeDrift flowID report baselineKeys =
     (let drift = \<lparr>bdFlowID = flowID, bdHasBaseline = (baselineKeys \<noteq> None), bdNew = [], bdNewErrors = 0,
            bdNewWarnings = 0, bdNewInfo = 0, bdNewRuleIDs = [], bdNewFromNewRules = 0, bdPreview = 0\<rparr>
      in case report of
           None \<Rightarrow> drift
         | Some r \<Rightarrow> foldl (drift_step (case baselineKeys of None \<Rightarrow> [] | Some ks \<Rightarrow> ks)) drift (arFindings r))"

section \<open>Rule sets\<close>

datatype RuleRef = RuleRef (refID: string) (refRev: string) (refStage: string)

text \<open>\<open>compareRuleRefs\<close> orders by identifier, revision and stage; \<open>cmp.Compare\<close> on strings is the byte order.\<close>

definition cmpCompare :: "string \<Rightarrow> string \<Rightarrow> int" where
  "cmpCompare a b = (if a < b then -1 else if a > b then 1 else 0)"

definition compareRuleRefs :: "RuleRef \<Rightarrow> RuleRef \<Rightarrow> int" where
  "compareRuleRefs a b =
     (if cmpCompare (refID a) (refID b) \<noteq> 0 then cmpCompare (refID a) (refID b)
      else if cmpCompare (refRev a) (refRev b) \<noteq> 0 then cmpCompare (refRev a) (refRev b)
      else cmpCompare (refStage a) (refStage b))"

lemma compareRuleRefs_less:
  "compareRuleRefs a b < 0 \<longleftrightarrow> (refID a, refRev a, refStage a) < (refID b, refRev b, refStage b)"
  "compareRuleRefs a b \<le> 0 \<longleftrightarrow> (refID a, refRev a, refStage a) \<le> (refID b, refRev b, refStage b)"
  by (auto simp: compareRuleRefs_def cmpCompare_def)

instantiation RuleRef :: linorder
begin

definition less_eq_RuleRef :: "RuleRef \<Rightarrow> RuleRef \<Rightarrow> bool" where
  "less_eq_RuleRef a b \<longleftrightarrow> compareRuleRefs a b \<le> 0"

definition less_RuleRef :: "RuleRef \<Rightarrow> RuleRef \<Rightarrow> bool" where
  "less_RuleRef a b \<longleftrightarrow> compareRuleRefs a b < 0"

instance
proof
  fix x y z :: RuleRef
  show "x < y \<longleftrightarrow> x \<le> y \<and> \<not> y \<le> x" "x \<le> x" "x \<le> y \<or> y \<le> x"
    unfolding less_eq_RuleRef_def less_RuleRef_def compareRuleRefs_less by auto
  show "x \<le> y \<Longrightarrow> y \<le> z \<Longrightarrow> x \<le> z"
    unfolding less_eq_RuleRef_def compareRuleRefs_less by (rule order_trans)
  show "x \<le> y \<Longrightarrow> y \<le> x \<Longrightarrow> x = y"
    unfolding less_eq_RuleRef_def compareRuleRefs_less by (metis RuleRef.expand order_antisym prod.inject)
qed

end

record RuleSet =
  rsRules :: "RuleRef list"
  rsDigest :: string

definition ruleSetDigestPrefix :: string where
  "ruleSetDigestPrefix = ''rs1:''"

definition ref_field :: "string \<Rightarrow> string" where
  "ref_field s = decimal (length s) @ '':'' @ s"

definition ref_bytes :: "RuleRef \<Rightarrow> string" where
  "ref_bytes r = ref_field (refID r) @ ref_field (refRev r) @ ref_field (refStage r)"

text \<open>What is written to the hash.\<close>

definition digest_input :: "RuleRef list \<Rightarrow> string" where
  "digest_input refs = concat (map ref_bytes (remdups_adj (sort refs)))"

definition ruleSetOf :: "(string \<Rightarrow> string) \<Rightarrow> RuleRef list \<Rightarrow> RuleSet" where
  "ruleSetOf sha refs = \<lparr>rsRules = remdups_adj (sort refs), rsDigest = ruleSetDigestPrefix @ sha (digest_input refs)\<rparr>"

definition ruleRef :: "ruleMetaTable \<Rightarrow> (Rule \<Rightarrow> string) \<Rightarrow> Rule \<Rightarrow> RuleRef" where
  "ruleRef t md r =
     (let (revision, stage) =
        (if ruCustom r then (md r, StageStable)
         else (case map_of t (ruID r) of
             None \<Rightarrow> ([], [])
           | Some m \<Rightarrow> (if mRevision m > 1 then ''r'' @ decimal (nat (mRevision m)) else [], mStage m)))
      in RuleRef (ruID r) revision (if stage = StagePreview then StagePreview else []))"

definition RecordRuleSet :: "(string \<Rightarrow> string) \<Rightarrow> ruleMetaTable \<Rightarrow> (Rule \<Rightarrow> string) \<Rightarrow> Rule list \<Rightarrow> RuleSet" where
  "RecordRuleSet sha t md rules = ruleSetOf sha (map (ruleRef t md) rules)"

definition builtinRev :: "string \<Rightarrow> bool" where
  "builtinRev v =
     (case v of [] \<Rightarrow> True | c # n \<Rightarrow> c = CHR ''r'' \<and> n \<noteq> [] \<and> list_all is_digit n)"

definition KnownToLegacyRecords :: "ruleMetaTable \<Rightarrow> RuleRef \<Rightarrow> bool" where
  "KnownToLegacyRecords t ref =
     (if \<not> builtinRev (refRev ref) then True
      else (case map_of t (refID ref) of None \<Rightarrow> True | Some m \<Rightarrow> mIntroducedIn m \<le> 1 \<and> mRevision m \<le> 1))"

type_synonym RuleAge = "(string \<times> bool) list"

definition age_step :: "(RuleRef \<Rightarrow> bool) \<Rightarrow> RuleAge \<Rightarrow> RuleRef \<Rightarrow> RuleAge" where
  "age_step isNew a ref =
     AList.update (refID ref) (case map_of a (refID ref) of None \<Rightarrow> isNew ref | Some prev \<Rightarrow> prev \<and> isNew ref) a"

definition NewRuleAge :: "(string \<Rightarrow> string) \<Rightarrow> ruleMetaTable \<Rightarrow> RuleSet option \<Rightarrow> RuleSet option \<Rightarrow> RuleAge" where
  "NewRuleAge sha t recorded currentSet =
     (case currentSet of
        None \<Rightarrow> []
      | Some cur \<Rightarrow>
          if (case recorded of None \<Rightarrow> False | Some rc \<Rightarrow> rsDigest rc = rsDigest cur) then []
          else
            (let legacy = (case recorded of None \<Rightarrow> True | Some rc \<Rightarrow> rsDigest (ruleSetOf sha (rsRules rc)) \<noteq> rsDigest rc);
                 seen = (case recorded of None \<Rightarrow> [] | Some rc \<Rightarrow> rsRules rc);
                 isNew = (\<lambda>ref. if legacy then \<not> KnownToLegacyRecords t ref else ref \<notin> set seen)
             in foldl (age_step isNew) [] (rsRules cur)))"

definition IsNew :: "RuleAge \<Rightarrow> Finding \<Rightarrow> bool" where
  "IsNew a f = (case map_of a (fRuleID f) of None \<Rightarrow> False | Some b \<Rightarrow> b)"

section \<open>Splitting drift\<close>

record DriftSplit =
  dsDrift :: "Finding list"
  dsNewRule :: "Finding list"
  dsPreview :: "Finding list"
  dsNewRuleIDs :: "string list"

definition split_step :: "ruleMetaTable \<Rightarrow> RuleAge \<Rightarrow> DriftSplit \<Rightarrow> Finding \<Rightarrow> DriftSplit" where
  "split_step t age s f =
     (if \<not> gates t f then s\<lparr>dsPreview := dsPreview s @ [f]\<rparr>
      else if IsNew age f then
        s\<lparr>dsNewRule := dsNewRule s @ [f],
          dsNewRuleIDs := (if fRuleID f \<in> set (dsNewRuleIDs s) then dsNewRuleIDs s else dsNewRuleIDs s @ [fRuleID f])\<rparr>
      else s\<lparr>dsDrift := dsDrift s @ [f]\<rparr>)"

definition SplitDrift :: "ruleMetaTable \<Rightarrow> Finding list \<Rightarrow> RuleAge \<Rightarrow> DriftSplit" where
  "SplitDrift t fs age =
     (let s = foldl (split_step t age) \<lparr>dsDrift = [], dsNewRule = [], dsPreview = [], dsNewRuleIDs = []\<rparr> fs
      in s\<lparr>dsNewRuleIDs := sort (dsNewRuleIDs s)\<rparr>)"

definition Annotate :: "DriftSplit \<Rightarrow> BaselineDrift \<Rightarrow> BaselineDrift" where
  "Annotate s d = d\<lparr>bdNewRuleIDs := dsNewRuleIDs s, bdNewFromNewRules := length (dsNewRule s), bdPreview := length (dsPreview s)\<rparr>"

section \<open>The digest\<close>

lemma decimal_digits: "set (decimal n) \<subseteq> {c. is_digit c}"
proof (induction n rule: decimal.induct)
  case (1 n)
  have "is_digit (char_of (48 + m))" if "m < 10" for m :: nat
    using that by (simp add: is_digit_def byte_def take_bit_eq_mod)
  then have d: "is_digit (char_of (48 + n mod 10))" by simp
  show ?case
  proof (cases "n < 10")
    case True
    with d show ?thesis by (subst decimal.simps) auto
  next
    case False
    with 1 d show ?thesis by (subst decimal.simps) auto
  qed
qed

lemma ref_field_inj: "ref_field a @ xs = ref_field b @ ys \<Longrightarrow> a = b \<and> xs = ys"
proof -
  assume eq: "ref_field a @ xs = ref_field b @ ys"
  have tw: "takeWhile (\<lambda>c. c \<noteq> CHR '':'') (ref_field s @ zs) = decimal (length s)" for s zs
  proof -
    have "\<forall>c \<in> set (decimal (length s)). c \<noteq> CHR '':''" using decimal_digits [of "length s"] by (auto simp: is_digit_def byte_def)
    then have "takeWhile (\<lambda>c. c \<noteq> CHR '':'') (decimal (length s) @ CHR '':'' # s @ zs) = decimal (length s)"
      by (subst takeWhile_append2) auto
    then show ?thesis by (simp add: ref_field_def)
  qed
  have "decimal (length a) = decimal (length b)" using tw [of a xs] tw [of b ys] unfolding eq by simp
  then have len: "length a = length b" by (metis digits_value_decimal)
  with eq show ?thesis by (simp add: ref_field_def)
qed

lemma ref_bytes_inj: "ref_bytes a @ xs = ref_bytes b @ ys \<Longrightarrow> a = b \<and> xs = ys"
  unfolding ref_bytes_def append_assoc by (metis RuleRef.expand ref_field_inj)

lemma ref_bytes_nonempty: "ref_bytes r \<noteq> []"
  by (simp add: ref_bytes_def ref_field_def)

lemma refs_bytes_inj: "concat (map ref_bytes rs) = concat (map ref_bytes qs) \<Longrightarrow> rs = qs"
proof (induction rs arbitrary: qs)
  case Nil
  then show ?case using ref_bytes_nonempty by (cases qs) auto
next
  case (Cons r rs)
  then obtain q qs' where qs: "qs = q # qs'" using ref_bytes_nonempty by (cases qs) auto
  with Cons.prems ref_bytes_inj [of r "concat (map ref_bytes rs)" q "concat (map ref_bytes qs')"]
  have "r = q" "concat (map ref_bytes rs) = concat (map ref_bytes qs')" by simp_all
  with Cons.IH qs show ?case by simp
qed

lemma sorted_refs_set: "remdups_adj (sort rs) = sorted_list_of_set (set (rs :: RuleRef list))"
proof -
  have "sorted (remdups_adj (sort rs))" by (simp add: sorted_remdups_adj)
  moreover have "sorted xs \<Longrightarrow> distinct (remdups_adj xs)" for xs :: "RuleRef list"
    by (induction xs rule: remdups_adj.induct) (auto simp: less_le)
  then have "distinct (remdups_adj (sort rs))" by simp
  ultimately show ?thesis
    by (intro sorted_distinct_set_unique) (simp_all add: remdups_adj_set)
qed

lemma sorted_refs: "sorted (remdups_adj (sort rs))" "distinct (remdups_adj (sort rs))"
    "set (remdups_adj (sort rs)) = set rs" for rs :: "RuleRef list"
  by (simp_all add: sorted_refs_set)

lemma digest_input_eq: "digest_input a = digest_input b \<longleftrightarrow> set a = set b"
proof
  assume "digest_input a = digest_input b"
  then have "remdups_adj (sort a) = remdups_adj (sort b)" unfolding digest_input_def by (rule refs_bytes_inj)
  then show "set a = set b" by (metis sorted_refs(3))
qed (simp add: digest_input_def sorted_refs_set)

lemma digest_input_idem: "digest_input (remdups_adj (sort a)) = digest_input a"
  by (simp add: digest_input_eq sorted_refs(3))

text \<open>
  C29: a rule set is identified by its digest. The bytes that are hashed are equal for two lists of rule
  references exactly when they hold the same references, whatever their order and repetitions, so
  only a collision of the hash can identify different sets; and the rules of a recorded set hash to
  its digest again, so an intact record is never taken for a legacy one.
\<close>

theorem rule_set_digest_identifies:
  "(digest_input a = digest_input b \<longleftrightarrow> set a = set b) \<and> set (rsRules (ruleSetOf sha a)) = set a \<and>
     ruleSetOf sha (rsRules (ruleSetOf sha a)) = ruleSetOf sha a"
  by (simp add: digest_input_eq ruleSetOf_def digest_input_idem) (simp add: sorted_refs_set)

section \<open>Rule age\<close>

lemma age_run:
  "map_of (foldl (age_step isNew) a refs) k =
     (let mine = filter (\<lambda>ref. refID ref = k) refs in
      if mine = [] then map_of a k
      else Some ((case map_of a k of None \<Rightarrow> True | Some b \<Rightarrow> b) \<and> list_all isNew mine))"
proof (induction refs arbitrary: a)
  case (Cons ref refs)
  show ?case unfolding foldl_Cons Cons.IH by (auto simp: age_step_def AList.update_conv' Let_def split: option.split)
qed simp

text \<open>
  which rules a recorded set does not know. With an intact record whose digest does not collide with
  the current one, a finding counts as coming from a new rule exactly when the current set names its
  rule and the record holds none of the references under that identifier: a revised or promoted rule
  is new, a rule of which one variant was recorded is not, and a rule the current set does not name
  stays drift.
\<close>

theorem rule_age_exact:
  assumes "sha (digest_input recorded) = sha (digest_input cur) \<Longrightarrow> digest_input recorded = digest_input cur"
  shows "IsNew (NewRuleAge sha t (Some (ruleSetOf sha recorded)) (Some (ruleSetOf sha cur))) f \<longleftrightarrow>
    (let mine = filter (\<lambda>ref. refID ref = fRuleID f) cur in mine \<noteq> [] \<and> list_all (\<lambda>ref. ref \<notin> set recorded) mine)"
proof -
  let ?cur = "remdups_adj (sort cur)"
  let ?mine = "filter (\<lambda>ref. refID ref = fRuleID f) cur"
  have mine: "set (filter (\<lambda>ref. refID ref = fRuleID f) ?cur) = set ?mine" by (simp add: sorted_refs(3))
  show ?thesis
  proof (cases "sha (digest_input recorded) = sha (digest_input cur)")
    case True
    with assms digest_input_eq [of recorded cur] have "set recorded = set cur" by blast
    with True show ?thesis by (auto simp: NewRuleAge_def IsNew_def ruleSetOf_def Let_def list_all_iff filter_empty_conv)
  next
    case False
    then have age: "NewRuleAge sha t (Some (ruleSetOf sha recorded)) (Some (ruleSetOf sha cur)) =
        foldl (age_step (\<lambda>ref. ref \<notin> set recorded)) [] ?cur"
      by (simp add: NewRuleAge_def ruleSetOf_def Let_def digest_input_idem sorted_refs(3))
    have "filter (\<lambda>ref. refID ref = fRuleID f) ?cur = [] \<longleftrightarrow> ?mine = []"
      by (metis mine set_empty)
    moreover have "list_all (\<lambda>ref. ref \<notin> set recorded) (filter (\<lambda>ref. refID ref = fRuleID f) ?cur) \<longleftrightarrow>
        list_all (\<lambda>ref. ref \<notin> set recorded) ?mine" unfolding list_all_iff mine by (rule refl)
    ultimately show ?thesis unfolding age IsNew_def age_run Let_def by simp
  qed
qed

theorem rule_age_exact_witness:
  "IsNew (NewRuleAge (\<lambda>s. s) [] (Some (ruleSetOf (\<lambda>s. s) [RuleRef ''dead-code'' [] []]))
     (Some (ruleSetOf (\<lambda>s. s) [RuleRef ''dead-code'' ''r2'' [], RuleRef ''parse-error'' [] []])))
     (no_finding\<lparr>fRuleID := ''dead-code''\<rparr>)"
  using rule_age_exact [of "\<lambda>s. s" "[RuleRef ''dead-code'' [] []]" "[RuleRef ''dead-code'' ''r2'' [], RuleRef ''parse-error'' [] []]"
      "[]" "no_finding\<lparr>fRuleID := ''dead-code''\<rparr>"] by (simp add: Let_def)

section \<open>Drift\<close>

lemma drift_run:
  "bdNew (foldl (drift_step base) d fs) = bdNew d @ filter (\<lambda>f. fFingerprint f \<notin> set base \<and> Key f \<notin> set base) fs"
  "bdNewErrors (foldl (drift_step base) d fs) = bdNewErrors d +
     length (filter (\<lambda>f. fFingerprint f \<notin> set base \<and> Key f \<notin> set base \<and> fSeverity f = SeverityError) fs)"
  by (induction fs arbitrary: d) (auto simp: drift_step_def Let_def SeverityError_def SeverityWarning_def SeverityInfo_def)

lemma split_run:
  "dsDrift (foldl (split_step t age) s fs) = dsDrift s @ filter (\<lambda>f. gates t f \<and> \<not> IsNew age f) fs"
  "dsNewRule (foldl (split_step t age) s fs) = dsNewRule s @ filter (\<lambda>f. gates t f \<and> IsNew age f) fs"
  "dsPreview (foldl (split_step t age) s fs) = dsPreview s @ filter (\<lambda>f. \<not> gates t f) fs"
  "set (dsNewRuleIDs (foldl (split_step t age) s fs)) = set (dsNewRuleIDs s) \<union> fRuleID ` set (filter (\<lambda>f. gates t f \<and> IsNew age f) fs)"
  "distinct (dsNewRuleIDs s) \<Longrightarrow> distinct (dsNewRuleIDs (foldl (split_step t age) s fs))"
  by (induction fs arbitrary: s) (auto simp: split_step_def)

text \<open>
  C30: drift against a baseline. The new findings are, in order, those whose fingerprint and key the
  baseline both lacks; the split hands each of them to exactly one of drift, new rules and preview,
  and names the new rules once each in order; the annotated counts are the sizes of those parts. A
  report measured against its own keys has no new finding.
\<close>

theorem baseline_drift_exact:
  "let d = ComputeDrift flowID (Some r) (Some ks); s = SplitDrift t (bdNew d) age; a = Annotate s d in
     bdNew d = filter (\<lambda>f. fFingerprint f \<notin> set ks \<and> Key f \<notin> set ks) (arFindings r) \<and>
     bdNewErrors d = length (filter (\<lambda>f. fSeverity f = SeverityError) (bdNew d)) \<and>
     dsDrift s = filter (\<lambda>f. gates t f \<and> \<not> IsNew age f) (bdNew d) \<and>
     dsNewRule s = filter (\<lambda>f. gates t f \<and> IsNew age f) (bdNew d) \<and>
     mset (dsDrift s) + mset (dsNewRule s) + mset (dsPreview s) = mset (bdNew d) \<and>
     set (bdNewRuleIDs a) = fRuleID ` set (dsNewRule s) \<and> sorted (bdNewRuleIDs a) \<and> distinct (bdNewRuleIDs a) \<and>
     length (dsDrift s) + bdNewFromNewRules a + bdPreview a = length (bdNew d) \<and>
     bdNew (ComputeDrift flowID (Some r) (Some (map diffKey (arFindings r)))) = []"
proof -
  let ?d = "ComputeDrift flowID (Some r) (Some ks)"
  let ?s = "SplitDrift t (bdNew ?d) age"
  have new: "bdNew (ComputeDrift flowID (Some r) (Some ks)) =
      filter (\<lambda>f. fFingerprint f \<notin> set ks \<and> Key f \<notin> set ks) (arFindings r)" for ks
    by (simp add: ComputeDrift_def Let_def drift_run)
  have err: "bdNewErrors ?d = length (filter (\<lambda>f. fSeverity f = SeverityError) (bdNew ?d))"
    unfolding new by (simp add: ComputeDrift_def Let_def drift_run conj_comms conj_assoc)
  have s: "dsDrift ?s = filter (\<lambda>f. gates t f \<and> \<not> IsNew age f) (bdNew ?d)"
    "dsNewRule ?s = filter (\<lambda>f. gates t f \<and> IsNew age f) (bdNew ?d)"
    "dsPreview ?s = filter (\<lambda>f. \<not> gates t f) (bdNew ?d)"
    "set (dsNewRuleIDs ?s) = fRuleID ` set (dsNewRule ?s)" "sorted (dsNewRuleIDs ?s)" "distinct (dsNewRuleIDs ?s)"
    by (simp_all add: SplitDrift_def Let_def split_run)
  have "mset (filter (\<lambda>f. gates t f \<and> \<not> IsNew age f) fs) + mset (filter (\<lambda>f. gates t f \<and> IsNew age f) fs) +
      mset (filter (\<lambda>f. \<not> gates t f) fs) = mset fs" for fs by (induction fs) auto
  then have parts: "mset (dsDrift ?s) + mset (dsNewRule ?s) + mset (dsPreview ?s) = mset (bdNew ?d)" unfolding s .
  have "length (dsDrift ?s) + length (dsNewRule ?s) + length (dsPreview ?s) = length (bdNew ?d)"
    using arg_cong [OF parts, of size] by simp
  moreover have "bdNew (ComputeDrift flowID (Some r) (Some (map diffKey (arFindings r)))) = []"
    unfolding new by (auto simp: filter_empty_conv diffKey_def image_iff)
  ultimately show ?thesis using new err s parts by (simp add: Let_def Annotate_def)
qed

section \<open>Differences of reports\<close>

lemma by_key_props:
  "distinct (map fst (by_key fs)) \<and> set (map fst (by_key fs)) = diffKey ` set fs \<and>
     (\<forall>(k, f) \<in> set (by_key fs). diffKey f = k \<and> f \<in> set fs)"
proof (induction fs rule: rev_induct)
  case (snoc f fs)
  have eq: "by_key (fs @ [f]) = AList.update (diffKey f) f (by_key fs)" by (simp add: by_key_def)
  have "set (AList.update k v m) \<subseteq> insert (k, v) (set m)" for k :: string and v :: Finding and m by (induction m) auto
  from this [of "diffKey f" f "by_key fs"]
  have "\<forall>(k, g) \<in> set (AList.update (diffKey f) f (by_key fs)). diffKey g = k \<and> g \<in> set (fs @ [f])"
    using snoc by fastforce
  with snoc show ?case unfolding eq by (simp add: distinct_update dom_update)
qed (simp add: by_key_def)

lemma snd_keys: "\<forall>(k, f) \<in> set xs. diffKey f = k \<Longrightarrow> map diffKey (map snd xs) = map fst xs"
  by (induction xs) auto

text \<open>The part of a map that a test on the key selects.\<close>

lemma by_key_part:
  assumes "mset it = mset (by_key fs)"
  defines "part \<equiv> \<lambda>P. filter (\<lambda>(k, f). P k) it"
  shows "diffKey ` set (map snd (part P)) = {k \<in> diffKey ` set fs. P k}" "set (map snd (part P)) \<subseteq> set fs"
    and "length (part P) = card {k \<in> diffKey ` set fs. P k}"
proof -
  note b = by_key_props [of fs]
  have set: "set it = set (by_key fs)" using assms(1) by (rule mset_eq_setD)
  have keys: "map diffKey (map snd (part P)) = map fst (part P)" using b by (intro snd_keys) (auto simp: part_def set)
  have ks: "set (map fst (part P)) = {k \<in> set (map fst it). P k}" by (auto simp: part_def image_iff Bex_def)
  also have "set (map fst it) = diffKey ` set fs" using b set by simp
  finally have ks: "set (map fst (part P)) = {k \<in> diffKey ` set fs. P k}" .
  show "diffKey ` set (map snd (part P)) = {k \<in> diffKey ` set fs. P k}"
    using arg_cong [OF keys, of set] ks by (simp add: image_image)
  show "set (map snd (part P)) \<subseteq> set fs" using b by (auto simp: part_def set)
  have "mset (map fst it) = mset (map fst (by_key fs))" using assms(1) by simp
  from mset_eq_imp_distinct_iff [OF this] b have "distinct (map fst it)" by simp
  then have "distinct (map fst (part P))" unfolding part_def by (rule distinct_map_filter)
  from distinct_card [OF this] show "length (part P) = card {k \<in> diffKey ` set fs. P k}" unfolding ks by simp
qed

text \<open>
  the diff of two reports partitions their keys. However Go iterates over the two maps, the added
  findings are one for each key only the new report has, the removed ones one for each key only the
  old report has, and the persisted ones one for each key of both, taken from the new report.
\<close>

theorem diff_reports_partition:
  assumes "\<And>m. mset (iter m) = mset m"
  shows "let d = DiffReports iter old new; ko = diffKey ` set (arFindings old); kn = diffKey ` set (arFindings new) in
    diffKey ` set (adAdded d) = kn - ko \<and> diffKey ` set (adRemoved d) = ko - kn \<and> diffKey ` set (adPersisted d) = kn \<inter> ko \<and>
    set (adAdded d) \<union> set (adPersisted d) \<subseteq> set (arFindings new) \<and> set (adRemoved d) \<subseteq> set (arFindings old) \<and>
    adAddedCount d = card (kn - ko) \<and> adRemovedCount d = card (ko - kn) \<and> adPersistedCount d = card (kn \<inter> ko)"
proof -
  note part = by_key_part [OF assms]
  have none: "map_of (by_key fs) k = None \<longleftrightarrow> k \<notin> diffKey ` set fs" for fs k
    using by_key_props [of fs] by (simp add: map_of_eq_None_iff)
  have sets: "{k \<in> A. k \<notin> B} = A - B" "{k \<in> A. k \<in> B} = A \<inter> B" for A B :: "string set" by auto
  show ?thesis
    using part [where fs = "arFindings new" and P = "\<lambda>k. k \<notin> diffKey ` set (arFindings old)", unfolded sets]
      part [where fs = "arFindings new" and P = "\<lambda>k. k \<in> diffKey ` set (arFindings old)", unfolded sets]
      part [where fs = "arFindings old" and P = "\<lambda>k. k \<notin> diffKey ` set (arFindings new)", unfolded sets]
    unfolding DiffReports_def Let_def none not_not AnalysisDiff.simps length_map by simp
qed

definition sample_report :: "string list \<Rightarrow> AnalysisReport" where
  "sample_report ks = \<lparr>arFlowID = ''f'', arFlowName = ''f'', arFindings = map (\<lambda>k. no_finding\<lparr>fFingerprint := k\<rparr>) ks,
     arStats = computeStats [], arProfiles = []\<rparr>"

theorem diff_reports_partition_witness:
  "adAddedCount (DiffReports rev (sample_report [''a'', ''b'']) (sample_report [''b'', ''c'', ''c''])) = 1 \<and>
   adRemovedCount (DiffReports rev (sample_report [''a'', ''b'']) (sample_report [''b'', ''c'', ''c''])) = 1"
proof -
  have "diffKey ` set (arFindings (sample_report ks)) = set ks" if "[] \<notin> set ks" for ks
    using that by (force simp: sample_report_def diffKey_def)
  then have "diffKey ` set (arFindings (sample_report [''a'', ''b''])) = {''a'', ''b''}"
    "diffKey ` set (arFindings (sample_report [''b'', ''c'', ''c''])) = {''b'', ''c''}" by simp_all
  moreover have "{''b'', ''c''} - {''a'', ''b''} = {''c''}" "{''a'', ''b''} - {''b'', ''c''} = {''a''}" by auto
  ultimately show ?thesis
    using diff_reports_partition [of rev "sample_report [''a'', ''b'']" "sample_report [''b'', ''c'', ''c'']"]
    by (simp add: Let_def)
qed

end
