(* ===== verification/Fix_Loop.thy ===== *)
theory Fix_Loop
  imports Patch_Correct Engine_Correct Report_Drift
begin

text \<open>
  core/analyzer/apply_fixes.go: the loop that parses, analyses, applies one accepted fix and starts
  over. The \<open>k\<close>-th parse of a run draws its identifiers from \<open>feUuids k\<close>; the context is the pair of
  oracles \<open>feStopBefore\<close> and \<open>feStopAfter\<close>, consulted before an iteration and after its analysis, and the
  engine environment of every iteration. \<open>AllRules\<close> and \<open>DefaultSettings\<close> are fields of the
  environment, since not every built-in rule is part of the model. The calls of \<open>OnFix\<close> are a log.
\<close>

section \<open>Selection\<close>

definition mayEmitAutoFix :: "ruleMetaTable \<Rightarrow> Rule \<Rightarrow> bool" where
  "mayEmitAutoFix t r \<longleftrightarrow>
     (case map_of t (ruID r) of None \<Rightarrow> False | Some m \<Rightarrow> mAutoFix m \<noteq> [] \<or> mDirectFixes m \<noteq> []) \<or>
     ruCustom r \<and> ruAutoFix r \<noteq> []"

definition AutoFixableRules :: "ruleMetaTable \<Rightarrow> Rule list \<Rightarrow> Rule list" where
  "AutoFixableRules t rules = filter (mayEmitAutoFix t) rules"

record FixOptions =
  foRuleFilter :: "string list option"
  foSettings :: AppSettings
  foRules :: "Rule list option"
  foLimit :: nat
  foIncludeBehaviourChanging :: bool

record fix_env =
  feEngine :: "nat \<Rightarrow> engine_env"
  feAllRules :: "Rule list"
  feDefaults :: AppSettings
  feUuids :: "nat \<Rightarrow> nat \<Rightarrow> string"
  feStopBefore :: "nat \<Rightarrow> bool"
  feStopAfter :: "nat \<Rightarrow> bool"
  feSorter :: op_sorter

definition settingsOrDefault :: "fix_env \<Rightarrow> FixOptions \<Rightarrow> AppSettings" where
  "settingsOrDefault env opts = (case foSettings opts of None \<Rightarrow> feDefaults env | Some s \<Rightarrow> Some s)"

definition eligible :: "FixOptions \<Rightarrow> Finding \<Rightarrow> bool" where
  "eligible opts f \<longleftrightarrow> fAutoFix f \<noteq> [] \<and>
     (case foRuleFilter opts of None \<Rightarrow> True | Some rs \<Rightarrow> fRuleID f \<in> set rs) \<and>
     (foIncludeBehaviourChanging opts \<or> \<not> IsBehaviourChangingFix (fAutoFix f))"

definition meta_string :: "Finding \<Rightarrow> string \<Rightarrow> string" where
  "meta_string f k = (case map_of (fMetadata f) k of Some (MetaString s) \<Rightarrow> s | _ \<Rightarrow> [])"

definition CountParseErrors :: "FlowDocument option \<Rightarrow> nat" where
  "CountParseErrors od =
     (case od of
        None \<Rightarrow> 2 ^ 30
      | Some doc \<Rightarrow> length (filter (\<lambda>e. peSeverity e = ''error'') (ParseErrors doc)))"

text \<open>The pool a fix has to shrink, and the first finding whose fixer accepts the work.\<close>

definition fixable_count :: "FixOptions \<Rightarrow> string list \<Rightarrow> Finding list \<Rightarrow> nat" where
  "fixable_count opts skipped fs = length (filter (\<lambda>f. eligible opts f \<and> diffKey f \<notin> set skipped) fs)"

fun pick_fix ::
    "FixOptions \<Rightarrow> FlowDocument \<Rightarrow> string list \<Rightarrow> Finding list \<Rightarrow> (Finding \<times> Block \<times> Patch) option \<times> string list" where
  "pick_fix opts doc skipped [] = (None, skipped)"
| "pick_fix opts doc skipped (f # fs) =
     (if \<not> eligible opts f \<or> diffKey f \<in> set skipped then pick_fix opts doc skipped fs
      else
        (case map_of (BlocksByID doc) (fBlockID f) of
           None \<Rightarrow> pick_fix opts doc skipped fs
         | Some block \<Rightarrow>
             (case PatchForFix block (fAutoFix f) (fRuleID f) (meta_string f ''variable'') (meta_string f ''property'') of
                None \<Rightarrow> pick_fix opts doc (diffKey f # skipped) fs
              | Some candidate \<Rightarrow>
                  if candidate = [] then pick_fix opts doc (diffKey f # skipped) fs
                  else (Some (f, block, candidate), skipped))))"

section \<open>The loop\<close>

definition fixLoopStallLimit :: nat where
  "fixLoopStallLimit = 3"

text \<open>\<open>flMin\<close>: \<open>None\<close> is the initial -1. \<open>flParses\<close> counts the parses of the run.\<close>

record fixLoop =
  flSource :: string
  flDoc :: "FlowDocument option"
  flFixed :: nat
  flBefore :: nat
  flSkipped :: "string list"
  flLastSig :: string
  flStall :: nat
  flMin :: "nat option"
  flCurrent :: bool
  flLog :: "(string \<times> string \<times> nat) list"
  flParses :: nat

datatype loop_exit = LoopDone | LoopInterrupted | LoopParseFailed ParseFailure

definition note_pool :: "nat \<Rightarrow> fixLoop \<Rightarrow> fixLoop" where
  "note_pool fixable st =
     (case flMin st of
        None \<Rightarrow> st\<lparr>flMin := Some fixable, flStall := 0\<rparr>
      | Some m \<Rightarrow> if fixable < m then st\<lparr>flMin := Some fixable, flStall := 0\<rparr> else st\<lparr>flStall := flStall st + 1\<rparr>)"

definition apply_pick :: "fix_env \<Rightarrow> fixLoop \<Rightarrow> Finding \<times> Block \<times> Patch \<Rightarrow> fixLoop" where
  "apply_pick env st pk =
     (case pk of (f, block, patch) \<Rightarrow>
      st\<lparr>flLastSig := diffKey f, flLog := flLog st @ [(fRuleID f, fAutoFix f, bLineNumber (binfo block))],
         flSource := fst (ApplyPatch (feSorter env) (flSource st) patch), flFixed := flFixed st + 1, flCurrent := False\<rparr>)"

definition iteration_report :: "fix_env \<Rightarrow> FixOptions \<Rightarrow> nat \<Rightarrow> FlowDocument \<Rightarrow> Finding list" where
  "iteration_report env opts iter doc =
     (let rules = (case foRules opts of None \<Rightarrow> feAllRules env | Some rs \<Rightarrow> rs); e = feEngine env iter in
      arFindings (RunAnalysis e doc (AutoFixableRules (envMeta e) rules) (settingsOrDefault env opts)))"

text \<open>One iteration after the context check: the next state, or the exit of the loop.\<close>

definition fix_iteration :: "fix_env \<Rightarrow> FixOptions \<Rightarrow> string \<Rightarrow> nat \<Rightarrow> fixLoop \<Rightarrow> fixLoop \<times> loop_exit option" where
  "fix_iteration env opts fileName iter st =
     (case ParseText (feUuids env (flParses st)) (flSource st) fileName (length (flSource st)) of
        Inl e \<Rightarrow> (st\<lparr>flParses := flParses st + 1\<rparr>, Some (LoopParseFailed e))
      | Inr doc \<Rightarrow>
          (let st = st\<lparr>flParses := flParses st + 1, flDoc := Some doc, flCurrent := True,
                       flBefore := (if iter = 0 then CountParseErrors (Some doc) else flBefore st)\<rparr>;
               fs = iteration_report env opts iter doc
           in if feStopAfter env iter then (st, Some LoopInterrupted)
              else
                (let st = note_pool (fixable_count opts (flSkipped st) fs) st in
                 if flStall st \<ge> fixLoopStallLimit then (st, Some LoopDone)
                 else
                   (case pick_fix opts doc (flSkipped st) fs of
                      (None, sk) \<Rightarrow> (st\<lparr>flSkipped := sk\<rparr>, Some LoopDone)
                    | (Some pk, sk) \<Rightarrow>
                        (let st = st\<lparr>flSkipped := sk\<rparr> in
                         if diffKey (fst pk) = flLastSig st then (st, Some LoopDone)
                         else (apply_pick env st pk, None))))))"

fun fix_loop :: "fix_env \<Rightarrow> FixOptions \<Rightarrow> string \<Rightarrow> nat \<Rightarrow> nat \<Rightarrow> fixLoop \<Rightarrow> fixLoop \<times> loop_exit" where
  "fix_loop env opts fileName 0 iter st = (st, LoopDone)"
| "fix_loop env opts fileName (Suc n) iter st =
     (if feStopBefore env iter then (st, LoopInterrupted)
      else (case fix_iteration env opts fileName iter st of
          (st, Some e) \<Rightarrow> (st, e)
        | (st, None) \<Rightarrow> fix_loop env opts fileName n (iter + 1) st))"

section \<open>The result\<close>

record FixLoopResult =
  frFixed :: nat
  frDoc :: "FlowDocument option"
  frBeforeErrors :: nat
  frAfterErrors :: nat
  frPartial :: bool

datatype fix_error = FixParseError ParseFailure | FixInterrupted

definition loop_start :: "string \<Rightarrow> fixLoop" where
  "loop_start src = \<lparr>flSource = src, flDoc = None, flFixed = 0, flBefore = 0, flSkipped = [], flLastSig = [], flStall = 0,
     flMin = None, flCurrent = False, flLog = [], flParses = 0\<rparr>"

definition result_of :: "fixLoop \<Rightarrow> FixLoopResult" where
  "result_of st = \<lparr>frFixed = flFixed st, frDoc = flDoc st, frBeforeErrors = flBefore st, frAfterErrors = 0, frPartial = False\<rparr>"

text \<open>What follows the loop: the last parse and the error counts. The triple is the source, the result and the error.\<close>

definition finish_fixes :: "fix_env \<Rightarrow> string \<Rightarrow> fixLoop \<Rightarrow> bool \<Rightarrow> string \<times> FixLoopResult \<times> fix_error option" where
  "finish_fixes env fileName st interrupted =
     (if interrupted \<and> flFixed st = 0 then (flSource st, result_of st, Some FixInterrupted)
      else
        (case (if flDoc st = None \<or> flFixed st > 0 \<and> \<not> flCurrent st
               then ParseText (feUuids env (flParses st)) (flSource st) fileName (length (flSource st))
               else Inr (the (flDoc st))) of
           Inl e \<Rightarrow> (flSource st, result_of st, Some (FixParseError e))
         | Inr doc \<Rightarrow>
             (flSource st,
              (result_of st)\<lparr>frDoc := Some doc, frAfterErrors := CountParseErrors (Some doc), frPartial := interrupted\<rparr>,
              if interrupted then Some FixInterrupted else None)))"

definition applyFixesLoop :: "fix_env \<Rightarrow> FixOptions \<Rightarrow> string \<Rightarrow> string \<Rightarrow> string \<times> FixLoopResult \<times> fix_error option" where
  "applyFixesLoop env opts source fileName =
     (case fix_loop env opts fileName (foLimit opts) 0 (loop_start source) of
        (st, LoopParseFailed e) \<Rightarrow> (flSource st, result_of st, Some (FixParseError e))
      | (st, LoopInterrupted) \<Rightarrow> finish_fixes env fileName st True
      | (st, LoopDone) \<Rightarrow> finish_fixes env fileName st False)"

definition ApplyFixesToSourceCtx :: "fix_env \<Rightarrow> FixOptions \<Rightarrow> string \<Rightarrow> string \<Rightarrow> string \<times> nat \<times> fix_error option" where
  "ApplyFixesToSourceCtx env opts source fileName =
     (case applyFixesLoop env opts source fileName of (src, r, err) \<Rightarrow> (src, frFixed r, err))"

definition fix_log :: "fix_env \<Rightarrow> FixOptions \<Rightarrow> string \<Rightarrow> string \<Rightarrow> (string \<times> string \<times> nat) list" where
  "fix_log env opts source fileName = flLog (fst (fix_loop env opts fileName (foLimit opts) 0 (loop_start source)))"

section \<open>What one iteration does\<close>

lemma pick_fix_eligible:
  "pick_fix opts doc sk fs = (Some (f, blk, p), sk') \<Longrightarrow>
     f \<in> set fs \<and> eligible opts f \<and> diffKey f \<notin> set sk \<and> p \<noteq> [] \<and> map_of (BlocksByID doc) (fBlockID f) = Some blk \<and>
     PatchForFix blk (fAutoFix f) (fRuleID f) (meta_string f ''variable'') (meta_string f ''property'') = Some p"
  by (induction opts doc sk fs rule: pick_fix.induct) (auto split: if_splits option.splits)

lemma note_pool_frame [simp]:
  "flFixed (note_pool n st) = flFixed st" "flSource (note_pool n st) = flSource st" "flDoc (note_pool n st) = flDoc st"
  "flLog (note_pool n st) = flLog st" "flCurrent (note_pool n st) = flCurrent st" "flBefore (note_pool n st) = flBefore st"
  "flSkipped (note_pool n st) = flSkipped st" "flLastSig (note_pool n st) = flLastSig st" "flParses (note_pool n st) = flParses st"
  by (auto simp: note_pool_def split: option.split)

lemma note_pool_cong:
  "flMin st = flMin st' \<Longrightarrow> flStall st = flStall st' \<Longrightarrow>
     flMin (note_pool n st) = flMin (note_pool n st') \<and> flStall (note_pool n st) = flStall (note_pool n st')"
  by (auto simp: note_pool_def split: option.split)

text \<open>An iteration that goes on has parsed the source, passed the stall check and applied an eligible fix.\<close>

lemma iteration_continues:
  assumes "fix_iteration env opts fileName iter st = (st', None)"
  obtains doc f blk p where
    "ParseText (feUuids env (flParses st)) (flSource st) fileName (length (flSource st)) = Inr doc"
    "f \<in> set (iteration_report env opts iter doc)" "eligible opts f" "diffKey f \<notin> set (flSkipped st)" "p \<noteq> []"
    "map_of (BlocksByID doc) (fBlockID f) = Some blk"
    "PatchForFix blk (fAutoFix f) (fRuleID f) (meta_string f ''variable'') (meta_string f ''property'') = Some p"
    "flStall (note_pool (fixable_count opts (flSkipped st) (iteration_report env opts iter doc)) st) < fixLoopStallLimit"
    "flMin st' = flMin (note_pool (fixable_count opts (flSkipped st) (iteration_report env opts iter doc)) st)"
    "flStall st' = flStall (note_pool (fixable_count opts (flSkipped st) (iteration_report env opts iter doc)) st)"
    "flSource st' = fst (ApplyPatch (feSorter env) (flSource st) p)"
    "flFixed st' = Suc (flFixed st)" "flLog st' = flLog st @ [(fRuleID f, fAutoFix f, bLineNumber (binfo blk))]"
    "flCurrent st' = False" "flDoc st' = Some doc" "flParses st' = Suc (flParses st)"
    "flBefore st' = (if iter = 0 then CountParseErrors (Some doc) else flBefore st)"
proof -
  obtain doc where doc: "ParseText (feUuids env (flParses st)) (flSource st) fileName (length (flSource st)) = Inr doc"
    using assms by (auto simp: fix_iteration_def split: sum.splits)
  let ?fs = "iteration_report env opts iter doc"
  let ?st1 = "st\<lparr>flParses := flParses st + 1, flDoc := Some doc, flCurrent := True,
      flBefore := (if iter = 0 then CountParseErrors (Some doc) else flBefore st)\<rparr>"
  let ?st2 = "note_pool (fixable_count opts (flSkipped st) ?fs) ?st1"
  have c: "flMin ?st2 = flMin (note_pool (fixable_count opts (flSkipped st) ?fs) st)"
    "flStall ?st2 = flStall (note_pool (fixable_count opts (flSkipped st) ?fs) st)"
    using note_pool_cong [of ?st1 st] by simp_all
  from assms doc obtain f blk p sk where pk: "pick_fix opts doc (flSkipped st) ?fs = (Some (f, blk, p), sk)"
    "flStall ?st2 < fixLoopStallLimit" "st' = apply_pick env (?st2\<lparr>flSkipped := sk\<rparr>) (f, blk, p)"
    by (auto simp: fix_iteration_def Let_def not_le split: if_splits prod.splits option.splits)
  show ?thesis
    by (rule that [OF doc, of f p blk]) (use pk pick_fix_eligible [OF pk(1)] c in \<open>simp_all add: apply_pick_def\<close>)
qed

lemma iteration_exits:
  assumes "fix_iteration env opts fileName iter st = (st', Some e)"
  shows "flSource st' = flSource st" "flFixed st' = flFixed st" "flLog st' = flLog st"
    and "case e of LoopParseFailed _ \<Rightarrow> flDoc st' = flDoc st \<and> flCurrent st' = flCurrent st
      | _ \<Rightarrow> flCurrent st' \<and> (\<exists>doc. flDoc st' = Some doc \<and>
          ParseText (feUuids env (flParses st)) (flSource st) fileName (length (flSource st)) = Inr doc \<and>
          flBefore st' = (if iter = 0 then CountParseErrors (Some doc) else flBefore st))"
  using assms by (auto simp: fix_iteration_def Let_def split: sum.splits if_splits prod.splits option.splits)

section \<open>Loop invariants\<close>

text \<open>A property of the state that holds at the start of every iteration, and what it gives at the end.\<close>

lemma fix_loop_rule:
  assumes "I iter st" "iter + n = N"
    and "\<And>i s s'. I i s \<Longrightarrow> i < N \<Longrightarrow> fix_iteration env opts fileName i s = (s', None) \<Longrightarrow> I (Suc i) s'"
    and "\<And>i s s' e. I i s \<Longrightarrow> i < N \<Longrightarrow> fix_iteration env opts fileName i s = (s', Some e) \<Longrightarrow> Q s' e"
    and "\<And>s. I N s \<Longrightarrow> Q s LoopDone"
    and "\<And>i s. I i s \<Longrightarrow> i < N \<Longrightarrow> Q s LoopInterrupted"
  shows "Q (fst (fix_loop env opts fileName n iter st)) (snd (fix_loop env opts fileName n iter st))"
  using assms(1,2)
proof (induction n arbitrary: iter st)
  case (Suc n)
  then have lt: "iter < N" by simp
  show ?case
  proof (cases "feStopBefore env iter")
    case False
    obtain s' r where r: "fix_iteration env opts fileName iter st = (s', r)" by (cases "fix_iteration env opts fileName iter st")
    show ?thesis
    proof (cases r)
      case None
      have "Q (fst (fix_loop env opts fileName n (Suc iter) s')) (snd (fix_loop env opts fileName n (Suc iter) s'))"
        using Suc.prems(2) by (intro Suc.IH [OF assms(3) [OF Suc.prems(1) lt r [unfolded None]]]) simp
      with r None False show ?thesis by simp
    next
      case (Some e)
      with r False assms(4) [OF Suc.prems(1) lt] show ?thesis by simp
    qed
  qed (use Suc.prems assms(6) lt in simp)
qed (use assms(5) in simp)

text \<open>The fixable findings of the first report.\<close>

definition initial_pool :: "fix_env \<Rightarrow> FixOptions \<Rightarrow> string \<Rightarrow> string \<Rightarrow> nat" where
  "initial_pool env opts source fileName =
     (case ParseText (feUuids env 0) source fileName (length source) of
        Inl _ \<Rightarrow> 0 | Inr doc \<Rightarrow> fixable_count opts [] (iteration_report env opts 0 doc))"

text \<open>After \<open>i\<close> fixes: the smallest pool met so far and the stall counter pay for every one of them.\<close>

definition paid :: "nat \<Rightarrow> string \<Rightarrow> nat \<Rightarrow> fixLoop \<Rightarrow> bool" where
  "paid P source i s \<longleftrightarrow> flFixed s = i \<and>
     (if i = 0 then s = loop_start source
      else \<exists>m. flMin s = Some m \<and> 1 \<le> m \<and> m \<le> P \<and> flStall s < fixLoopStallLimit \<and>
        i \<le> fixLoopStallLimit * (P - m) + flStall s + 1)"

lemma fixable_count_pos: "f \<in> set fs \<Longrightarrow> eligible opts f \<Longrightarrow> diffKey f \<notin> set sk \<Longrightarrow> 1 \<le> fixable_count opts sk fs"
  unfolding fixable_count_def by (induction fs) auto

lemma paid_step:
  assumes s: "paid (initial_pool env opts source fileName) source i s"
    and step: "fix_iteration env opts fileName i s = (s', None)"
  shows "paid (initial_pool env opts source fileName) source (Suc i) s'"
proof -
  let ?P = "initial_pool env opts source fileName"
  from step obtain doc f where it:
    "ParseText (feUuids env (flParses s)) (flSource s) fileName (length (flSource s)) = Inr doc"
    "f \<in> set (iteration_report env opts i doc)" "eligible opts f" "diffKey f \<notin> set (flSkipped s)"
    "flStall (note_pool (fixable_count opts (flSkipped s) (iteration_report env opts i doc)) s) < fixLoopStallLimit"
    "flMin s' = flMin (note_pool (fixable_count opts (flSkipped s) (iteration_report env opts i doc)) s)"
    "flStall s' = flStall (note_pool (fixable_count opts (flSkipped s) (iteration_report env opts i doc)) s)"
    "flFixed s' = Suc (flFixed s)"
    by (rule iteration_continues) blast
  let ?k = "fixable_count opts (flSkipped s) (iteration_report env opts i doc)"
  have k: "1 \<le> ?k" using it by (intro fixable_count_pos)
  have fixed: "flFixed s' = Suc i" using it(8) s by (simp add: paid_def)
  show ?thesis
  proof (cases "i = 0")
    case True
    then have s0: "s = loop_start source" using s by (simp add: paid_def)
    then have "?k = ?P" using it(1) True by (simp add: initial_pool_def loop_start_def)
    moreover have "flMin s' = Some ?k" "flStall s' = 0" using it(6,7) s0 by (simp_all add: note_pool_def loop_start_def)
    ultimately show ?thesis using k fixed True by (simp add: paid_def fixLoopStallLimit_def)
  next
    case False
    then obtain m where m: "flMin s = Some m" "1 \<le> m" "m \<le> ?P" "flStall s < fixLoopStallLimit"
      "i \<le> fixLoopStallLimit * (?P - m) + flStall s + 1" using s by (auto simp: paid_def)
    show ?thesis
    proof (cases "?k < m")
      case True
      then have "flMin s' = Some ?k" "flStall s' = 0" using it(6,7) m(1) by (simp_all add: note_pool_def)
      moreover have "fixLoopStallLimit * (?P - m) + fixLoopStallLimit \<le> fixLoopStallLimit * (?P - ?k)"
        using True m(3) by (simp add: fixLoopStallLimit_def)
      ultimately show ?thesis using k m True fixed by (auto simp: paid_def fixLoopStallLimit_def)
    next
      case False
      then have "flMin s' = Some m" "flStall s' = flStall s + 1" using it(6,7) m(1) by (simp_all add: note_pool_def)
      then show ?thesis using m fixed it(5,7) by (auto simp: paid_def)
    qed
  qed
qed

lemma paid_bound: "paid P source i s \<Longrightarrow> flFixed s \<le> fixLoopStallLimit * P"
proof -
  assume p: "paid P source i s"
  show ?thesis
  proof (cases "i = 0")
    case False
    with p obtain m where "1 \<le> m" "m \<le> P" "flStall s < fixLoopStallLimit"
      "flFixed s \<le> fixLoopStallLimit * (P - m) + flStall s + 1" by (auto simp: paid_def)
    then show ?thesis by (simp add: fixLoopStallLimit_def)
  qed (use p in \<open>simp add: paid_def loop_start_def\<close>)
qed

section \<open>Properties\<close>

lemma result_fixed:
  "frFixed (fst (snd (applyFixesLoop env opts source fileName))) =
     flFixed (fst (fix_loop env opts fileName (foLimit opts) 0 (loop_start source)))"
  by (auto simp: applyFixesLoop_def finish_fixes_def result_of_def split: prod.split loop_exit.split sum.split)

text \<open>
  C31: the fix loop ends on its own. Besides never exceeding the configured limit, it applies at most
  three fixes for every fixable finding of the first report, whatever the fixes do to the flow: a
  fixer that keeps producing new findings is stopped.
\<close>

theorem fix_loop_bounded:
  "frFixed (fst (snd (applyFixesLoop env opts source fileName)))
     \<le> min (foLimit opts) (fixLoopStallLimit * initial_pool env opts source fileName)"
proof -
  let ?P = "initial_pool env opts source fileName"
  have "flFixed (fst (fix_loop env opts fileName (foLimit opts) 0 (loop_start source))) \<le> min (foLimit opts) (fixLoopStallLimit * ?P)"
  proof (rule fix_loop_rule [where I = "paid ?P source" and N = "foLimit opts" and Q = "\<lambda>s e. flFixed s \<le> min (foLimit opts) (fixLoopStallLimit * ?P)"])
    show "paid ?P source 0 (loop_start source)" by (simp add: paid_def loop_start_def)
  next
    fix i s s' e assume "paid ?P source i s" "i < foLimit opts" "fix_iteration env opts fileName i s = (s', Some e)"
    with paid_bound iteration_exits(2) show "flFixed s' \<le> min (foLimit opts) (fixLoopStallLimit * ?P)"
      by (fastforce simp: paid_def)
  next
    fix s assume "paid ?P source (foLimit opts) s"
    with paid_bound show "flFixed s \<le> min (foLimit opts) (fixLoopStallLimit * ?P)" by (fastforce simp: paid_def)
  next
    fix i s assume "paid ?P source i s" "i < foLimit opts"
    with paid_bound show "flFixed s \<le> min (foLimit opts) (fixLoopStallLimit * ?P)" by (fastforce simp: paid_def)
  qed (auto intro: paid_step)
  then show ?thesis by (simp only: result_fixed)
qed

text \<open>What the options allow a fix to be.\<close>

definition allowed_fix :: "FixOptions \<Rightarrow> string \<times> string \<times> nat \<Rightarrow> bool" where
  "allowed_fix opts e = (case e of (ruleID, fixType, line) \<Rightarrow>
     map_of fixRegistry fixType \<noteq> None \<and> (case foRuleFilter opts of None \<Rightarrow> True | Some rs \<Rightarrow> ruleID \<in> set rs) \<and>
     (foIncludeBehaviourChanging opts \<or> \<not> IsBehaviourChangingFix fixType))"

text \<open>
  C32: the loop applies only what the options allow: one logged fix per applied patch, every one of a
  registered fix type, for a rule of the filter, and never one that changes what the flow does at
  runtime unless the caller opted in.
\<close>

theorem fix_loop_respects_options:
  "list_all (allowed_fix opts) (fix_log env opts source fileName) \<and>
     length (fix_log env opts source fileName) = frFixed (fst (snd (applyFixesLoop env opts source fileName)))"
proof -
  let ?I = "\<lambda>s. list_all (allowed_fix opts) (flLog s) \<and> length (flLog s) = flFixed s"
  have "?I (fst (fix_loop env opts fileName (foLimit opts) 0 (loop_start source)))"
  proof (rule fix_loop_rule [where I = "\<lambda>i. ?I" and N = "foLimit opts" and Q = "\<lambda>s e. ?I s"])
    fix i s s' assume I: "?I s" and step: "fix_iteration env opts fileName i s = (s', None)"
    from step obtain f blk p where it: "eligible opts f"
      "PatchForFix blk (fAutoFix f) (fRuleID f) (meta_string f ''variable'') (meta_string f ''property'') = Some p"
      "flFixed s' = Suc (flFixed s)" "flLog s' = flLog s @ [(fRuleID f, fAutoFix f, bLineNumber (binfo blk))]"
      by (rule iteration_continues) blast
    then have "allowed_fix opts (fRuleID f, fAutoFix f, bLineNumber (binfo blk))"
      by (auto simp: allowed_fix_def eligible_def PatchForFix_def)
    with I it show "?I s'" by simp
  next
    fix i s s' e assume "?I s" "fix_iteration env opts fileName i s = (s', Some e)"
    with iteration_exits show "?I s'" by fastforce
  qed (simp_all add: loop_start_def)
  then show ?thesis by (simp only: result_fixed fix_log_def)
qed

definition reparsed :: "fix_env \<Rightarrow> string \<Rightarrow> string \<Rightarrow> FlowDocument \<Rightarrow> bool" where
  "reparsed env fileName src doc \<longleftrightarrow> (\<exists>k. ParseText (feUuids env k) src fileName (length src) = Inr doc)"

text \<open>The document of the state is the parse of its source whenever the loop claims so.\<close>

definition doc_current :: "fix_env \<Rightarrow> string \<Rightarrow> string \<Rightarrow> fixLoop \<Rightarrow> bool" where
  "doc_current env fileName source s \<longleftrightarrow>
     (flCurrent s \<longrightarrow> (\<exists>d. flDoc s = Some d \<and> reparsed env fileName (flSource s) d)) \<and>
     (flFixed s = 0 \<longrightarrow> flSource s = source \<and> (flDoc s = None \<or> flCurrent s))"

lemma doc_current_loop:
  "case fix_loop env opts fileName n 0 (loop_start source) of (s, e) \<Rightarrow>
     doc_current env fileName source s \<and>
     (case e of LoopParseFailed f \<Rightarrow> \<exists>k. ParseText (feUuids env k) (flSource s) fileName (length (flSource s)) = Inl f | _ \<Rightarrow> True)"
proof -
  let ?Q = "\<lambda>s e. doc_current env fileName source s \<and>
     (case e of LoopParseFailed f \<Rightarrow> \<exists>k. ParseText (feUuids env k) (flSource s) fileName (length (flSource s)) = Inl f | _ \<Rightarrow> True)"
  have "?Q (fst (fix_loop env opts fileName n 0 (loop_start source))) (snd (fix_loop env opts fileName n 0 (loop_start source)))"
  proof (rule fix_loop_rule [where I = "\<lambda>i. doc_current env fileName source" and N = n and Q = ?Q])
    show "doc_current env fileName source (loop_start source)" by (simp add: doc_current_def loop_start_def)
  next
    fix i s s' assume "fix_iteration env opts fileName i s = (s', None)"
    then have "flCurrent s' = False" "flFixed s' = Suc (flFixed s)" by (rule iteration_continues, blast)+
    then show "doc_current env fileName source s'" by (simp add: doc_current_def)
  next
    fix i s s' e assume I: "doc_current env fileName source s" and ex: "fix_iteration env opts fileName i s = (s', Some e)"
    note x = iteration_exits [OF ex]
    show "?Q s' e"
    proof (cases e)
      case (LoopParseFailed f)
      then have "ParseText (feUuids env (flParses s)) (flSource s) fileName (length (flSource s)) = Inl f"
        using ex by (auto simp: fix_iteration_def Let_def split: sum.splits if_splits prod.splits option.splits)
      with x I LoopParseFailed show ?thesis by (auto simp: doc_current_def)
    qed (use x I in \<open>auto simp: doc_current_def reparsed_def\<close>)
  qed simp_all
  then show ?thesis by (simp only: case_prod_unfold)
qed

text \<open>The error count of the original text, as the first iteration reads it.\<close>

definition original_errors :: "fix_env \<Rightarrow> string \<Rightarrow> string \<Rightarrow> nat" where
  "original_errors env source fileName =
     (case ParseText (feUuids env 0) source fileName (length source) of
        Inl _ \<Rightarrow> 0 | Inr doc \<Rightarrow> CountParseErrors (Some doc))"

lemma note_pool_before: "flBefore (note_pool n st) = flBefore st"
  by (simp add: note_pool_def Let_def split: option.split)

lemma iteration_before:
  "flBefore (fst (fix_iteration env opts fileName iter st)) =
     (case ParseText (feUuids env (flParses st)) (flSource st) fileName (length (flSource st)) of
        Inl _ \<Rightarrow> flBefore st
      | Inr doc \<Rightarrow> if iter = 0 then CountParseErrors (Some doc) else flBefore st)"
  by (simp add: fix_iteration_def Let_def apply_pick_def note_pool_before split: sum.split prod.split option.split)

lemma fix_loop_before: "0 < iter \<Longrightarrow> flBefore (fst (fix_loop env opts fileName n iter st)) = flBefore st"
proof (induction n arbitrary: iter st)
  case (Suc n)
  have "flBefore (fst (fix_iteration env opts fileName iter st)) = flBefore st"
    using Suc.prems by (simp add: iteration_before split: sum.split)
  with Suc.IH [of "Suc iter"] show ?case by (auto split: prod.split option.split)
qed simp

lemma fix_loop_before_first:
  assumes "0 < n" "\<not> feStopBefore env 0"
  shows "flBefore (fst (fix_loop env opts fileName n 0 (loop_start source))) = original_errors env source fileName"
proof -
  obtain m where n: "n = Suc m" using assms(1) by (cases n) auto
  have "flBefore (fst (fix_iteration env opts fileName 0 (loop_start source))) = original_errors env source fileName"
    unfolding iteration_before by (simp add: loop_start_def original_errors_def split: sum.split)
  then show ?thesis using assms(2) by (auto simp: n fix_loop_before split: prod.split option.split)
qed

lemma result_before:
  "frBeforeErrors (fst (snd (applyFixesLoop env opts source fileName))) =
     flBefore (fst (fix_loop env opts fileName (foLimit opts) 0 (loop_start source)))"
  by (auto simp: applyFixesLoop_def finish_fixes_def result_of_def split: prod.split loop_exit.split sum.split)

text \<open>
  C33: the result describes the texts it is about. Without an error, and also when the context ended the
  loop after a fix, the returned document is the parse of the returned text and \<open>AfterErrors\<close> counts
  its errors; a parse error is that of the returned text; \<open>Partial\<close> marks exactly the interrupted runs
  that applied a fix; a run that applied none leaves the text as it was; and once the loop has begun its
  first iteration (a positive limit, a context that has not ended yet) \<open>BeforeErrors\<close> is the number of
  errors of the original text, however many iterations follow.
\<close>

theorem fix_result_matches_source:
  "case applyFixesLoop env opts source fileName of (src, r, err) \<Rightarrow>
     (src = source \<or> 0 < frFixed r) \<and>
     (frPartial r \<longleftrightarrow> err = Some FixInterrupted \<and> 0 < frFixed r) \<and>
     (foLimit opts = 0 \<or> feStopBefore env 0 \<or> frBeforeErrors r = original_errors env source fileName) \<and>
     (case err of
        Some (FixParseError e) \<Rightarrow> \<exists>k. ParseText (feUuids env k) src fileName (length src) = Inl e
      | Some FixInterrupted \<Rightarrow> frFixed r = 0 \<or>
          (\<exists>d. frDoc r = Some d \<and> reparsed env fileName src d \<and> frAfterErrors r = CountParseErrors (Some d))
      | None \<Rightarrow> \<exists>d. frDoc r = Some d \<and> reparsed env fileName src d \<and> frAfterErrors r = CountParseErrors (Some d))"
proof -
  have before: "foLimit opts = 0 \<or> feStopBefore env 0 \<or>
      frBeforeErrors (fst (snd (applyFixesLoop env opts source fileName))) = original_errors env source fileName"
    unfolding result_before using fix_loop_before_first by blast
  obtain s e where l: "fix_loop env opts fileName (foLimit opts) 0 (loop_start source) = (s, e)" by fastforce
  have I: "doc_current env fileName source s"
    and f: "case e of LoopParseFailed f \<Rightarrow> \<exists>k. ParseText (feUuids env k) (flSource s) fileName (length (flSource s)) = Inl f | _ \<Rightarrow> True"
    using doc_current_loop [where env = env and opts = opts and fileName = fileName and n = "foLimit opts" and source = source] unfolding l by simp_all
  have fin: "case finish_fixes env fileName s b of (src, r, err) \<Rightarrow> (src = source \<or> 0 < frFixed r) \<and>
     (frPartial r \<longleftrightarrow> err = Some FixInterrupted \<and> 0 < frFixed r) \<and>
     (case err of
        Some (FixParseError e) \<Rightarrow> \<exists>k. ParseText (feUuids env k) src fileName (length src) = Inl e
      | Some FixInterrupted \<Rightarrow> frFixed r = 0 \<or>
          (\<exists>d. frDoc r = Some d \<and> reparsed env fileName src d \<and> frAfterErrors r = CountParseErrors (Some d))
      | None \<Rightarrow> \<exists>d. frDoc r = Some d \<and> reparsed env fileName src d \<and> frAfterErrors r = CountParseErrors (Some d))" for b
    using I by (auto simp: finish_fixes_def result_of_def doc_current_def reparsed_def split: sum.splits if_splits)
  show ?thesis
  proof (cases e)
    case (LoopParseFailed g)
    with I f before show ?thesis by (simp add: applyFixesLoop_def l result_of_def doc_current_def) blast
  qed (use fin before in \<open>auto simp: applyFixesLoop_def l case_prod_unfold\<close>)
qed

text \<open>
  with a limit of 0 the errors of the text are counted as errors after the loop but not as errors
  before it, although the text is the same.
\<close>

theorem zero_limit_before_errors:
  "foLimit opts = 0 \<Longrightarrow> length source \<le> MaxParseTextSize \<Longrightarrow>
     case applyFixesLoop env opts source fileName of (src, r, err) \<Rightarrow>
       src = source \<and> frBeforeErrors r = 0 \<and> frAfterErrors r = original_errors env source fileName"
  by (simp add: applyFixesLoop_def finish_fixes_def loop_start_def result_of_def original_errors_def parse_text_size_limit)

end
