(* ===== verification/Variable_Index.thy ===== *)
theory Variable_Index
  imports Context_Correct
begin

text \<open>
  The two indexes of facts.go from variables to blocks, \<open>WritersByVar\<close> and \<open>ReadersByVar\<close>, agree with the
  tree. Both are filled block by block from a list of names; the interface \<open>variable_index\<close> states
  that, and its two interpretations give what every name is mapped to.
\<close>

definition writes_of :: "block_info \<Rightarrow> string list" where
  "writes_of b =
     (let out = getprop (bProperties b) ''_output''; v = getprop (bProperties b) ''_var'' in
      (if out \<noteq> [] then [out] else []) @ (if v \<noteq> [] then [v] else []))"

text \<open>A block is listed under a name once for each time it has the name.\<close>

definition listed_under :: "(block_info \<Rightarrow> string list) \<Rightarrow> string \<Rightarrow> Block \<Rightarrow> string list" where
  "listed_under names v b = map (\<lambda>_. bID (binfo b)) (filter (\<lambda>x. x = v) (names (binfo b)))"

lemma list_at_append: "list_at (append_at k x m) v = list_at m v @ (if v = k then [x] else [])"
  by (simp add: list_at_def append_at_def AList.update_conv')

definition index_names :: "(block_info \<Rightarrow> string list) \<Rightarrow> Block \<Rightarrow> (string \<times> string list) list \<Rightarrow> (string \<times> string list) list" where
  "index_names names b m = foldl (\<lambda>m v. append_at v (bID (binfo b)) m) m (names (binfo b))"

lemma list_at_names: "list_at (index_names names b m) v = list_at m v @ listed_under names v b"
proof -
  have "list_at (foldl (\<lambda>m v. append_at v k m) m xs) v = list_at m v @ map (\<lambda>_. k) (filter (\<lambda>x. x = v) xs)" for k xs
    by (induction xs arbitrary: m) (simp_all add: list_at_append)
  then show ?thesis by (simp add: index_names_def listed_under_def)
qed

lemma distinct_names: "distinct (map fst m) \<Longrightarrow> distinct (map fst (index_names names b m))"
proof -
  have "distinct (map fst m) \<Longrightarrow> distinct (map fst (foldl (\<lambda>m v. append_at v k m) m xs))" for k xs
    by (induction xs arbitrary: m) (simp_all add: append_at_def distinct_update)
  then show "distinct (map fst m) \<Longrightarrow> distinct (map fst (index_names names b m))" by (simp add: index_names_def)
qed

locale variable_index =
  fixes index :: "RuleContext \<Rightarrow> (string \<times> string list) list"
    and names :: "block_info \<Rightarrow> string list"
  assumes index_step: "index (index_block p k d ctx (i, b)) = index_names names b (index ctx)"
    and index_frame: "index (ctx\<lparr>SiblingMap := sm\<rparr>) = index ctx" "index (ctx\<lparr>TerminatorIndex := ti\<rparr>) = index ctx"
      "index (ctx\<lparr>GroupHasHandler := gh\<rparr>) = index ctx"
    and index_group: "group_index index"
    and index_empty: "index (empty_context flow) = []"
begin

lemma run_block: "index (foldl (index_block p k d) ctx xs) = foldl (\<lambda>m x. index_names names (snd x) m) (index ctx) xs"
proof (induction xs arbitrary: ctx)
  case (Cons x xs)
  then show ?case by (cases x) (simp add: index_step)
qed simp

lemma run_group: "index (add_group ctx g) = foldl (\<lambda>m x. index_names names (snd x) m) (index ctx) (enumerate 0 (group_ptrs g))"
  by (cases g) (simp add: add_group_def index_group_def Let_def run_block index_frame group_ptrs_def split: option.split)

lemma group_at: "list_at (index (add_group ctx g)) v = list_at (index ctx) v @ concat (map (listed_under names v) (group_ptrs g))"
proof -
  have "list_at (foldl (\<lambda>m x. index_names names (snd x) m) m (enumerate n bs)) v =
      list_at m v @ concat (map (listed_under names v) bs)" for m n bs
    by (induction bs arbitrary: m n) (simp_all add: list_at_names)
  then show ?thesis by (simp add: run_group)
qed

lemma indexed:
  "list_at (index (buildContext flow)) v = concat (map (listed_under names v) (concat (map group_ptrs (doc_groups flow))))"
proof -
  have "list_at (index (foldl add_group ctx gs)) v =
      list_at (index ctx) v @ concat (map (listed_under names v) (concat (map group_ptrs gs)))" for ctx gs
    by (induction gs arbitrary: ctx) (simp_all add: group_at)
  then show ?thesis unfolding context_index [OF index_group] by (simp add: index_empty list_at_def)
qed

lemma index_keys_distinct: "distinct (map fst (index (buildContext flow)))"
proof -
  have "distinct (map fst m) \<Longrightarrow> distinct (map fst (foldl (\<lambda>m x. index_names names (snd x) m) m xs))"
    for m and xs :: "(nat \<times> Block) list" by (induction xs arbitrary: m) (simp_all add: distinct_names)
  then have "distinct (map fst (index ctx)) \<Longrightarrow> distinct (map fst (index (foldl add_group ctx gs)))" for ctx gs
    by (induction gs arbitrary: ctx) (simp_all add: run_group)
  then show ?thesis unfolding context_index [OF index_group] by (simp add: index_empty)
qed

text \<open>The blocks under a name are those of the document, END markers apart, that have the name.\<close>

lemma indexed_set:
  "set (list_at (index (buildContext flow)) v) =
     (\<lambda>b. bID (binfo b)) ` {b \<in> set (concat (map group_ptrs (doc_groups flow))). v \<in> set (names (binfo b))}"
  unfolding indexed by (force simp: listed_under_def)

end

interpretation readers: variable_index ReadersByVar bVariables
  by unfold_locales (simp_all add: index_block_def index_reads_def index_names_def Let_def group_index_def core_def empty_context_def)

interpretation writers: variable_index WritersByVar writes_of
  by unfold_locales (simp_all add: index_block_def index_writes_def writes_of_def index_names_def Let_def group_index_def core_def
      empty_context_def)

lemma group_blocks_walk: "set (concat (map group_ptrs (doc_groups flow))) = set (filter not_end (walkBlocks flow))"
proof -
  have ptrs: "concat (map group_ptrs gs) = filter not_end (concat (map group_blocks gs))" for gs
    by (induction gs) (simp_all add: group_ptrs_blocks)
  have "mset (concat (map group_ptrs (doc_groups flow))) = mset (filter not_end (walkBlocks flow))"
    by (simp only: ptrs mset_filter doc_groups_blocks)
  then show ?thesis by (rule mset_eq_setD)
qed

end
