(* ===== verification/Data_Flow.thy ===== *)
theory Data_Flow
  imports Variable_Index Go_Regexp Rules
begin

text \<open>
  core/analyzer/dataflow.go: which blocks feed a block and which read what it writes, within the limits
  that bound the answer, the name-based taint hints, the dead data paths and the dead-data rule.
  The context is an oracle asked at the points where the code reads \<open>ctx.Err()\<close>. The maps \<open>byLine\<close>
  and \<open>deadReaders\<close> cache functions of the rule context and are those functions here.
\<close>

section \<open>Reads and writes\<close>

definition variableRefRegex :: rx where
  "variableRefRegex = seqs [chr (CHR ''%''), Grp 1 (Plus (Cls (\<lambda>c. c \<noteq> CHR ''%''))), chr (CHR ''%'')]"

definition scan_refs :: "string \<Rightarrow> string list" where
  "scan_refs val = (if \<not> Contains val ''%'' then []
     else map (\<lambda>m. TrimSpace (group_text m 1)) (FindAllStringSubmatchIndex variableRefRegex val))"

definition block_refs :: "block_info \<Rightarrow> string list" where
  "block_refs b = (if bType b = BlockTypeEnd then []
     else concat (map (\<lambda>(k, val). scan_refs val) (bProperties b)) @ concat (map scan_refs (bVariables b)))"

definition buildUsedVariables :: "RuleContext \<Rightarrow> string list" where
  "buildUsedVariables ctx = concat (map (\<lambda>b. block_refs (binfo b)) (walkBlocks (ctxFlow ctx)))"

definition writes_var :: "block_info \<Rightarrow> string \<Rightarrow> bool" where
  "writes_var b v \<longleftrightarrow> getprop (bProperties b) ''_output'' = v \<or> getprop (bProperties b) ''_var'' = v"

definition findReaders :: "string \<Rightarrow> RuleContext \<Rightarrow> string list" where
  "findReaders v ctx = filter (\<lambda>k. case map_of (AllBlocks ctx) k of None \<Rightarrow> False
     | Some b \<Rightarrow> \<not> writes_var (binfo b) v) (list_at (ReadersByVar ctx) v)"

definition findWriters :: "string \<Rightarrow> RuleContext \<Rightarrow> string \<Rightarrow> string list" where
  "findWriters v ctx excludeID = filter (\<lambda>k. k \<noteq> excludeID) (list_at (WritersByVar ctx) v)"

definition findReadersAfter :: "string \<Rightarrow> RuleContext \<Rightarrow> string \<Rightarrow> string list" where
  "findReadersAfter v ctx writerID =
     (case map_of (AllBlocks ctx) writerID of
        None \<Rightarrow> []
      | Some w \<Rightarrow> filter (\<lambda>k. k \<noteq> writerID \<and> (case map_of (AllBlocks ctx) k of None \<Rightarrow> False
          | Some b \<Rightarrow> bLineNumber (binfo b) > bLineNumber (binfo w))) (list_at (ReadersByVar ctx) v))"

section \<open>Dead readers\<close>

definition sibling_key :: "RuleContext \<Rightarrow> string \<Rightarrow> string" where
  "sibling_key ctx k = (case map_of (SiblingKey ctx) k of None \<Rightarrow> [] | Some s \<Rightarrow> s)"

definition after_terminator :: "RuleContext \<Rightarrow> string \<Rightarrow> bool" where
  "after_terminator ctx k =
     (case map_of (BlockIndex ctx) k of
        None \<Rightarrow> False
      | Some i \<Rightarrow> (case map_of (TerminatorIndex ctx) (sibling_key ctx k) of None \<Rightarrow> False | Some t \<Rightarrow> i > t))"

definition before_terminator :: "RuleContext \<Rightarrow> string \<Rightarrow> bool" where
  "before_terminator ctx k =
     (case map_of (TerminatorIndex ctx) (sibling_key ctx k) of
        None \<Rightarrow> False
      | Some t \<Rightarrow> (case map_of (BlockIndex ctx) k of None \<Rightarrow> False | Some i \<Rightarrow> i \<le> t))"

text \<open>The scan of the readers of one variable: \<open>n\<close> and \<open>allDead\<close>, up to the first live reader.\<close>

fun scan_readers :: "RuleContext \<Rightarrow> string \<Rightarrow> nat \<Rightarrow> string list \<Rightarrow> nat \<times> bool" where
  "scan_readers ctx v n [] = (n, True)"
| "scan_readers ctx v n (k # ks) =
     (case map_of (AllBlocks ctx) k of
        None \<Rightarrow> scan_readers ctx v n ks
      | Some b \<Rightarrow>
          if writes_var (binfo b) v then scan_readers ctx v n ks
          else if map_of (BlockIndex ctx) k = None \<or> after_terminator ctx k then scan_readers ctx v (n + 1) ks
          else (n + 1, False))"

definition buildAllReadersDead :: "RuleContext \<Rightarrow> string list" where
  "buildAllReadersDead ctx = map fst (filter (\<lambda>(v, candidates). case scan_readers ctx v 0 candidates of (n, allDead) \<Rightarrow>
     n > 0 \<and> allDead) (ReadersByVar ctx))"

definition dead_data_finding :: "string \<Rightarrow> Block \<Rightarrow> Finding" where
  "dead_data_finding v b = (block_finding ''dead-data'' SeverityInfo ''Dead data path''
     (''Variable '' @ quoted v @ '' is set here but all blocks that read it are themselves unreachable (after exit actions).'')
     ''Remove this variable assignment or move it before the exit action.'' b)\<lparr>fMetadata := [(''variable'', MetaString v)]\<rparr>"

definition dead_data_check :: "RuleContext \<Rightarrow> Block \<Rightarrow> Finding list" where
  "dead_data_check ctx blk =
     (let b = binfo blk; outVar = outputVar b in
      if bType b \<noteq> BlockTypeVariable then []
      else if outVar = [] then []
      else if \<not> before_terminator ctx (bID b) then []
      else if outVar \<notin> set (buildAllReadersDead ctx) then []
      else [dead_data_finding outVar blk])"

definition DeadDataRule :: Rule where
  "DeadDataRule = block_rule ''dead-data'' SeverityInfo ''Logic'' dead_data_check"

section \<open>The limited analysis\<close>

record DataFlowLimits =
  MaxEdgesPerVariable :: int
  MaxEdges :: int
  MaxTaintPaths :: int
  MaxDeadData :: int

definition DefaultDataFlowLimits :: DataFlowLimits where
  "DefaultDataFlowLimits = \<lparr>MaxEdgesPerVariable = 200, MaxEdges = 100000, MaxTaintPaths = 10000, MaxDeadData = 10000\<rparr>"

definition limitOrMax :: "int \<Rightarrow> nat" where
  "limitOrMax n = (if n \<le> 0 then MaxInt else nat n)"

record BlockDataFlow =
  dfBlockID :: string
  dfSubflowID :: string
  dfReads :: "string list"
  dfWrites :: "string list"
  dfUpstream :: "string list"
  dfDownstream :: "string list"

record TaintPath =
  tpSourceVar :: string
  tpSourceBlock :: string
  tpSinkBlock :: string
  tpSinkType :: string
  tpPath :: "string list"

record DeadDataPath =
  ddVariable :: string
  ddSetBlock :: string
  ddReadBlock :: string
  ddReason :: string

definition block_data_flow :: "RuleContext \<Rightarrow> string \<Rightarrow> BlockDataFlow" where
  "block_data_flow ctx k =
     (let b = binfo (the (map_of (AllBlocks ctx) k)) in
      \<lparr>dfBlockID = k, dfSubflowID = bSubflowID b, dfReads = bVariables b, dfWrites = writes_of b,
       dfUpstream = [], dfDownstream = []\<rparr>)"

text \<open>The writers of one variable: what is listed, the budget left, and what the limits cut off.\<close>

fun list_writers :: "string \<Rightarrow> nat \<Rightarrow> nat \<Rightarrow> string list \<Rightarrow> string list \<times> nat \<times> string list" where
  "list_writers k room budget [] = ([], budget, [])"
| "list_writers k room budget (w # cands) =
     (if room = 0 \<or> budget = 0 then ([], budget, w # cands)
      else if w = k then list_writers k room budget cands
      else (case list_writers k (room - 1) (budget - 1) cands of (us, budget, rest) \<Rightarrow> (w # us, budget, rest)))"

definition upstream_read ::
    "RuleContext \<Rightarrow> nat \<Rightarrow> string \<Rightarrow> string list \<times> nat \<times> bool \<Rightarrow> string \<Rightarrow> string list \<times> nat \<times> bool" where
  "upstream_read ctx perVar k st readVar =
     (case st of (us, budget, truncated) \<Rightarrow>
      case list_writers k perVar budget (list_at (WritersByVar ctx) readVar) of
        (new, budget, rest) \<Rightarrow> (us @ new, budget, truncated \<or> list_ex (\<lambda>w. w \<noteq> k) rest))"

definition upstream_block ::
    "RuleContext \<Rightarrow> nat \<Rightarrow> BlockDataFlow \<Rightarrow> nat \<times> bool \<Rightarrow> BlockDataFlow \<times> nat \<times> bool" where
  "upstream_block ctx perVar df st =
     (case foldl (upstream_read ctx perVar (dfBlockID df)) ([], st) (dfReads df) of
        (us, st) \<Rightarrow> (df\<lparr>dfUpstream := us\<rparr>, st))"

record readerAt =
  raID :: string
  raLine :: nat
  raPos :: nat

definition readers_at :: "RuleContext \<Rightarrow> string \<Rightarrow> readerAt list" where
  "readers_at ctx v = List.map_filter (\<lambda>(pos, k). case map_of (AllBlocks ctx) k of None \<Rightarrow> None
     | Some b \<Rightarrow> Some \<lparr>raID = k, raLine = bLineNumber (binfo b), raPos = pos\<rparr>) (enumerate 0 (list_at (ReadersByVar ctx) v))"

definition readersByLine :: "RuleContext \<Rightarrow> string \<Rightarrow> readerAt list" where
  "readersByLine ctx v = sort_key raLine (readers_at ctx v)"

text \<open>\<open>sort.Search(n, f)\<close>: the binary search on \<open>[i, j)\<close>.\<close>

function bin_search :: "(nat \<Rightarrow> bool) \<Rightarrow> nat \<Rightarrow> nat \<Rightarrow> nat" where
  "bin_search f i j =
     (if i < j then (let h = (i + j) div 2 in if \<not> f h then bin_search f (h + 1) j else bin_search f i h) else i)"
  by pat_completeness auto
termination
  by (relation "measure (\<lambda>(f, i, j). j - i)") auto

declare bin_search.simps [simp del]

definition Search :: "nat \<Rightarrow> (nat \<Rightarrow> bool) \<Rightarrow> nat" where
  "Search n f = bin_search f 0 n"

definition downstream_write ::
    "RuleContext \<Rightarrow> nat \<Rightarrow> nat \<Rightarrow> string list \<times> nat \<times> bool \<Rightarrow> string \<Rightarrow> string list \<times> nat \<times> bool" where
  "downstream_write ctx perVar writerLine st writeVar =
     (case st of (ds, budget, truncated) \<Rightarrow>
      let idx = readersByLine ctx writeVar;
          after = drop (Search (length idx) (\<lambda>n. raLine (idx ! n) > writerLine)) idx;
          n = min (length after) (min perVar budget)
      in (ds @ map raID (sort_key raPos (take n after)), budget - n, truncated \<or> n < length after))"

definition downstream_block ::
    "RuleContext \<Rightarrow> nat \<Rightarrow> BlockDataFlow \<Rightarrow> nat \<times> bool \<Rightarrow> BlockDataFlow \<times> nat \<times> bool" where
  "downstream_block ctx perVar df st =
     (case foldl (downstream_write ctx perVar (bLineNumber (binfo (the (map_of (AllBlocks ctx) (dfBlockID df))))))
             ([], st) (dfWrites df) of
        (ds, st) \<Rightarrow> (df\<lparr>dfDownstream := ds\<rparr>, st))"

definition dataFlowCheckEvery :: nat where
  "dataFlowCheckEvery = 256"

text \<open>One pass over the blocks in visiting order, stopped by the context every \<open>dataFlowCheckEvery\<close> blocks.\<close>

fun edge_pass ::
    "(nat \<Rightarrow> bool) \<Rightarrow> (BlockDataFlow \<Rightarrow> nat \<times> bool \<Rightarrow> BlockDataFlow \<times> nat \<times> bool) \<Rightarrow> nat \<Rightarrow>
     BlockDataFlow list \<Rightarrow> nat \<times> bool \<Rightarrow> (BlockDataFlow list \<times> nat \<times> bool) option" where
  "edge_pass stop f i [] st = Some ([], st)"
| "edge_pass stop f i (df # dfs) st =
     (if i mod dataFlowCheckEvery = 0 \<and> stop i then None
      else (case f df st of (df, st) \<Rightarrow>
        (case edge_pass stop f (i + 1) dfs st of None \<Rightarrow> None | Some (dfs, st) \<Rightarrow> Some (df # dfs, st))))"

text \<open>The guard of the two result loops: one entry more than \<open>limit\<close> ends them.\<close>

fun list_up_to :: "nat \<Rightarrow> 'a list \<Rightarrow> 'a list \<Rightarrow> 'a list \<times> bool" where
  "list_up_to limit acc [] = (acc, False)"
| "list_up_to limit acc (x # xs) = (if length acc \<ge> limit then (acc, True) else list_up_to limit (acc @ [x]) xs)"

definition sinkPrefixes :: "(string \<times> string) list" where
  "sinkPrefixes = [(''File.Write'', ''file''), (''File.AppendText'', ''file''), (''File.Create'', ''file''),
     (''Text.WriteTo'', ''file''), (''Display.ShowMessage'', ''UI message''), (''Display.ShowCustomDialog'', ''UI dialog''),
     (''Text.Display'', ''UI''), (''Logger.'', ''log''), (''System.RunApplication'', ''process''),
     (''HTTPClient.Invoke'', ''HTTP request'')]"

definition findSink :: "string \<Rightarrow> string" where
  "findSink rawType = (case find (\<lambda>(p, t). HasPrefix rawType p) sinkPrefixes of None \<Rightarrow> [] | Some (p, t) \<Rightarrow> t)"

definition inputPrefixes :: "string list" where
  "inputPrefixes = [''Input_'', ''input_'', ''UserInput_'', ''userinput_'']"

definition taint_sources :: "FlowDocument \<Rightarrow> RuleContext \<Rightarrow> string list \<Rightarrow> string list" where
  "taint_sources doc ctx ids =
     concat (map (\<lambda>k. let ps = bProperties (binfo (the (map_of (AllBlocks ctx) k)));
            rt = getprop ps ''_inputType''; out = getprop ps ''_output''
        in if (rt = ''dialog'' \<or> rt = ''prompt'') \<and> out \<noteq> [] then [out] else []) ids)
     @ concat (map (\<lambda>sf. concat (map (\<lambda>v. concat (map (\<lambda>p.
          if length (vdName v) > length p \<and> take (length p) (vdName v) = p then [vdName v] else []) inputPrefixes))
        (sfVariables sf))) (Subflows doc))"

definition add_sink :: "Block \<Rightarrow> string \<Rightarrow> (string \<times> (Block \<times> string) list) list \<Rightarrow> string \<Rightarrow> (string \<times> (Block \<times> string) list) list" where
  "add_sink b st m v =
     (let list = list_at m v in if list \<noteq> [] \<and> fst (last list) = b then m else append_at v (b, st) m)"

definition sinksByVar :: "RuleContext \<Rightarrow> string list \<Rightarrow> (string \<times> (Block \<times> string) list) list" where
  "sinksByVar ctx ids = foldl (\<lambda>m k. let b = the (map_of (AllBlocks ctx) k); st = findSink (bRawType (binfo b)) in
     if st = [] then m else foldl (add_sink b st) m (bVariables (binfo b))) [] ids"

definition taint_path :: "string \<Rightarrow> Block \<times> string \<Rightarrow> TaintPath" where
  "taint_path source s = \<lparr>tpSourceVar = source, tpSourceBlock = [], tpSinkBlock = bID (binfo (fst s)), tpSinkType = snd s,
     tpPath = [source, bID (binfo (fst s))]\<rparr>"

definition computeTaintPaths :: "FlowDocument \<Rightarrow> RuleContext \<Rightarrow> string list \<Rightarrow> nat \<Rightarrow> TaintPath list \<times> bool" where
  "computeTaintPaths doc ctx ids limit =
     (let sources = taint_sources doc ctx ids; sinks = sinksByVar ctx ids in
      if sources = [] then ([], False)
      else list_up_to limit [] (concat (map (\<lambda>s. map (taint_path s) (list_at sinks s)) sources)))"

definition dead_paths_of :: "RuleContext \<Rightarrow> string list \<Rightarrow> string \<Rightarrow> DeadDataPath list" where
  "dead_paths_of ctx used k =
     (let b = binfo (the (map_of (AllBlocks ctx) k)); v = outputVar b in
      if v = [] \<or> v \<notin> set used \<or> \<not> before_terminator ctx (bID b) then []
      else map (\<lambda>r. \<lparr>ddVariable = v, ddSetBlock = bID b, ddReadBlock = r,
                 ddReason = ''reader is in dead code (after terminator)''\<rparr>)
             (filter (after_terminator ctx) (findReaders v ctx)))"

definition computeDeadDataPaths :: "RuleContext \<Rightarrow> string list \<Rightarrow> nat \<Rightarrow> DeadDataPath list \<times> bool" where
  "computeDeadDataPaths ctx ids limit =
     (let used = buildUsedVariables ctx in list_up_to limit [] (concat (map (dead_paths_of ctx used) ids)))"

record DataFlowResult =
  drBlocks :: "BlockDataFlow list"
  drTaintPaths :: "TaintPath list"
  drDeadData :: "DeadDataPath list"
  drTruncated :: bool
  drEdgesTruncated :: bool
  drTaintPathsTruncated :: bool
  drDeadDataTruncated :: bool
  drLimits :: DataFlowLimits

datatype df_check = DfStart | DfUpstream nat | DfDownstream nat | DfTaint | DfDead

definition AnalyzeDataFlowCtx :: "(df_check \<Rightarrow> bool) \<Rightarrow> FlowDocument \<Rightarrow> DataFlowLimits \<Rightarrow> DataFlowResult option" where
  "AnalyzeDataFlowCtx stop doc limits =
     (if stop DfStart then None
      else
        (let ctx = buildContext doc; ids = sort (map fst (AllBlocks ctx)); perVar = limitOrMax (MaxEdgesPerVariable limits);
             budget = limitOrMax (MaxEdges limits)
         in case edge_pass (\<lambda>i. stop (DfUpstream i)) (upstream_block ctx perVar) 0 (map (block_data_flow ctx) ids) (budget, False) of
           None \<Rightarrow> None
         | Some (dfs, _, t1) \<Rightarrow>
             (case edge_pass (\<lambda>i. stop (DfDownstream i)) (downstream_block ctx perVar) 0 dfs (budget, t1) of
                None \<Rightarrow> None
              | Some (dfs, _, t2) \<Rightarrow>
                  if stop DfTaint then None
                  else
                    (case computeTaintPaths doc ctx ids (limitOrMax (MaxTaintPaths limits)) of (paths, tt) \<Rightarrow>
                     if stop DfDead then None
                     else
                       (case computeDeadDataPaths ctx ids (limitOrMax (MaxDeadData limits)) of (dead, td) \<Rightarrow>
                        Some \<lparr>drBlocks = dfs, drTaintPaths = paths, drDeadData = dead, drTruncated = (t2 \<or> tt \<or> td),
                              drEdgesTruncated = t2, drTaintPathsTruncated = tt, drDeadDataTruncated = td, drLimits = limits\<rparr>)))))"

section \<open>Listing under a budget\<close>

text \<open>
  What a listing routine does with the budget and the flag \<open>EdgesTruncated\<close>: the entries \<open>ys\<close> are paid
  from the budget, come from the full list \<open>refs\<close>, and the flag is raised exactly when some are missing.
\<close>

definition listed :: "nat \<Rightarrow> string list \<Rightarrow> nat \<times> bool \<Rightarrow> string list \<Rightarrow> nat \<times> bool \<Rightarrow> bool" where
  "listed cap refs s ys s' \<longleftrightarrow> length ys + fst s' = fst s \<and> length ys \<le> cap \<and> set ys \<subseteq> set refs \<and>
     length ys \<le> length refs \<and> (snd s' \<longleftrightarrow> snd s \<or> length ys < length refs) \<and> (length ys = length refs \<longrightarrow> ys = refs)"

lemma listed_append:
  "listed c r s ys s' \<Longrightarrow> listed c' r' s' zs s'' \<Longrightarrow> listed (c + c') (r @ r') s (ys @ zs) s''"
  unfolding listed_def by auto

lemma listed_refl: "listed 0 [] s [] s"
  by (simp add: listed_def)

lemma listed_exact: "listed c r s ys s' \<Longrightarrow> snd s' \<longleftrightarrow> snd s \<or> ys \<noteq> r"
  unfolding listed_def by (metis less_le)

locale edge_step =
  fixes step :: "string list \<times> nat \<times> bool \<Rightarrow> string \<Rightarrow> string list \<times> nat \<times> bool"
    and full :: "string \<Rightarrow> string list"
    and cap :: nat
  assumes step_lists: "\<exists>new s'. step (us, s) v = (us @ new, s') \<and> listed cap (full v) s new s'"
begin

lemma run_lists:
  "\<exists>new s'. foldl step (us, s) vs = (us @ new, s') \<and> listed (cap * length vs) (concat (map full vs)) s new s'"
proof (induction vs arbitrary: us s)
  case Nil
  show ?case by (simp add: listed_refl)
next
  case (Cons v vs)
  obtain new s' where step: "step (us, s) v = (us @ new, s')" "listed cap (full v) s new s'" using step_lists by blast
  obtain new' s'' where run: "foldl step (us @ new, s') vs = (us @ new @ new', s'')"
    "listed (cap * length vs) (concat (map full vs)) s' new' s''" using Cons.IH [of "us @ new" s'] by auto
  from listed_append [OF step(2) run(2)] step(1) run(1) show ?case by auto
qed

end

lemma list_writers_spec:
  "list_writers k room budget cands = (us, budget', rest) \<Longrightarrow>
     \<exists>pre. cands = pre @ rest \<and> us = filter (\<lambda>w. w \<noteq> k) pre \<and> length us + budget' = budget \<and> length us \<le> room"
proof (induction k room budget cands arbitrary: us budget' rest rule: list_writers.induct)
  case (2 k room budget w cands)
  show ?case
  proof (cases "room = 0 \<or> budget = 0")
    case True
    with "2.prems" show ?thesis by (intro exI [of _ "[]"]) auto
  next
    case nz: False
    show ?thesis
    proof (cases "w = k")
      case True
      with "2.IH"(1) [OF nz True, of us budget' rest] "2.prems" nz obtain pre where
        "cands = pre @ rest" "us = filter (\<lambda>w. w \<noteq> k) pre" "length us + budget' = budget" "length us \<le> room" by auto
      with True show ?thesis by (intro exI [of _ "w # pre"]) auto
    next
      case False
      with "2.prems" nz obtain us' where us': "list_writers k (room - 1) (budget - 1) cands = (us', budget', rest)" "us = w # us'"
        by (auto split: prod.splits)
      from "2.IH"(2) [OF nz False us'(1)] obtain pre where "cands = pre @ rest" "us' = filter (\<lambda>w. w \<noteq> k) pre"
        "length us' + budget' = budget - 1" "length us' \<le> room - 1" by auto
      with False us'(2) nz show ?thesis by (intro exI [of _ "w # pre"]) auto
    qed
  qed
qed simp

interpretation upstream: edge_step "upstream_read ctx perVar k" "\<lambda>v. findWriters v ctx k" perVar for ctx perVar k
proof
  fix us and s :: "nat \<times> bool" and v
  obtain budget truncated where s: "s = (budget, truncated)" by (cases s)
  obtain new budget' rest where l: "list_writers k perVar budget (list_at (WritersByVar ctx) v) = (new, budget', rest)"
    by (cases "list_writers k perVar budget (list_at (WritersByVar ctx) v)") auto
  from list_writers_spec [OF l] obtain pre where pre: "list_at (WritersByVar ctx) v = pre @ rest"
    "new = filter (\<lambda>w. w \<noteq> k) pre" "length new + budget' = budget" "length new \<le> perVar" by blast
  have "list_ex (\<lambda>w. w \<noteq> k) rest \<longleftrightarrow> filter (\<lambda>w. w \<noteq> k) rest \<noteq> []" by (auto simp: list_ex_iff filter_empty_conv)
  then have "listed perVar (findWriters v ctx k) s new (budget', truncated \<or> list_ex (\<lambda>w. w \<noteq> k) rest)"
    using pre by (auto simp: listed_def findWriters_def s)
  with l show "\<exists>new s'. upstream_read ctx perVar k (us, s) v = (us @ new, s') \<and> listed perVar (findWriters v ctx k) s new s'"
    by (auto simp: upstream_read_def s)
qed

text \<open>The binary search finds the first position where a monotone predicate holds.\<close>

lemma bin_search_spec:
  assumes "i \<le> j" "\<forall>m n. m \<le> n \<longrightarrow> n < j \<longrightarrow> f m \<longrightarrow> f n"
  shows "i \<le> bin_search f i j \<and> bin_search f i j \<le> j \<and> (\<forall>n. i \<le> n \<longrightarrow> n < j \<longrightarrow> f n = (bin_search f i j \<le> n))"
  using assms
proof (induction f i j rule: bin_search.induct)
  case (1 f i j)
  show ?case
  proof (cases "i < j")
    case True
    define h where "h = (i + j) div 2"
    have h: "i \<le> h" "h < j" using True by (auto simp: h_def)
    show ?thesis
    proof (cases "f h")
      case False
      have eq: "bin_search f i j = bin_search f (h + 1) j"
        using True False by (simp add: bin_search.simps [of f i j] Let_def flip: h_def)
      have IH: "h + 1 \<le> bin_search f (h + 1) j" "bin_search f (h + 1) j \<le> j"
          "\<forall>n. h + 1 \<le> n \<longrightarrow> n < j \<longrightarrow> f n = (bin_search f (h + 1) j \<le> n)"
        using "1.IH"(1) [OF True h_def False] "1.prems"(2) h by simp_all
      have low: "\<not> f n" if "n \<le> h" for n using that "1.prems"(2) h(2) False by blast
      have "f n = (bin_search f (h + 1) j \<le> n)" if "n < j" for n
        using IH(1,3) low that by (cases "n \<le> h") auto
      with IH(1,2) h show ?thesis unfolding eq by simp
    next
      case t: True
      have eq: "bin_search f i j = bin_search f i h"
        using True t by (simp add: bin_search.simps [of f i j] Let_def flip: h_def)
      have IH: "i \<le> bin_search f i h" "bin_search f i h \<le> h" "\<forall>n. i \<le> n \<longrightarrow> n < h \<longrightarrow> f n = (bin_search f i h \<le> n)"
        using "1.IH"(2) [OF True h_def] t "1.prems"(2) h by simp_all
      have high: "f n" if "h \<le> n" "n < j" for n using that "1.prems"(2) t by blast
      have "f n = (bin_search f i h \<le> n)" if "i \<le> n" "n < j" for n
        using IH(2,3) high that by (cases "n < h") auto
      with IH(1,2) h show ?thesis unfolding eq by simp
    qed
  next
    case False
    with "1.prems" have "i = j" by simp
    then show ?thesis by (simp add: bin_search.simps [of f j j])
  qed
qed

lemma drop_at_threshold:
  assumes "k \<le> length xs" "\<And>n. n < length xs \<Longrightarrow> P (xs ! n) = (k \<le> n)"
  shows "drop k xs = filter P xs"
proof -
  have "\<not> P x" if "x \<in> set (take k xs)" for x
  proof -
    from that obtain n where "n < length (take k xs)" "take k xs ! n = x" unfolding in_set_conv_nth by blast
    with assms(2) [of n] show ?thesis by auto
  qed
  moreover have "P x" if "x \<in> set (drop k xs)" for x
  proof -
    from that obtain n where "n < length (drop k xs)" "drop k xs ! n = x" unfolding in_set_conv_nth by blast
    with assms(1) assms(2) [of "k + n"] show ?thesis by auto
  qed
  ultimately have "filter P (take k xs) @ filter P (drop k xs) = [] @ drop k xs"
    by (intro arg_cong2 [of _ _ _ _ "(@)"] filter_True filter_False) blast+
  then show ?thesis unfolding filter_append [symmetric] append_take_drop_id by simp
qed

lemma drop_Search:
  fixes key :: "'a \<Rightarrow> nat"
  assumes "sorted (map key xs)"
  shows "drop (Search (length xs) (\<lambda>n. key (xs ! n) > L)) xs = filter (\<lambda>x. key x > L) xs"
proof (rule drop_at_threshold)
  have mono: "\<forall>m n. m \<le> n \<longrightarrow> n < length xs \<longrightarrow> key (xs ! m) > L \<longrightarrow> key (xs ! n) > L"
  proof (intro allI impI)
    fix m n assume "m \<le> n" "n < length xs" "key (xs ! m) > L"
    moreover from this have "map key xs ! m \<le> map key xs ! n" by (intro sorted_nth_mono [OF assms]) simp_all
    ultimately show "key (xs ! n) > L" by (metis le_less_trans length_map less_le_trans nth_map)
  qed
  note spec = bin_search_spec [OF le0 mono]
  from spec show "Search (length xs) (\<lambda>n. key (xs ! n) > L) \<le> length xs" unfolding Search_def by (elim conjE)
  fix n assume "n < length xs"
  with spec show "(key (xs ! n) > L) = (Search (length xs) (\<lambda>n. key (xs ! n) > L) \<le> n)" unfolding Search_def by blast
qed

text \<open>The readers of a variable below a line, in the order of the index.\<close>

definition readers_below :: "RuleContext \<Rightarrow> nat \<Rightarrow> string \<Rightarrow> string list" where
  "readers_below ctx L v = map raID (filter (\<lambda>r. raLine r > L) (readers_at ctx v))"

lemma readers_at_sorted: "sorted_wrt (\<lambda>a b. raPos a < raPos b) (readers_at ctx v)"
proof -
  have "sorted_wrt (\<lambda>a b. raPos a < raPos b) (List.map_filter g (enumerate n ks)) \<and>
      (\<forall>r \<in> set (List.map_filter g (enumerate n ks)). n \<le> raPos r)"
    if "\<And>p r. g p = Some r \<Longrightarrow> raPos r = fst p" for g :: "nat \<times> string \<Rightarrow> readerAt option" and n ks
  proof (induction ks arbitrary: n)
    case (Cons k ks)
    from Cons.IH [of "Suc n"] that show ?case
      by (cases "g (n, k)") (auto simp: map_filter_simps Suc_le_eq intro: less_imp_le dest: less_imp_le)
  qed (simp add: map_filter_simps)
  note this [THEN conjunct1]
  then show ?thesis unfolding readers_at_def by (rule meta_mp) (auto split: option.splits)
qed

lemma sort_pos_filter:
  "sort_key raPos (filter P (sort_key raLine (readers_at ctx v))) = filter P (readers_at ctx v)"
proof (rule map_sorted_distinct_set_unique)
  let ?rs = "readers_at ctx v"
  from readers_at_sorted have s: "sorted_wrt (<) (map raPos ?rs)" by (simp add: sorted_wrt_map)
  then have inj: "inj_on raPos (set ?rs)" by (metis distinct_map strict_sorted_iff)
  then show "inj_on raPos (set (sort_key raPos (filter P (sort_key raLine ?rs))) \<union> set (filter P ?rs))"
    by (rule inj_on_subset) auto
  from s have f: "sorted_wrt (<) (map raPos (filter P ?rs))" by (simp add: sorted_wrt_map sorted_wrt_filter)
  then show "sorted (map raPos (filter P ?rs))" "distinct (map raPos (filter P ?rs))" by (simp_all add: strict_sorted_iff)
  show "sorted (map raPos (sort_key raPos (filter P (sort_key raLine ?rs))))" by simp
  have "mset (map raPos (sort_key raPos (filter P (sort_key raLine ?rs)))) = mset (map raPos (filter P ?rs))" by simp
  then show "distinct (map raPos (sort_key raPos (filter P (sort_key raLine ?rs))))"
    using f by (metis mset_eq_imp_distinct_iff strict_sorted_iff)
qed auto

interpretation downstream: edge_step "downstream_write ctx perVar L" "readers_below ctx L" perVar for ctx perVar L
proof
  fix us and s :: "nat \<times> bool" and v
  obtain budget truncated where s: "s = (budget, truncated)" by (cases s)
  let ?P = "\<lambda>r. raLine r > L" and ?idx = "readersByLine ctx v"
  let ?after = "filter ?P (sort_key raLine (readers_at ctx v))"
  let ?n = "min (length ?after) (min perVar budget)"
  let ?new = "map raID (sort_key raPos (take ?n ?after))"
  have after: "drop (Search (length ?idx) (\<lambda>n. raLine (?idx ! n) > L)) ?idx = ?after"
    unfolding readersByLine_def by (rule drop_Search) simp
  have "mset ?after = mset (filter ?P (readers_at ctx v))" by (simp add: mset_filter)
  from mset_eq_length [OF this] have "length ?after = length (readers_below ctx L v)" by (simp add: readers_below_def)
  moreover have "set ?new \<subseteq> set (readers_below ctx L v)"
    by (auto simp: readers_below_def dest: in_set_takeD)
  moreover have "?new = readers_below ctx L v" if "?n = length ?after"
    unfolding that take_all_iff [THEN iffD2, OF order_refl] sort_pos_filter readers_below_def by (rule refl)
  ultimately have "listed perVar (readers_below ctx L v) s ?new (budget - ?n, truncated \<or> ?n < length ?after)"
    by (auto simp: listed_def s)
  then show "\<exists>new s'. downstream_write ctx perVar L (us, s) v = (us @ new, s') \<and> listed perVar (readers_below ctx L v) s new s'"
    unfolding downstream_write_def s prod.case Let_def after by blast
qed

lemma readers_below_after:
  assumes "map_of (AllBlocks ctx) k = Some w"
  shows "readers_below ctx (bLineNumber (binfo w)) v = findReadersAfter v ctx k"
proof -
  let ?L = "bLineNumber (binfo w)"
  have "map raID (filter (\<lambda>r. raLine r > ?L) (List.map_filter (\<lambda>(pos, k). case map_of (AllBlocks ctx) k of None \<Rightarrow> None
     | Some b \<Rightarrow> Some \<lparr>raID = k, raLine = bLineNumber (binfo b), raPos = pos\<rparr>) (enumerate n ks))) =
    filter (\<lambda>j. j \<noteq> k \<and> (case map_of (AllBlocks ctx) j of None \<Rightarrow> False | Some b \<Rightarrow> bLineNumber (binfo b) > ?L)) ks" for n ks
    by (induction ks arbitrary: n) (auto simp: map_filter_simps assms split: option.split)
  then show ?thesis by (simp add: readers_below_def readers_at_def findReadersAfter_def assms)
qed

section \<open>Passes\<close>

text \<open>The contract of a visit, and what it gives of a pass over all blocks.\<close>

locale edge_lister =
  fixes visit :: "BlockDataFlow \<Rightarrow> nat \<times> bool \<Rightarrow> BlockDataFlow \<times> nat \<times> bool"
    and ok :: "BlockDataFlow \<Rightarrow> bool"
    and full :: "BlockDataFlow \<Rightarrow> string list"
    and out :: "BlockDataFlow \<Rightarrow> string list"
    and keep :: "BlockDataFlow \<Rightarrow> 'k"
    and cap :: "BlockDataFlow \<Rightarrow> nat"
  assumes visit_lists: "ok df \<Longrightarrow> visit df s = (df', s') \<Longrightarrow>
    keep df' = keep df \<and> listed (cap df') (full df') s (out df') s'"
begin

lemma pass_lists:
  "list_all ok dfs \<Longrightarrow> edge_pass stop visit i dfs s = Some (dfs', s') \<Longrightarrow>
     map keep dfs' = map keep dfs \<and> sum_list (map (\<lambda>df. length (out df)) dfs') + fst s' = fst s \<and>
     list_all (\<lambda>df. set (out df) \<subseteq> set (full df) \<and> length (out df) \<le> cap df) dfs' \<and>
     (snd s' \<longleftrightarrow> snd s \<or> \<not> list_all (\<lambda>df. out df = full df) dfs')"
proof (induction dfs arbitrary: i s dfs')
  case (Cons df dfs)
  obtain df1 s1 where v: "visit df s = (df1, s1)" by (metis surj_pair)
  with Cons.prems(2) obtain dfs1 where rest: "edge_pass stop visit (i + 1) dfs s1 = Some (dfs1, s')" "dfs' = df1 # dfs1"
    by (auto split: if_splits option.splits)
  from visit_lists [OF _ v] Cons.prems(1) have l: "keep df1 = keep df" "listed (cap df1) (full df1) s (out df1) s1" by simp_all
  from Cons.IH [OF _ rest(1)] Cons.prems(1) l listed_exact [OF l(2)] show ?case
    by (auto simp: rest(2) listed_def)
qed auto

end

lemma pass_total: "\<exists>r. edge_pass (\<lambda>_. False) f i dfs s = Some r"
proof (induction dfs arbitrary: i s)
  case (Cons df dfs)
  obtain df1 s1 where "f df s = (df1, s1)" by (metis surj_pair)
  with Cons [of "Suc i" s1] show ?case by auto
qed simp

definition df_known :: "RuleContext \<Rightarrow> BlockDataFlow \<Rightarrow> bool" where
  "df_known ctx df \<longleftrightarrow> map_of (AllBlocks ctx) (dfBlockID df) \<noteq> None"

text \<open>The unlimited lists of a block, as the two lookup functions give them.\<close>

definition all_writers :: "RuleContext \<Rightarrow> BlockDataFlow \<Rightarrow> string list" where
  "all_writers ctx df = concat (map (\<lambda>v. findWriters v ctx (dfBlockID df)) (dfReads df))"

definition all_readers :: "RuleContext \<Rightarrow> BlockDataFlow \<Rightarrow> string list" where
  "all_readers ctx df = concat (map (\<lambda>v. findReadersAfter v ctx (dfBlockID df)) (dfWrites df))"

definition df_base :: "BlockDataFlow \<Rightarrow> string \<times> string \<times> string list \<times> string list" where
  "df_base df = (dfBlockID df, dfSubflowID df, dfReads df, dfWrites df)"

interpretation upstream_pass: edge_lister "upstream_block ctx perVar" "\<lambda>_. True" "all_writers ctx" dfUpstream
    "\<lambda>df. (df_base df, dfDownstream df)" "\<lambda>df. perVar * length (dfReads df)" for ctx perVar
proof
  fix df df' and s s' :: "nat \<times> bool" assume v: "upstream_block ctx perVar df s = (df', s')"
  obtain new s1 where "foldl (upstream_read ctx perVar (dfBlockID df)) ([], s) (dfReads df) = (new, s1)"
    "listed (perVar * length (dfReads df)) (all_writers ctx df) s new s1"
    using upstream.run_lists [of ctx perVar "dfBlockID df" "[]" s "dfReads df"] by (auto simp: all_writers_def)
  with v show "(df_base df', dfDownstream df') = (df_base df, dfDownstream df) \<and>
      listed (perVar * length (dfReads df')) (all_writers ctx df') s (dfUpstream df') s'"
    by (auto simp: upstream_block_def df_base_def all_writers_def)
qed

interpretation downstream_pass: edge_lister "downstream_block ctx perVar" "df_known ctx" "all_readers ctx" dfDownstream
    "\<lambda>df. (df_base df, dfUpstream df)" "\<lambda>df. perVar * length (dfWrites df)" for ctx perVar
proof
  fix df df' and s s' :: "nat \<times> bool" assume "df_known ctx df" and v: "downstream_block ctx perVar df s = (df', s')"
  then obtain w where w: "map_of (AllBlocks ctx) (dfBlockID df) = Some w" by (auto simp: df_known_def)
  have "readers_below ctx (bLineNumber (binfo w)) = (\<lambda>v. findReadersAfter v ctx (dfBlockID df))"
    by (rule ext) (rule readers_below_after [OF w])
  then obtain new s1 where "foldl (downstream_write ctx perVar (bLineNumber (binfo w))) ([], s) (dfWrites df) = (new, s1)"
    "listed (perVar * length (dfWrites df)) (all_readers ctx df) s new s1"
    using downstream.run_lists [of ctx perVar "bLineNumber (binfo w)" "[]" s "dfWrites df"]
    by (auto simp: all_readers_def)
  with v w show "(df_base df', dfUpstream df') = (df_base df, dfUpstream df) \<and>
      listed (perVar * length (dfWrites df')) (all_readers ctx df') s (dfDownstream df') s'"
    by (auto simp: downstream_block_def df_base_def all_readers_def)
qed

lemma list_up_to_take: "list_up_to limit acc xs = (acc @ take (limit - length acc) xs, limit < length acc + length xs \<and> xs \<noteq> [])"
  by (induction limit acc xs rule: list_up_to.induct) (auto simp: take_Cons' Suc_diff_le)

lemma list_up_to_limit: "list_up_to limit [] xs = (take limit xs, limit < length xs)"
  by (auto simp: list_up_to_take)

section \<open>Properties\<close>

lemma data_flow_passes:
  assumes "AnalyzeDataFlowCtx stop doc limits = Some r"
  obtains dfs b1 t1 b2 where
    "edge_pass (\<lambda>i. stop (DfUpstream i)) (upstream_block (buildContext doc) (limitOrMax (MaxEdgesPerVariable limits))) 0
       (map (block_data_flow (buildContext doc)) (sort (map fst (AllBlocks (buildContext doc)))))
       (limitOrMax (MaxEdges limits), False) = Some (dfs, b1, t1)"
    "edge_pass (\<lambda>i. stop (DfDownstream i)) (downstream_block (buildContext doc) (limitOrMax (MaxEdgesPerVariable limits))) 0
       dfs (limitOrMax (MaxEdges limits), t1) = Some (drBlocks r, b2, drEdgesTruncated r)"
    "computeTaintPaths doc (buildContext doc) (sort (map fst (AllBlocks (buildContext doc)))) (limitOrMax (MaxTaintPaths limits)) =
       (drTaintPaths r, drTaintPathsTruncated r)"
    "computeDeadDataPaths (buildContext doc) (sort (map fst (AllBlocks (buildContext doc)))) (limitOrMax (MaxDeadData limits)) =
       (drDeadData r, drDeadDataTruncated r)"
    "drTruncated r \<longleftrightarrow> drEdgesTruncated r \<or> drTaintPathsTruncated r \<or> drDeadDataTruncated r"
  using assms by (auto simp: AnalyzeDataFlowCtx_def Let_def split: if_splits option.splits prod.splits)

text \<open>What the upstream pass establishes survives the downstream pass, which keeps these fields.\<close>

lemma same_upstream:
  assumes k: "map (\<lambda>df. (df_base df, dfUpstream df)) xs = map (\<lambda>df. (df_base df, dfUpstream df)) ys"
  shows "list_all (\<lambda>df. dfUpstream df = all_writers ctx df) xs = list_all (\<lambda>df. dfUpstream df = all_writers ctx df) ys"
    and "list_all (\<lambda>df. set (dfUpstream df) \<subseteq> set (all_writers ctx df)) xs =
      list_all (\<lambda>df. set (dfUpstream df) \<subseteq> set (all_writers ctx df)) ys"
    and "sum_list (map (\<lambda>df. length (dfUpstream df)) xs) = sum_list (map (\<lambda>df. length (dfUpstream df)) ys)"
    and "map df_base xs = map df_base ys"
proof -
  let ?w = "\<lambda>(i, _, rs, _). concat (map (\<lambda>v. findWriters v ctx i) rs)"
  have w: "all_writers ctx df = ?w (df_base df)" for df by (simp add: all_writers_def df_base_def)
  have tr: "list_all (\<lambda>df. Q (df_base df) (dfUpstream df)) xs = list_all (\<lambda>df. Q (df_base df) (dfUpstream df)) ys" for Q
    using arg_cong [OF k, of "list_all (\<lambda>(b, us). Q b us)"] by (simp add: list.pred_map comp_def)
  show "list_all (\<lambda>df. dfUpstream df = all_writers ctx df) xs = list_all (\<lambda>df. dfUpstream df = all_writers ctx df) ys"
    unfolding w by (rule tr)
  show "list_all (\<lambda>df. set (dfUpstream df) \<subseteq> set (all_writers ctx df)) xs =
      list_all (\<lambda>df. set (dfUpstream df) \<subseteq> set (all_writers ctx df)) ys"
    unfolding w by (rule tr)
  show "sum_list (map (\<lambda>df. length (dfUpstream df)) xs) = sum_list (map (\<lambda>df. length (dfUpstream df)) ys)"
    using arg_cong [OF k, of "\<lambda>zs. sum_list (map (\<lambda>z. length (snd z)) zs)"] by (simp add: comp_def)
  show "map df_base xs = map df_base ys" using arg_cong [OF k, of "map fst"] by (simp add: comp_def)
qed

text \<open>The two passes together: what the blocks of a result hold.\<close>

lemma data_flow_blocks:
  fixes r :: DataFlowResult
  assumes "AnalyzeDataFlowCtx stop doc limits = Some r"
  defines "ctx \<equiv> buildContext doc" and "ids \<equiv> sort (map fst (AllBlocks (buildContext doc)))"
  shows "map df_base (drBlocks r) = map (\<lambda>k. df_base (block_data_flow ctx k)) ids"
    and "sum_list (map (\<lambda>df. length (dfUpstream df)) (drBlocks r)) \<le> limitOrMax (MaxEdges limits)"
    and "sum_list (map (\<lambda>df. length (dfDownstream df)) (drBlocks r)) \<le> limitOrMax (MaxEdges limits)"
    and "list_all (\<lambda>df. set (dfUpstream df) \<subseteq> set (all_writers ctx df) \<and> set (dfDownstream df) \<subseteq> set (all_readers ctx df))
      (drBlocks r)"
    and "drEdgesTruncated r \<longleftrightarrow>
      \<not> list_all (\<lambda>df. dfUpstream df = all_writers ctx df \<and> dfDownstream df = all_readers ctx df) (drBlocks r)"
proof -
  obtain dfs b1 t1 b2 where up: "edge_pass (\<lambda>i. stop (DfUpstream i)) (upstream_block ctx (limitOrMax (MaxEdgesPerVariable limits))) 0
       (map (block_data_flow ctx) ids) (limitOrMax (MaxEdges limits), False) = Some (dfs, b1, t1)"
    and down: "edge_pass (\<lambda>i. stop (DfDownstream i)) (downstream_block ctx (limitOrMax (MaxEdgesPerVariable limits))) 0
       dfs (limitOrMax (MaxEdges limits), t1) = Some (drBlocks r, b2, drEdgesTruncated r)"
    using data_flow_passes [OF assms(1)] unfolding ctx_def ids_def by metis
  have u: "map (\<lambda>df. (df_base df, dfDownstream df)) dfs = map (\<lambda>df. (df_base df, dfDownstream df)) (map (block_data_flow ctx) ids)"
    "sum_list (map (\<lambda>df. length (dfUpstream df)) dfs) \<le> limitOrMax (MaxEdges limits)"
    "list_all (\<lambda>df. set (dfUpstream df) \<subseteq> set (all_writers ctx df)) dfs"
    "t1 \<longleftrightarrow> \<not> list_all (\<lambda>df. dfUpstream df = all_writers ctx df) dfs"
    using upstream_pass.pass_lists [OF _ up] by (auto simp: list_all_iff)
  from arg_cong [OF u(1), of "map fst"] have base: "map df_base dfs = map (\<lambda>k. df_base (block_data_flow ctx k)) ids"
    by (simp add: comp_def)
  then have "map fst (map df_base dfs) = map fst (map (\<lambda>k. df_base (block_data_flow ctx k)) ids)" by (rule arg_cong)
  then have "map dfBlockID dfs = ids" by (simp add: comp_def df_base_def block_data_flow_def Let_def)
  then have known: "list_all (df_known ctx) dfs"
    unfolding list_all_iff df_known_def ctx_def ids_def map_of_eq_None_iff
    by (metis (no_types, lifting) image_eqI list.set_map set_sort)
  note d = downstream_pass.pass_lists [OF known down]
  have k: "map (\<lambda>df. (df_base df, dfUpstream df)) (drBlocks r) = map (\<lambda>df. (df_base df, dfUpstream df)) dfs" using d by simp
  note same = same_upstream [OF k]
  show "map df_base (drBlocks r) = map (\<lambda>k. df_base (block_data_flow ctx k)) ids" using same(4) base by simp
  show "sum_list (map (\<lambda>df. length (dfUpstream df)) (drBlocks r)) \<le> limitOrMax (MaxEdges limits)" using u(2) same(3) by simp
  show "sum_list (map (\<lambda>df. length (dfDownstream df)) (drBlocks r)) \<le> limitOrMax (MaxEdges limits)" using d by simp
  show "list_all (\<lambda>df. set (dfUpstream df) \<subseteq> set (all_writers ctx df) \<and> set (dfDownstream df) \<subseteq> set (all_readers ctx df)) (drBlocks r)"
    using d u(3) [folded same(2)] by (auto simp: list_all_iff)
  show "drEdgesTruncated r \<longleftrightarrow>
      \<not> list_all (\<lambda>df. dfUpstream df = all_writers ctx df \<and> dfDownstream df = all_readers ctx df) (drBlocks r)"
    using d u(4) [folded same(1)] by (auto simp: list_all_iff)
qed

lemma uncancelled_data_flow: "\<exists>r. AnalyzeDataFlowCtx (\<lambda>_. False) doc limits = Some r"
proof -
  obtain dfs b t where u: "edge_pass (\<lambda>i. False) (upstream_block (buildContext doc) (limitOrMax (MaxEdgesPerVariable limits))) 0
       (map (block_data_flow (buildContext doc)) (sort (map fst (AllBlocks (buildContext doc)))))
       (limitOrMax (MaxEdges limits), False) = Some (dfs, b, t)" using pass_total by (metis surj_pair)
  obtain dfs' b' t' where d: "edge_pass (\<lambda>i. False) (downstream_block (buildContext doc) (limitOrMax (MaxEdgesPerVariable limits))) 0
       dfs (limitOrMax (MaxEdges limits), t) = Some (dfs', b', t')" using pass_total by (metis surj_pair)
  show ?thesis by (simp add: AnalyzeDataFlowCtx_def Let_def u d split: prod.split)
qed

text \<open>
  C19: the limited data-flow analysis against the plain lookups. A run that is not cancelled returns one
  entry per block in identifier order; no entry lists a block the plain lookups do not give; and
  \<open>EdgesTruncated\<close> is set exactly when some list is not the complete one, so a result that is not
  truncated is the unlimited analysis. The indexed search for readers below a line finds, in order,
  what a scan over all readers finds.
\<close>

theorem data_flow_exact:
  "(case AnalyzeDataFlowCtx stop doc limits of None \<Rightarrow> stop \<noteq> (\<lambda>_. False) | Some r \<Rightarrow>
     let ctx = buildContext doc in
     map dfBlockID (drBlocks r) = sort (map fst (AllBlocks ctx)) \<and>
     list_all (\<lambda>df. set (dfUpstream df) \<subseteq> set (all_writers ctx df) \<and> set (dfDownstream df) \<subseteq> set (all_readers ctx df)) (drBlocks r) \<and>
     (\<not> drEdgesTruncated r \<longleftrightarrow>
        list_all (\<lambda>df. dfUpstream df = all_writers ctx df \<and> dfDownstream df = all_readers ctx df) (drBlocks r)))"
proof (cases "AnalyzeDataFlowCtx stop doc limits")
  case None
  with uncancelled_data_flow [of doc limits] show ?thesis by auto
next
  case (Some r)
  note b = data_flow_blocks [OF Some]
  have "map fst (map df_base (drBlocks r)) = sort (map fst (AllBlocks (buildContext doc)))"
    unfolding b(1) by (simp add: comp_def df_base_def block_data_flow_def Let_def)
  with b(4,5) Some show ?thesis by (simp add: Let_def df_base_def comp_def)
qed

text \<open>
  the limits hold. Whatever the flow, the listed edges of each direction, the taint hints and the
  dead data paths stay within their limits, the two lists are prefixes of the unlimited ones, and
  their truncation marks are set exactly when something was cut.
\<close>

theorem data_flow_within_limits:
  "case AnalyzeDataFlowCtx stop doc limits of None \<Rightarrow> True | Some r \<Rightarrow>
     let ctx = buildContext doc; ids = sort (map fst (AllBlocks ctx));
         dead = concat (map (dead_paths_of ctx (buildUsedVariables ctx)) ids) in
     sum_list (map (\<lambda>df. length (dfUpstream df)) (drBlocks r)) \<le> limitOrMax (MaxEdges limits) \<and>
     sum_list (map (\<lambda>df. length (dfDownstream df)) (drBlocks r)) \<le> limitOrMax (MaxEdges limits) \<and>
     length (drTaintPaths r) \<le> limitOrMax (MaxTaintPaths limits) \<and>
     drDeadData r = take (limitOrMax (MaxDeadData limits)) dead \<and>
     (drDeadDataTruncated r \<longleftrightarrow> limitOrMax (MaxDeadData limits) < length dead) \<and>
     (drTruncated r \<longleftrightarrow> drEdgesTruncated r \<or> drTaintPathsTruncated r \<or> drDeadDataTruncated r)"
proof (cases "AnalyzeDataFlowCtx stop doc limits")
  case (Some r)
  note b = data_flow_blocks [OF Some]
  from Some obtain
    t: "computeTaintPaths doc (buildContext doc) (sort (map fst (AllBlocks (buildContext doc)))) (limitOrMax (MaxTaintPaths limits)) =
       (drTaintPaths r, drTaintPathsTruncated r)" and
    d: "computeDeadDataPaths (buildContext doc) (sort (map fst (AllBlocks (buildContext doc)))) (limitOrMax (MaxDeadData limits)) =
       (drDeadData r, drDeadDataTruncated r)" and
    f: "drTruncated r \<longleftrightarrow> drEdgesTruncated r \<or> drTaintPathsTruncated r \<or> drDeadDataTruncated r"
    by (rule data_flow_passes)
  have "length (fst (computeTaintPaths doc ctx ids limit)) \<le> limit" for ctx ids limit
    by (simp add: computeTaintPaths_def Let_def list_up_to_limit)
  from this [of "buildContext doc" "sort (map fst (AllBlocks (buildContext doc)))" "limitOrMax (MaxTaintPaths limits)"]
  have "length (drTaintPaths r) \<le> limitOrMax (MaxTaintPaths limits)" unfolding t by simp
  with Some b(2,3) d f show ?thesis by (simp only: computeDeadDataPaths_def Let_def list_up_to_limit prod.inject option.case)
qed simp

section \<open>The dead-data rule\<close>

text \<open>The scan decides whether there is a reader that does not also write, and all of them are dead.\<close>

definition dead_reader :: "RuleContext \<Rightarrow> string \<Rightarrow> bool" where
  "dead_reader ctx k \<longleftrightarrow> map_of (BlockIndex ctx) k = None \<or> after_terminator ctx k"

lemma scan_readers_spec:
  "(case scan_readers ctx v n ks of (m, allDead) \<Rightarrow> m > 0 \<and> allDead) \<longleftrightarrow>
     (n > 0 \<or> filter (\<lambda>k. case map_of (AllBlocks ctx) k of None \<Rightarrow> False | Some b \<Rightarrow> \<not> writes_var (binfo b) v) ks \<noteq> []) \<and>
     list_all (dead_reader ctx) (filter (\<lambda>k. case map_of (AllBlocks ctx) k of None \<Rightarrow> False | Some b \<Rightarrow> \<not> writes_var (binfo b) v) ks)"
  by (induction ctx v n ks rule: scan_readers.induct) (auto simp: dead_reader_def split: option.splits)

lemma all_readers_dead_iff:
  "v \<in> set (buildAllReadersDead (buildContext flow)) \<longleftrightarrow>
     findReaders v (buildContext flow) \<noteq> [] \<and> list_all (dead_reader (buildContext flow)) (findReaders v (buildContext flow))"
proof -
  let ?ctx = "buildContext flow"
  let ?ok = "\<lambda>cs. case scan_readers ?ctx v 0 cs of (m, allDead) \<Rightarrow> m > 0 \<and> allDead"
  have "v \<in> set (buildAllReadersDead ?ctx) \<longleftrightarrow> (\<exists>cs. (v, cs) \<in> set (ReadersByVar ?ctx) \<and> ?ok cs)"
    by (force simp: buildAllReadersDead_def)
  also have "\<dots> \<longleftrightarrow> (\<exists>cs. map_of (ReadersByVar ?ctx) v = Some cs \<and> ?ok cs)"
    using readers.index_keys_distinct [of flow] by (simp add: map_of_eq_Some_iff)
  also have "\<dots> \<longleftrightarrow> ?ok (list_at (ReadersByVar ?ctx) v)"
    by (cases "map_of (ReadersByVar ?ctx) v") (simp_all add: list_at_def)
  finally show ?thesis unfolding scan_readers_spec findReaders_def by simp
qed

text \<open>Positions in the document: a group with an index. A position is dead when a terminator stands before it.\<close>

definition at_pos :: "group \<times> nat \<Rightarrow> Block" where
  "at_pos p = group_ptrs (fst p) ! snd p"

definition positions :: "FlowDocument \<Rightarrow> (group \<times> nat) list" where
  "positions flow = concat (map (\<lambda>g. map (Pair g) [0..<length (group_ptrs g)]) (doc_groups flow))"

definition dead_pos :: "group \<times> nat \<Rightarrow> bool" where
  "dead_pos p \<longleftrightarrow> list_ex (\<lambda>j. isTerminator (binfo (group_ptrs (fst p) ! j))) [0..<snd p]"

definition pure_readers :: "FlowDocument \<Rightarrow> string \<Rightarrow> (group \<times> nat) list" where
  "pure_readers flow v =
     filter (\<lambda>p. v \<in> set (bVariables (binfo (at_pos p))) \<and> \<not> writes_var (binfo (at_pos p)) v) (positions flow)"

lemma in_positions: "(g, i) \<in> set (positions flow) \<longleftrightarrow> g \<in> set (doc_groups flow) \<and> i < length (group_ptrs g)"
  unfolding positions_def by force

lemma position_terminators:
  assumes "doc_ids_ok flow" "p \<in> set (positions flow)"
  defines "k \<equiv> bID (binfo (at_pos p))" and "ctx \<equiv> buildContext flow"
  shows "after_terminator ctx k \<longleftrightarrow> dead_pos p" "dead_reader ctx k \<longleftrightarrow> dead_pos p"
    and "before_terminator ctx k \<longleftrightarrow> \<not> dead_pos p \<and> list_ex (\<lambda>b. isTerminator (binfo b)) (group_ptrs (fst p))"
    and "map_of (AllBlocks ctx) k = Some (at_pos p)"
proof -
  obtain g i where p: "p = (g, i)" by (cases p)
  with assms(2) have g: "g \<in> set (doc_groups flow)" "i < length (group_ptrs g)" by (simp_all add: in_positions)
  note at = context_at [OF assms(1) g, folded ctx_def]
  have k: "k = bID (binfo (group_ptrs g ! i))" by (simp add: k_def at_pos_def p)
  have dead: "dead_pos p \<longleftrightarrow> (case first_terminator (group_ptrs g) of None \<Rightarrow> False | Some t \<Rightarrow> t < i)"
    using first_terminator_iff [where ptrs = "group_ptrs g" and i = i] g(2) by (auto simp: dead_pos_def p list_ex_iff)
  have some: "list_ex (\<lambda>b. isTerminator (binfo b)) (group_ptrs g) \<longleftrightarrow> first_terminator (group_ptrs g) \<noteq> None"
  proof -
    have "set (group_ptrs g) = snd ` set (enumerate 0 (group_ptrs g))" by (metis list.set_map map_snd_enumerate)
    then show ?thesis by (force simp: first_terminator_def find_None_iff list_ex_iff)
  qed
  show after: "after_terminator ctx k \<longleftrightarrow> dead_pos p"
    unfolding k dead after_terminator_def sibling_key_def at by (simp add: at split: option.split)
  then show "dead_reader ctx k \<longleftrightarrow> dead_pos p" by (simp add: dead_reader_def k at)
  show "before_terminator ctx k \<longleftrightarrow> \<not> dead_pos p \<and> list_ex (\<lambda>b. isTerminator (binfo b)) (group_ptrs (fst p))"
    unfolding k dead [unfolded p] p fst_conv some before_terminator_def sibling_key_def by (simp add: at not_less split: option.split)
  show "map_of (AllBlocks ctx) k = Some (at_pos p)" by (simp add: k at at_pos_def p)
qed

lemma position_blocks: "set (concat (map group_ptrs (doc_groups flow))) = at_pos ` set (positions flow)"
proof (intro set_eqI iffI)
  fix b assume "b \<in> set (concat (map group_ptrs (doc_groups flow)))"
  then obtain g where "g \<in> set (doc_groups flow)" "b \<in> set (group_ptrs g)" by auto
  moreover from this(2) obtain i where "i < length (group_ptrs g)" "b = group_ptrs g ! i" unfolding in_set_conv_nth by blast
  ultimately have "(g, i) \<in> set (positions flow)" "b = at_pos (g, i)" by (simp_all add: in_positions at_pos_def)
  then show "b \<in> at_pos ` set (positions flow)" by blast
next
  fix b assume "b \<in> at_pos ` set (positions flow)"
  then obtain g i where "(g, i) \<in> set (positions flow)" "b = at_pos (g, i)" by force
  then have "g \<in> set (doc_groups flow)" "b \<in> set (group_ptrs g)" by (simp_all add: in_positions at_pos_def)
  then show "b \<in> set (concat (map group_ptrs (doc_groups flow)))" by auto
qed

lemma readers_positions:
  assumes "doc_ids_ok flow"
  shows "set (findReaders v (buildContext flow)) = (\<lambda>p. bID (binfo (at_pos p))) ` set (pure_readers flow v)"
proof -
  have rd: "set (list_at (ReadersByVar (buildContext flow)) v) =
      (\<lambda>p. bID (binfo (at_pos p))) ` {p \<in> set (positions flow). v \<in> set (bVariables (binfo (at_pos p)))}"
    unfolding readers.indexed_set position_blocks by auto
  have fr: "set (findReaders v (buildContext flow)) = {k \<in> set (list_at (ReadersByVar (buildContext flow)) v).
      case map_of (AllBlocks (buildContext flow)) k of None \<Rightarrow> False | Some b \<Rightarrow> \<not> writes_var (binfo b) v}"
    by (simp add: findReaders_def)
  have "(case map_of (AllBlocks (buildContext flow)) (bID (binfo (at_pos p))) of None \<Rightarrow> False | Some b \<Rightarrow> \<not> writes_var (binfo b) v)
      \<longleftrightarrow> \<not> writes_var (binfo (at_pos p)) v" if "p \<in> set (positions flow)" for p
    using position_terminators(4) [OF assms that] by simp
  then have "k \<in> set (findReaders v (buildContext flow)) \<longleftrightarrow> k \<in> (\<lambda>p. bID (binfo (at_pos p))) ` set (pure_readers flow v)" for k
    unfolding fr rd pure_readers_def set_filter by blast
  then show ?thesis by blast
qed

text \<open>
  C20: the dead-data rule is exact. In a document with distinct identifiers it flags a block exactly when
  the block sets a variable, stands at or before the first exit of its group, the variable is read
  somewhere by a block that does not also set it, and every such reader stands behind an exit.
\<close>

theorem dead_data_exact:
  assumes "doc_ids_ok flow" "p \<in> set (positions flow)"
  shows "ruCheck DeadDataRule (buildContext flow) (at_pos p) =
    Some (let b = at_pos p; v = outputVar (binfo b) in
      if bType (binfo b) = BlockTypeVariable \<and> v \<noteq> [] \<and>
         list_ex (\<lambda>b. isTerminator (binfo b)) (group_ptrs (fst p)) \<and> \<not> dead_pos p \<and>
         pure_readers flow v \<noteq> [] \<and> list_all dead_pos (pure_readers flow v)
      then [dead_data_finding v b] else [])"
proof -
  have r: "findReaders v (buildContext flow) \<noteq> [] \<longleftrightarrow> pure_readers flow v \<noteq> []" for v
    using readers_positions [OF assms(1), of v] by (metis image_is_empty set_empty)
  have "list_all (dead_reader (buildContext flow)) (findReaders v (buildContext flow)) \<longleftrightarrow> list_all dead_pos (pure_readers flow v)" for v
    using readers_positions [OF assms(1), of v] position_terminators(2) [OF assms(1)]
    by (auto simp: list_all_iff pure_readers_def)
  with r position_terminators(3) [OF assms] show ?thesis
    by (auto simp: DeadDataRule_def block_rule_def dead_data_check_def Let_def all_readers_dead_iff)
qed

definition set_block :: "string \<Rightarrow> string \<Rightarrow> BlockType \<Rightarrow> string \<Rightarrow> string list \<Rightarrow> Block" where
  "set_block i out t raw vs = Block ((binfo (note_block t i i))\<lparr>bRawType := raw, bVariables := vs,
     bProperties := (if out = [] then [] else [(''_output'', out)])\<rparr>) []"

definition dead_data_flow :: FlowDocument where
  "dead_data_flow = (suppress_sample ''note'')\<lparr>Subflows := [(hd (Subflows (suppress_sample ''note'')))\<lparr>sfBlocks :=
     [set_block ''a'' ''X'' BlockTypeVariable ''SET'' [], set_block ''e'' [] BlockTypeAction ''EXIT'' [],
      set_block ''r'' [] BlockTypeAction ''Display.ShowMessage'' [''X'']]\<rparr>]\<rparr>"

theorem dead_data_exact_witness:
  "ruCheck DeadDataRule (buildContext dead_data_flow) (set_block ''a'' ''X'' BlockTypeVariable ''SET'' []) =
     Some [dead_data_finding ''X'' (set_block ''a'' ''X'' BlockTypeVariable ''SET'' [])]"
proof -
  have ok: "doc_ids_ok dead_data_flow" by code_simp
  let ?p = "hd (positions dead_data_flow)"
  have p: "?p \<in> set (positions dead_data_flow)" by code_simp
  have b: "at_pos ?p = set_block ''a'' ''X'' BlockTypeVariable ''SET'' []" by code_simp
  have v: "outputVar (binfo (set_block ''a'' ''X'' BlockTypeVariable ''SET'' [])) = ''X''"
    "bType (binfo (set_block ''a'' ''X'' BlockTypeVariable ''SET'' [])) = BlockTypeVariable" by code_simp+
  have t: "list_ex (\<lambda>b. isTerminator (binfo b)) (group_ptrs (fst ?p))" "\<not> dead_pos ?p"
    "pure_readers dead_data_flow ''X'' \<noteq> []" "list_all dead_pos (pure_readers dead_data_flow ''X'')" by code_simp+
  from dead_data_exact [OF ok p] show ?thesis unfolding b v Let_def using t v by simp
qed

end
