(* ===== verification/Taint.thy ===== *)
theory Taint
  imports Data_Flow Patches
begin

text \<open>
  core/analyzer/rule_sql_injection.go: which variables trace to an untrusted source, as a worklist over
  the writers of every variable, and the rule that grades SQL statements by it. The order in which Go
  iterates over \<open>WritersByVar\<close> is the argument \<open>iter\<close>; the cache \<open>refsByBlock\<close> is the function it caches.
\<close>

section \<open>The worklist\<close>

definition isTaintSourceType :: "string \<Rightarrow> bool" where
  "isTaintSourceType rawType \<longleftrightarrow>
     (let rt = ToLower rawType in
      HasPrefix rt ''httpclient.'' \<or> HasPrefix rt ''webautomation.'' \<or> HasPrefix rt ''ftp.'')"

definition value_refs :: "block_info \<Rightarrow> string list" where
  "value_refs b = (case map_of (bProperties b) ''_value'' of
     None \<Rightarrow> [] | Some val \<Rightarrow> map (\<lambda>m. group_text m 1) (FindAllStringSubmatchIndex sqlVarRef val))"

type_synonym marks = "string list \<times> string list"

definition mark :: "string \<Rightarrow> marks \<Rightarrow> marks" where
  "mark vn st = (case st of (tainted, queue) \<Rightarrow> if vn \<in> set tainted then st else (vn # tainted, queue @ [vn]))"

type_synonym dep_map = "(string \<times> string list) list"

definition scan_writer :: "RuleContext \<Rightarrow> string \<Rightarrow> dep_map \<times> marks \<Rightarrow> string \<Rightarrow> dep_map \<times> marks" where
  "scan_writer ctx vn st wid =
     (case st of (deps, ms) \<Rightarrow>
      case map_of (AllBlocks ctx) wid of
        None \<Rightarrow> (deps, ms)
      | Some w \<Rightarrow>
          if isTaintSourceType (bRawType (binfo w)) then (deps, mark vn ms)
          else (foldl (\<lambda>deps r. append_at r vn deps) deps (value_refs (binfo w)), ms))"

definition scan_variable :: "RuleContext \<Rightarrow> dep_map \<times> marks \<Rightarrow> string \<times> string list \<Rightarrow> dep_map \<times> marks" where
  "scan_variable ctx st e = (case e of (vn, ids) \<Rightarrow> foldl (scan_writer ctx vn) st ids)"

definition names_in :: "dep_map \<Rightarrow> string set" where
  "names_in deps = set (concat (map snd deps))"

lemma mark_run:
  "foldl (\<lambda>st d. mark d st) (tainted, queue) ds =
     (rev (filter (\<lambda>d. d \<notin> set tainted) (rev (remdups (rev ds)))) @ tainted, queue @ filter (\<lambda>d. d \<notin> set tainted) (rev (remdups (rev ds))))"
proof (induction ds rule: rev_induct)
  case (snoc d ds)
  then show ?case by (auto simp: mark_def)
qed simp

lemma mark_measure:
  assumes "set ds \<subseteq> U" "finite U" "foldl (\<lambda>st d. mark d st) (tainted, queue) ds = (tainted', queue')"
  shows "card (U - set tainted') + length queue' = card (U - set tainted) + length queue"
proof -
  let ?new = "filter (\<lambda>d. d \<notin> set tainted) (rev (remdups (rev ds)))"
  have new: "set ?new \<subseteq> U - set tainted" "distinct ?new" using assms(1) by auto
  have t: "set tainted' = set ?new \<union> set tainted" "queue' = queue @ ?new" using assms(3) unfolding mark_run by auto
  have "U - set tainted' = (U - set tainted) - set ?new" unfolding t by auto
  then have "card (U - set tainted') = card (U - set tainted) - card (set ?new)"
    using card_Diff_subset [OF finite_set new(1)] by metis
  then have "card (U - set tainted') = card (U - set tainted) - length ?new"
    using distinct_card [OF new(2)] by metis
  moreover have "length ?new \<le> card (U - set tainted)"
    using new assms(2) by (metis card_mono distinct_card finite_Diff)
  ultimately show ?thesis using t(2) by simp
qed

lemma list_at_names_in: "set (list_at deps v) \<subseteq> names_in deps"
proof (cases "map_of deps v")
  case (Some ds)
  then have "(v, ds) \<in> set deps" by (rule map_of_SomeD)
  with Some show ?thesis by (force simp: list_at_def names_in_def)
qed (simp add: list_at_def)

function propagate :: "dep_map \<Rightarrow> marks \<Rightarrow> string list" where
  "propagate deps (tainted, []) = tainted"
| "propagate deps (tainted, vn # queue) = propagate deps (foldl (\<lambda>st d. mark d st) (tainted, queue) (list_at deps vn))"
  by pat_completeness auto
termination
proof (relation "measure (\<lambda>(deps, tainted, queue). card (names_in deps - set tainted) + length queue)")
  fix deps tainted vn queue
  obtain t' q' where m: "foldl (\<lambda>st d. mark d st) (tainted, queue) (list_at deps vn) = (t', q')" by fastforce
  have "finite (names_in deps)" by (simp add: names_in_def)
  from mark_measure [OF list_at_names_in this m]
  show "((deps, foldl (\<lambda>st d. mark d st) (tainted, queue) (list_at deps vn)), deps, tainted, vn # queue)
      \<in> measure (\<lambda>(deps, tainted, queue). card (names_in deps - set tainted) + length queue)"
    unfolding m by simp
qed simp

definition buildTaintedVars :: "(dep_map \<Rightarrow> dep_map) \<Rightarrow> RuleContext \<Rightarrow> string list" where
  "buildTaintedVars iter ctx =
     (case foldl (scan_variable ctx) ([], [], []) (iter (WritersByVar ctx)) of (deps, ms) \<Rightarrow> propagate deps ms)"

section \<open>The rule\<close>

definition sqlActionTypes :: "string list" where
  "sqlActionTypes = [''database.execute'', ''sql.execute'', ''database.query'', ''sql.query'', ''database.sql'']"

definition sql_finding :: "string list \<Rightarrow> Block \<Rightarrow> string \<Rightarrow> string list \<Rightarrow> Finding" where
  "sql_finding taintedVars blk key refs =
     (let tv = find (\<lambda>vn. vn \<in> set taintedVars) refs;
          sev = (if tv = None then SeverityWarning else SeverityError);
          desc = (case tv of
            None \<Rightarrow> ''SQL statement interpolates variables directly. A malicious value could alter the query.''
          | Some v \<Rightarrow> ''SQL statement interpolates a variable ('' @ v @ '') that traces to an untrusted source (HTTP/Web input or concatenation). This is a confirmed taint path, not just a theoretical risk.'')
      in (block_finding ''sql-injection-risk'' sev ''SQL injection risk'' desc
           ''Use parameterized queries (@paramName or ? placeholders) instead of embedding %variables% directly in the SQL string.'' blk)
           \<lparr>fMetadata := [(''property'', MetaString key), (''tainted'', MetaOther)]\<rparr>)"

definition sql_refs :: "block_info \<Rightarrow> string \<Rightarrow> string list" where
  "sql_refs b key = map (\<lambda>m. group_text m 1) (FindAllStringSubmatchIndex sqlVarRef (getprop (bProperties b) key))"

definition isSqlAction :: "block_info \<Rightarrow> bool" where
  "isSqlAction b \<longleftrightarrow> list_ex (\<lambda>t. Contains (ToLower (bRawType b)) t) sqlActionTypes"

definition sql_key :: "block_info \<Rightarrow> string \<Rightarrow> bool" where
  "sql_key b key \<longleftrightarrow> ToLower key \<in> {''sql'', ''query'', ''statement'', ''command''} \<and> sql_refs b key \<noteq> []"

definition sql_check :: "(dep_map \<Rightarrow> dep_map) \<Rightarrow> RuleContext \<Rightarrow> Block \<Rightarrow> Finding list" where
  "sql_check iter ctx blk =
     (if \<not> isSqlAction (binfo blk) then []
      else case find (sql_key (binfo blk)) (sortedPropertyKeys (bProperties (binfo blk))) of
          None \<Rightarrow> []
        | Some key \<Rightarrow> [sql_finding (buildTaintedVars iter ctx) blk key (sql_refs (binfo blk) key)])"

definition SqlInjectionRiskRule :: "(dep_map \<Rightarrow> dep_map) \<Rightarrow> Rule" where
  "SqlInjectionRiskRule iter = block_rule ''sql-injection-risk'' SeverityWarning ''Security'' (sql_check iter)"

section \<open>The worklist computes reachability\<close>

lemma mark_sets:
  assumes "foldl (\<lambda>st d. mark d st) (tainted, queue) ds = (tainted', queue')"
  shows "set tainted' = set tainted \<union> set ds" "set queue' = set queue \<union> (set ds - set tainted)"
  using assms unfolding mark_run by auto

definition dep_edges :: "dep_map \<Rightarrow> (string \<times> string) set" where
  "dep_edges deps = {(r, d). d \<in> set (list_at deps r)}"

lemma propagate_reaches:
  assumes "set queue \<subseteq> set tainted" "\<forall>x \<in> set tainted - set queue. set (list_at deps x) \<subseteq> set tainted"
  shows "set (propagate deps (tainted, queue)) = (dep_edges deps)\<^sup>* `` set tainted"
  using assms
proof (induction deps "(tainted, queue)" arbitrary: tainted queue rule: propagate.induct)
  case (1 deps tainted)
  then have "dep_edges deps `` set tainted \<subseteq> set tainted" by (auto simp: dep_edges_def)
  then show ?case by (simp add: Image_closed_trancl)
next
  case (2 deps tainted vn queue)
  obtain t' q' where m: "foldl (\<lambda>st d. mark d st) (tainted, queue) (list_at deps vn) = (t', q')" by fastforce
  note sets = mark_sets [OF m]
  have "set (propagate deps (t', q')) = (dep_edges deps)\<^sup>* `` set t'"
    using 2(2,3) by (intro 2(1)) (auto simp: m sets)
  moreover have "(dep_edges deps)\<^sup>* `` set t' = (dep_edges deps)\<^sup>* `` set tainted"
    using 2(2) by (auto simp: sets dep_edges_def intro: converse_rtrancl_into_rtrancl)
  ultimately show ?case by (simp add: m)
qed

definition writer_pairs :: "dep_map \<Rightarrow> (string \<times> string) list" where
  "writer_pairs m = concat (map (\<lambda>(vn, ids). map (Pair vn) ids) m)"

lemma scan_pairs: "foldl (scan_variable ctx) st m = foldl (\<lambda>st (vn, wid). scan_writer ctx vn st wid) st (writer_pairs m)"
proof (induction m arbitrary: st)
  case (Cons e m)
  then show ?case by (cases e) (simp add: writer_pairs_def scan_variable_def foldl_map)
qed (simp add: writer_pairs_def)

definition source_writer :: "RuleContext \<Rightarrow> string \<Rightarrow> bool" where
  "source_writer ctx wid \<longleftrightarrow> (\<exists>w. map_of (AllBlocks ctx) wid = Some w \<and> isTaintSourceType (bRawType (binfo w)))"

definition referring_writer :: "RuleContext \<Rightarrow> string \<Rightarrow> string \<Rightarrow> bool" where
  "referring_writer ctx r wid \<longleftrightarrow>
     (\<exists>w. map_of (AllBlocks ctx) wid = Some w \<and> \<not> isTaintSourceType (bRawType (binfo w)) \<and> r \<in> set (value_refs (binfo w)))"

lemma list_at_appends: "set (list_at (foldl (\<lambda>deps r. append_at r vn deps) deps rs) v) = set (list_at deps v) \<union> (if v \<in> set rs then {vn} else {})"
  by (induction rs arbitrary: deps) (auto simp: list_at_append)

lemma scan_run:
  "foldl (\<lambda>st (vn, wid). scan_writer ctx vn st wid) ([], [], []) ps = (deps, tainted, queue) \<Longrightarrow>
     set tainted = {vn. \<exists>wid. (vn, wid) \<in> set ps \<and> source_writer ctx wid} \<and> set queue = set tainted \<and>
     (\<forall>r. set (list_at deps r) = {vn. \<exists>wid. (vn, wid) \<in> set ps \<and> referring_writer ctx r wid})"
proof (induction ps arbitrary: deps tainted queue rule: rev_induct)
  case Nil
  then show ?case by (simp add: list_at_def)
next
  case (snoc p ps)
  obtain vn wid where p: "p = (vn, wid)" by (cases p)
  obtain d t q where run: "foldl (\<lambda>st (vn, wid). scan_writer ctx vn st wid) ([], [], []) ps = (d, t, q)" by (metis prod_cases3)
  note IH = snoc.IH [OF run]
  from snoc.prems have s: "scan_writer ctx vn (d, t, q) wid = (deps, tainted, queue)" by (simp add: p run)
  consider "map_of (AllBlocks ctx) wid = None"
    | w where "map_of (AllBlocks ctx) wid = Some w" "isTaintSourceType (bRawType (binfo w))"
    | w where "map_of (AllBlocks ctx) wid = Some w" "\<not> isTaintSourceType (bRawType (binfo w))" by fastforce
  then show ?case
  proof cases
    case 1
    with s IH show ?thesis by (auto simp: p scan_writer_def source_writer_def referring_writer_def)
  next
    case (2 w)
    then have "source_writer ctx wid" "\<not> referring_writer ctx r wid" for r by (simp_all add: source_writer_def referring_writer_def)
    with s IH 2 show ?thesis by (auto simp: p scan_writer_def mark_def split: if_splits)
  next
    case (3 w)
    then have "\<not> source_writer ctx wid" "referring_writer ctx r wid \<longleftrightarrow> r \<in> set (value_refs (binfo w))" for r
      by (simp_all add: source_writer_def referring_writer_def)
    moreover have "t = tainted" "q = queue" "set (list_at deps r) = set (list_at d r) \<union> (if r \<in> set (value_refs (binfo w)) then {vn} else {})" for r
      using s 3 by (auto simp: scan_writer_def list_at_appends)
    ultimately have "x \<in> set (list_at deps r) \<longleftrightarrow> (\<exists>wid. (x, wid) \<in> set (ps @ [p]) \<and> referring_writer ctx r wid)" for x r
      using IH p by (cases "r \<in> set (value_refs (binfo w))") (simp, blast, simp, blast)
    moreover have "(\<exists>wid. (x, wid) \<in> set (ps @ [p]) \<and> source_writer ctx wid) \<longleftrightarrow> (\<exists>wid. (x, wid) \<in> set ps \<and> source_writer ctx wid)" for x
      using \<open>\<not> source_writer ctx wid\<close> p by auto
    ultimately show ?thesis using IH \<open>t = tainted\<close> \<open>q = queue\<close> by auto
  qed
qed

section \<open>What is tainted\<close>

text \<open>
  The contract: a variable is tainted when a block other than an END marker writes it and is a source, or
  writes it from a value that refers to a tainted variable.
\<close>

definition writes_in :: "FlowDocument \<Rightarrow> Block \<Rightarrow> string \<Rightarrow> bool" where
  "writes_in flow b v \<longleftrightarrow> b \<in> set (filter not_end (walkBlocks flow)) \<and> v \<in> set (writes_of (binfo b))"

inductive tainted_var :: "FlowDocument \<Rightarrow> string \<Rightarrow> bool" for flow where
  source: "writes_in flow b v \<Longrightarrow> isTaintSourceType (bRawType (binfo b)) \<Longrightarrow> tainted_var flow v"
| step: "tainted_var flow r \<Longrightarrow> writes_in flow b v \<Longrightarrow> r \<in> set (value_refs (binfo b)) \<Longrightarrow> tainted_var flow v"

lemma block_of_id:
  assumes "doc_ids_ok flow" "b \<in> set (concat (map group_ptrs (doc_groups flow)))"
  shows "map_of (AllBlocks (buildContext flow)) (bID (binfo b)) = Some b"
proof -
  from assms(2) obtain p where "p \<in> set (positions flow)" "b = at_pos p" unfolding position_blocks by blast
  with position_terminators(4) [OF assms(1)] show ?thesis by simp
qed

lemma writer_ids:
  assumes "set (iter (WritersByVar (buildContext flow))) = set (WritersByVar (buildContext flow))"
  shows "(vn, wid) \<in> set (writer_pairs (iter (WritersByVar (buildContext flow)))) \<longleftrightarrow> (\<exists>b. writes_in flow b vn \<and> wid = bID (binfo b))"
proof -
  let ?m = "WritersByVar (buildContext flow)"
  have "(vn, wid) \<in> set (writer_pairs (iter ?m)) \<longleftrightarrow> (\<exists>ids. (vn, ids) \<in> set ?m \<and> wid \<in> set ids)"
    by (auto simp: writer_pairs_def assms)
  also have "\<dots> \<longleftrightarrow> wid \<in> set (list_at ?m vn)"
    unfolding map_of_eq_Some_iff [OF writers.index_keys_distinct [of flow], symmetric] list_at_def
    by (cases "map_of ?m vn") simp_all
  finally show ?thesis unfolding writers.indexed_set group_blocks_walk writes_in_def by blast
qed

lemma tainted_vars_iff:
  assumes "doc_ids_ok flow" "set (iter (WritersByVar (buildContext flow))) = set (WritersByVar (buildContext flow))"
  shows "v \<in> set (buildTaintedVars iter (buildContext flow)) \<longleftrightarrow> tainted_var flow v"
proof -
  let ?ctx = "buildContext flow" and ?ps = "writer_pairs (iter (WritersByVar (buildContext flow)))"
  obtain deps t q where run: "foldl (\<lambda>st (vn, wid). scan_writer ?ctx vn st wid) ([], [], []) ?ps = (deps, t, q)" by (metis prod_cases3)
  have blk: "map_of (AllBlocks ?ctx) (bID (binfo b)) = Some b" if "writes_in flow b v" for b v
    using that block_of_id [OF assms(1)] unfolding group_blocks_walk writes_in_def by blast
  have src: "x \<in> set t \<longleftrightarrow> (\<exists>b. writes_in flow b x \<and> isTaintSourceType (bRawType (binfo b)))" for x
    using scan_run [OF run] blk unfolding writer_ids [of iter, OF assms(2)] by (auto simp: source_writer_def)
  have dep: "(r, x) \<in> dep_edges deps \<longleftrightarrow>
      (\<exists>b. writes_in flow b x \<and> \<not> isTaintSourceType (bRawType (binfo b)) \<and> r \<in> set (value_refs (binfo b)))" for r x
    using scan_run [OF run] blk unfolding writer_ids [of iter, OF assms(2)] by (auto simp: dep_edges_def referring_writer_def)
  have "set (buildTaintedVars iter ?ctx) = (dep_edges deps)\<^sup>* `` set t"
    using scan_run [OF run] by (simp add: buildTaintedVars_def scan_pairs run propagate_reaches)
  moreover have "tainted_var flow x" if "(s, x) \<in> (dep_edges deps)\<^sup>*" "s \<in> set t" for s x
    using that by (induction rule: rtrancl_induct) (auto simp: src dep intro: tainted_var.intros)
  moreover have "x \<in> (dep_edges deps)\<^sup>* `` set t" if "tainted_var flow x" for x
    using that
  proof induction
    case (source b x)
    then have "x \<in> set t" by (auto simp: src)
    then show ?case by blast
  next
    case (step r b x)
    show ?case
    proof (cases "isTaintSourceType (bRawType (binfo b))")
      case True
      with step have "x \<in> set t" by (auto simp: src)
      then show ?thesis by blast
    next
      case False
      with step have "(r, x) \<in> dep_edges deps" by (auto simp: dep)
      with step.IH show ?thesis by (blast intro: rtrancl_into_rtrancl)
    qed
  qed
  ultimately show ?thesis by blast
qed

text \<open>
  C21: taint is exactly what reaches a variable from an untrusted source. In a document with distinct
  identifiers, and whatever the order in which the map of writers is iterated, the worklist marks a
  variable exactly when some chain of assignments, each referring to the one before in its value,
  leads to it from an HTTP, web or FTP action. The SQL rule reports exactly the SQL actions that
  interpolate a variable, once each, and as an error whenever an interpolated variable is tainted.
\<close>

theorem taint_exact:
  assumes "doc_ids_ok flow" "set (iter (WritersByVar (buildContext flow))) = set (WritersByVar (buildContext flow))"
  shows "(v \<in> set (buildTaintedVars iter (buildContext flow)) \<longleftrightarrow> tainted_var flow v) \<and>
    map_option (map fBlockID) (ruCheck (SqlInjectionRiskRule iter) (buildContext flow) b) =
      Some (if isSqlAction (binfo b) \<and> list_ex (sql_key (binfo b)) (map fst (bProperties (binfo b)))
            then [bID (binfo b)] else []) \<and>
    (isSqlAction (binfo b) \<and> find (sql_key (binfo b)) (sortedPropertyKeys (bProperties (binfo b))) = Some key \<and>
       v \<in> set (sql_refs (binfo b) key) \<and> tainted_var flow v \<longrightarrow>
     map_option (map fSeverity) (ruCheck (SqlInjectionRiskRule iter) (buildContext flow) b) = Some [SeverityError])"
proof (intro conjI impI)
  show t: "v \<in> set (buildTaintedVars iter (buildContext flow)) \<longleftrightarrow> tainted_var flow v"
    by (rule tainted_vars_iff [of flow iter, OF assms])
  have "find (sql_key (binfo b)) (sortedPropertyKeys (bProperties (binfo b))) = None \<longleftrightarrow>
      \<not> list_ex (sql_key (binfo b)) (map fst (bProperties (binfo b)))"
    by (simp add: find_None_iff list_ex_iff sortedPropertyKeys_def)
  then show "map_option (map fBlockID) (ruCheck (SqlInjectionRiskRule iter) (buildContext flow) b) =
      Some (if isSqlAction (binfo b) \<and> list_ex (sql_key (binfo b)) (map fst (bProperties (binfo b)))
            then [bID (binfo b)] else [])"
    by (auto simp: SqlInjectionRiskRule_def block_rule_def sql_check_def sql_finding_def block_finding_def Let_def
        split: option.split)
  assume "isSqlAction (binfo b) \<and> find (sql_key (binfo b)) (sortedPropertyKeys (bProperties (binfo b))) = Some key \<and>
       v \<in> set (sql_refs (binfo b) key) \<and> tainted_var flow v"
  moreover from this t have "find (\<lambda>vn. vn \<in> set (buildTaintedVars iter (buildContext flow))) (sql_refs (binfo b) key) \<noteq> None"
    by (auto simp: find_None_iff)
  ultimately show "map_option (map fSeverity) (ruCheck (SqlInjectionRiskRule iter) (buildContext flow) b) = Some [SeverityError]"
    by (simp add: SqlInjectionRiskRule_def block_rule_def sql_check_def sql_finding_def block_finding_def Let_def)
qed

definition taint_block :: "string \<Rightarrow> string \<Rightarrow> (string \<times> string) list \<Rightarrow> Block" where
  "taint_block i raw props = Block ((binfo (set_block i [] BlockTypeAction raw []))\<lparr>bProperties := props\<rparr>) []"

definition query_block :: "string \<Rightarrow> string \<Rightarrow> Block" where
  "query_block i q = taint_block i ''Database.ExecuteSQL'' [(''Sql'', q)]"

definition bad_query :: Block where "bad_query = query_block ''d'' ''a %N% %Q%''"

definition taint_flow :: FlowDocument where
  "taint_flow = dead_data_flow\<lparr>Subflows := [(hd (Subflows dead_data_flow))\<lparr>sfBlocks :=
     [taint_block ''a'' ''HttpClient.Get'' [(''_output'', ''Body'')],
      taint_block ''b'' ''SET'' [(''_var'', ''Q''), (''_value'', ''x%Body%'')],
      taint_block ''c'' ''SET'' [(''_var'', ''N''), (''_value'', ''%N%'')], bad_query]\<rparr>]\<rparr>"

theorem taint_exact_witness:
  "tainted_var taint_flow ''Q'' \<and> \<not> tainted_var taint_flow ''N'' \<and>
   map_option (map fSeverity) (ruCheck (SqlInjectionRiskRule rev) (buildContext taint_flow) bad_query) = Some [SeverityError]"
proof -
  have ok: "doc_ids_ok taint_flow" by code_simp
  have it: "set (rev (WritersByVar (buildContext taint_flow))) = set (WritersByVar (buildContext taint_flow))" by simp
  note exact = taint_exact [of taint_flow rev, OF ok it]
  have b: "isSqlAction (binfo bad_query)"
    "find (sql_key (binfo bad_query)) (sortedPropertyKeys (bProperties (binfo bad_query))) = Some ''Sql''"
    "''Q'' \<in> set (sql_refs (binfo bad_query) ''Sql'')" by code_simp+
  have "''Q'' \<in> set (buildTaintedVars rev (buildContext taint_flow))"
    "''N'' \<notin> set (buildTaintedVars rev (buildContext taint_flow))" by code_simp+
  with exact [of "''Q''" bad_query "''Sql''"] exact [of "''N''" bad_query "''Sql''"] b show ?thesis by blast
qed

end
