(* ===== verification/Anchors.thy ===== *)
theory Anchors
  imports Parser_Correct "HOL-Library.Product_Lexorder" "HOL-Library.List_Lexorder" "HOL-Library.Char_ord"
begin

text \<open>
  core/models/block_anchor.go: a reference to a block that outlives a re-parse. The document is not nil;
  its block map is iterated in any order and sorted by line and identifier, a key no two blocks share.
\<close>

record BlockAnchor =
  baSubflow :: string
  baRawType :: string
  baName :: string
  baOrdinal :: int
  baCount :: int

definition anchorPeers :: "FlowDocument \<Rightarrow> string \<Rightarrow> string \<Rightarrow> string \<Rightarrow> Block list" where
  "anchorPeers d subflow rawType name =
     sort_key (\<lambda>b. (bLineNumber (binfo b), bID (binfo b)))
       (map snd (filter (\<lambda>(k, b). bRawType (binfo b) = rawType \<and> bName (binfo b) = name \<and>
          (case map_of (BlockSubflow d) k of None \<Rightarrow> False | Some sf \<Rightarrow> sfName sf = subflow)) (BlocksByID d)))"

definition ordinal_of :: "string \<Rightarrow> Block list \<Rightarrow> int" where
  "ordinal_of blockID peers =
     foldl (\<lambda>n (i, p). if bID (binfo p) = blockID then int i else n) 0 (enumerate 0 peers)"

definition AnchorOf :: "FlowDocument \<Rightarrow> string \<Rightarrow> BlockAnchor option" where
  "AnchorOf d blockID =
     (case map_of (BlocksByID d) blockID of
        None \<Rightarrow> None
      | Some blk \<Rightarrow>
          (let b = binfo blk;
               subflow = (case map_of (BlockSubflow d) blockID of None \<Rightarrow> [] | Some sf \<Rightarrow> sfName sf);
               peers = anchorPeers d subflow (bRawType b) (bName b)
           in Some \<lparr>baSubflow = subflow, baRawType = bRawType b, baName = bName b, baOrdinal = ordinal_of blockID peers,
                    baCount = int (length peers)\<rparr>))"

definition ResolveAnchor :: "FlowDocument \<Rightarrow> BlockAnchor \<Rightarrow> string" where
  "ResolveAnchor d a =
     (if baRawType a = [] then []
      else
        (let peers = anchorPeers d (baSubflow a) (baRawType a) (baName a) in
         if int (length peers) \<noteq> baCount a \<or> baOrdinal a < 0 \<or> baOrdinal a \<ge> int (length peers) then []
         else bID (binfo (peers ! nat (baOrdinal a)))))"

section \<open>Peers\<close>

lemma ordinal_of_nth:
  assumes "distinct (map (bID \<circ> binfo) peers)" "i < length peers" "bID (binfo (peers ! i)) = k"
  shows "ordinal_of k peers = int i"
proof -
  have none: "foldl (\<lambda>n (i, p). if bID (binfo p) = k then int i else n) m (enumerate j xs) = m"
    if "k \<notin> set (map (bID \<circ> binfo) xs)" for m j xs using that by (induction xs arbitrary: j) auto
  have split: "peers = take i peers @ peers ! i # drop (Suc i) peers" using assms(2) by (rule id_take_nth_drop)
  have "distinct (map (bID \<circ> binfo) (take i peers @ peers ! i # drop (Suc i) peers))" using assms(1) split by simp
  then have "k \<notin> set (map (bID \<circ> binfo) (take i peers))" "k \<notin> set (map (bID \<circ> binfo) (drop (Suc i) peers))"
    using assms(3) by (auto simp: comp_def)
  then show ?thesis
    unfolding ordinal_of_def using assms(2,3)
    by (subst split) (simp add: enumerate_append_eq none del: set_map)
qed

text \<open>The maps of a document as the parser builds them: keys are the identifiers, each once.\<close>

definition maps_ok :: "FlowDocument \<Rightarrow> bool" where
  "maps_ok d \<longleftrightarrow> distinct (map fst (BlocksByID d)) \<and> list_all (\<lambda>(k, b). bID (binfo b) = k) (BlocksByID d)"

lemma peers_distinct: "maps_ok d \<Longrightarrow> distinct (map (bID \<circ> binfo) (anchorPeers d s r n))"
proof -
  assume ok: "maps_ok d"
  have ids: "map (bID \<circ> binfo) (map snd xs) = map fst xs" if "list_all (\<lambda>(k, b). bID (binfo b) = k) xs" for xs
    using that by (induction xs) auto
  let ?xs = "filter (\<lambda>(k, b). bRawType (binfo b) = r \<and> bName (binfo b) = n \<and>
          (case map_of (BlockSubflow d) k of None \<Rightarrow> False | Some sf \<Rightarrow> sfName sf = s)) (BlocksByID d)"
  have "distinct (map fst ?xs)" using ok by (auto simp: maps_ok_def intro: distinct_map_filter)
  moreover have "list_all (\<lambda>(k, b). bID (binfo b) = k) ?xs" using ok by (auto simp: maps_ok_def list_all_iff)
  ultimately have "distinct (map (bID \<circ> binfo) (map snd ?xs))" by (simp only: ids)
  moreover have "mset (map (bID \<circ> binfo) (anchorPeers d s r n)) = mset (map (bID \<circ> binfo) (map snd ?xs))"
    unfolding mset_map anchorPeers_def mset_sort ..
  ultimately show ?thesis using mset_eq_imp_distinct_iff by blast
qed

lemma in_peers:
  "maps_ok d \<Longrightarrow> b \<in> set (anchorPeers d s r n) \<longleftrightarrow>
     map_of (BlocksByID d) (bID (binfo b)) = Some b \<and> bRawType (binfo b) = r \<and> bName (binfo b) = n \<and>
     (case map_of (BlockSubflow d) (bID (binfo b)) of None \<Rightarrow> False | Some sf \<Rightarrow> sfName sf = s)"
proof -
  assume ok: "maps_ok d"
  let ?c = "\<lambda>k b. bRawType (binfo b) = r \<and> bName (binfo b) = n \<and>
     (case map_of (BlockSubflow d) k of None \<Rightarrow> False | Some sf \<Rightarrow> sfName sf = s)"
  have "b \<in> set (anchorPeers d s r n) \<longleftrightarrow> (\<exists>k. (k, b) \<in> set (BlocksByID d) \<and> ?c k b)"
    unfolding anchorPeers_def set_sort set_map set_filter by force
  also have "\<dots> \<longleftrightarrow> (bID (binfo b), b) \<in> set (BlocksByID d) \<and> ?c (bID (binfo b)) b"
    using ok by (auto simp: maps_ok_def list_all_iff)
  also have "(bID (binfo b), b) \<in> set (BlocksByID d) \<longleftrightarrow> map_of (BlocksByID d) (bID (binfo b)) = Some b"
    using ok by (simp add: maps_ok_def map_of_eq_Some_iff)
  finally show ?thesis .
qed

lemma anchor_resolves:
  assumes "maps_ok d" "map_of (BlocksByID d) k = Some b" "map_of (BlockSubflow d) k = Some sf" "bRawType (binfo b) \<noteq> []"
  shows "AnchorOf d k \<noteq> None" "ResolveAnchor d (the (AnchorOf d k)) = k"
proof -
  let ?ps = "anchorPeers d (sfName sf) (bRawType (binfo b)) (bName (binfo b))"
  have k: "bID (binfo b) = k" using assms(1,2) by (auto simp: maps_ok_def list_all_iff dest: map_of_SomeD)
  have "b \<in> set ?ps" using assms k by (simp add: in_peers)
  then obtain i where i: "i < length ?ps" "?ps ! i = b" by (auto simp: in_set_conv_nth)
  have "ordinal_of k ?ps = int i" using i k by (intro ordinal_of_nth [OF peers_distinct [OF assms(1)]]) simp_all
  then show "AnchorOf d k \<noteq> None" "ResolveAnchor d (the (AnchorOf d k)) = k"
    using assms(2-4) i k by (simp_all add: AnchorOf_def ResolveAnchor_def Let_def)
qed

section \<open>Parsed documents\<close>

text \<open>
  C28: an anchor taken in a parsed document leads back to its block. With identifiers that never repeat,
  every block of the document that has an action type resolves from its own anchor, so no two such
  blocks share an anchor; and whatever anchor is resolved, the answer is empty or the identifier of
  a block of the document with the action type and name the anchor holds.
\<close>

theorem anchor_roundtrip:
  assumes "inj uuid"
  shows "let doc = the (fst (Parse uuid p)) in
    list_all (\<lambda>b. bRawType (binfo b) = [] \<or> ResolveAnchor doc (the (AnchorOf doc (bID (binfo b)))) = bID (binfo b))
      (doc_blocks (Subflows doc)) \<and>
    (ResolveAnchor doc a = [] \<or> list_ex (\<lambda>b. bID (binfo b) = ResolveAnchor doc a \<and> bRawType (binfo b) = baRawType a \<and>
       bName (binfo b) = baName a) (doc_blocks (Subflows doc)))"
proof -
  let ?d = "the_document uuid p"
  let ?sfs = "Subflows ?d"
  note dist = document_ids_distinct [OF assms, of p]
  have ix: "BlocksByID ?d = map (\<lambda>q. (bID (binfo (snd q)), snd q)) (doc_pairs ?sfs)"
    "BlockSubflow ?d = map (\<lambda>q. (bID (binfo (snd q)), fst q)) (doc_pairs ?sfs)"
    unfolding document_fields(3,4) index_blocks_distinct [OF dist(1)] by simp_all
  have dp: "distinct (map (\<lambda>q. bID (binfo (snd q))) (doc_pairs ?sfs))"
    using dist(1) unfolding map_snd_doc_pairs [symmetric] by (simp add: comp_def)
  have ok: "maps_ok ?d" using dp by (simp add: maps_ok_def ix comp_def list_all_iff)
  have "bRawType (binfo b) = [] \<or> ResolveAnchor ?d (the (AnchorOf ?d (bID (binfo b)))) = bID (binfo b)"
    if "b \<in> set (doc_blocks ?sfs)" for b
  proof -
    from that obtain sf where "(sf, b) \<in> set (doc_pairs ?sfs)"
      unfolding map_snd_doc_pairs [symmetric] by auto
    then have "map_of (BlocksByID ?d) (bID (binfo b)) = Some b" "map_of (BlockSubflow ?d) (bID (binfo b)) = Some sf"
      unfolding ix using dp by (auto simp: comp_def intro!: map_of_is_SomeI rev_image_eqI)
    from anchor_resolves(2) [OF ok this] show ?thesis by blast
  qed
  moreover have "\<exists>b \<in> set (doc_blocks ?sfs). bID (binfo b) = ResolveAnchor ?d a \<and> bRawType (binfo b) = baRawType a \<and>
      bName (binfo b) = baName a" if ne: "ResolveAnchor ?d a \<noteq> []"
  proof -
    let ?ps = "anchorPeers ?d (baSubflow a) (baRawType a) (baName a)"
    from ne have i: "nat (baOrdinal a) < length ?ps" "ResolveAnchor ?d a = bID (binfo (?ps ! nat (baOrdinal a)))"
      by (auto simp: ResolveAnchor_def Let_def split: if_splits)
    then have "?ps ! nat (baOrdinal a) \<in> set ?ps" by simp
    from this [unfolded in_peers [OF ok]] have "?ps ! nat (baOrdinal a) \<in> snd ` set (BlocksByID ?d)"
      "bRawType (binfo (?ps ! nat (baOrdinal a))) = baRawType a" "bName (binfo (?ps ! nat (baOrdinal a))) = baName a"
      by (auto dest: map_of_SomeD intro: rev_image_eqI)
    moreover have "snd ` set (BlocksByID ?d) = set (doc_blocks ?sfs)"
      unfolding ix map_snd_doc_pairs [symmetric] by (simp add: image_image)
    ultimately show ?thesis using i(2) by auto
  qed
  ultimately show ?thesis by (auto simp: Parse_document Let_def list_all_iff list_ex_iff)
qed

theorem anchor_roundtrip_witness:
  "let doc = the (fst (Parse (\<lambda>k. replicate k (CHR ''a''))
      \<lparr>pText = ''WAIT 1'', pFileName = ''m.txt'', pFileSize = 6, pOnProgress = False\<rparr>)) in
    list_all (\<lambda>b. bRawType (binfo b) = [] \<or> ResolveAnchor doc (the (AnchorOf doc (bID (binfo b)))) = bID (binfo b))
      (doc_blocks (Subflows doc))"
  using anchor_roundtrip [OF inj_replicate] by (simp add: Let_def)

end
