(* ===== verification/Ancestors.thy ===== *)
theory Ancestors
  imports Variable_Index Rules
begin

text \<open>
  The facts of facts.go that walk from a block up to its ancestors: \<open>buildHasErrorHandler\<close> and
  \<open>buildInsideRetryLoop\<close>, two instances of one memoised recursion, with the rules that ask for them
  (rule_unhandled_error.go, rule_file_op_no_error_handler.go, rule_missing_retry.go). The order in which
  Go iterates over \<open>AllBlocks\<close> is the argument \<open>iter\<close>.
\<close>

section \<open>The memoised walk\<close>

type_synonym memo = "(string \<times> bool) list"

function memo_ancestor :: "(string \<Rightarrow> Block \<Rightarrow> bool) \<Rightarrow> RuleContext \<Rightarrow> string \<Rightarrow> memo \<Rightarrow> bool \<times> memo" where
  "memo_ancestor direct ctx k memo =
     (case map_of memo k of
        Some v \<Rightarrow> (v, memo)
      | None \<Rightarrow>
          let memo = (k, False) # memo in
          (case map_of (ParentMap ctx) k of
             None \<Rightarrow> (False, memo)
           | Some pid \<Rightarrow>
               (case map_of (AllBlocks ctx) pid of
                  None \<Rightarrow> (False, memo)
                | Some parent \<Rightarrow>
                    if direct pid parent then (True, (k, True) # memo)
                    else (case memo_ancestor direct ctx pid memo of (result, memo) \<Rightarrow> (result, (k, result) # memo)))))"
  by pat_completeness auto
termination
proof (relation "measure (\<lambda>(direct, ctx, k, memo). card (insert k (snd ` set (ParentMap ctx)) - dom (map_of memo)))", simp)
  fix direct :: "string \<Rightarrow> Block \<Rightarrow> bool" and ctx k memo memo' pid parent
  assume k: "map_of memo k = None" "memo' = (k, False) # memo" "map_of (ParentMap ctx) k = Some pid"
  let ?P = "snd ` set (ParentMap ctx)"
  have "pid \<in> ?P" using map_of_SomeD [OF k(3)] by force
  then have "insert pid ?P - dom (map_of memo') \<subset> insert k ?P - dom (map_of memo)" using k(1,2) by auto
  then show "((direct, ctx, pid, memo'), direct, ctx, k, memo)
      \<in> measure (\<lambda>(direct, ctx, k, memo). card (insert k (snd ` set (ParentMap ctx)) - dom (map_of memo)))"
    by (simp add: psubset_card_mono)
qed

declare memo_ancestor.simps [simp del]

definition memo_all :: "(string \<Rightarrow> Block \<Rightarrow> bool) \<Rightarrow> (string list \<Rightarrow> string list) \<Rightarrow> RuleContext \<Rightarrow> memo" where
  "memo_all direct iter ctx = foldl (\<lambda>memo k. snd (memo_ancestor direct ctx k memo)) [] (iter (map fst (AllBlocks ctx)))"

definition handler_direct :: "RuleContext \<Rightarrow> string \<Rightarrow> Block \<Rightarrow> bool" where
  "handler_direct ctx pid parent \<longleftrightarrow>
     bType (binfo parent) = BlockTypeErrorHandler \<or> map_of (GroupHasHandler ctx) pid = Some True"

definition buildHasErrorHandler :: "(string list \<Rightarrow> string list) \<Rightarrow> RuleContext \<Rightarrow> memo" where
  "buildHasErrorHandler iter ctx = memo_all (handler_direct ctx) iter ctx"

definition retry_word :: "string \<Rightarrow> bool" where
  "retry_word s \<longleftrightarrow> Contains (ToLower s) ''retry'' \<or> Contains (ToLower s) ''attempt''"

definition parentIsRetryLoop :: "Block \<Rightarrow> bool" where
  "parentIsRetryLoop parent \<longleftrightarrow>
     bType (binfo parent) = BlockTypeLoop \<and>
     (retry_word (bName (binfo parent)) \<or> list_ex (\<lambda>(k, v). v \<noteq> [] \<and> retry_word k) (bProperties (binfo parent)))"

definition buildInsideRetryLoop :: "(string list \<Rightarrow> string list) \<Rightarrow> RuleContext \<Rightarrow> memo" where
  "buildInsideRetryLoop iter ctx = memo_all (\<lambda>_. parentIsRetryLoop) iter ctx"

section \<open>The rules\<close>

definition HasErrorHandlerAncestor :: "(string list \<Rightarrow> string list) \<Rightarrow> RuleContext \<Rightarrow> Block \<Rightarrow> bool" where
  "HasErrorHandlerAncestor iter ctx blk \<longleftrightarrow> map_of (buildHasErrorHandler iter ctx) (bID (binfo blk)) = Some True"

definition isInsideRetryLoop :: "(string list \<Rightarrow> string list) \<Rightarrow> RuleContext \<Rightarrow> Block \<Rightarrow> bool" where
  "isInsideRetryLoop iter ctx blk \<longleftrightarrow> map_of (buildInsideRetryLoop iter ctx) (bID (binfo blk)) = Some True"

definition falliblePrefixes :: "string list" where
  "falliblePrefixes = [''WebAutomation.'', ''UIAutomation.'', ''Excel.'', ''File.'', ''HTTPClient.'', ''Database.'', ''Email.'',
     ''FTP.'', ''ActiveDirectory.'', ''SharePoint.'', ''OneDrive.'', ''Outlook.'']"

definition isFallible :: "string \<Rightarrow> bool" where
  "isFallible rawType \<longleftrightarrow> list_ex (HasPrefix rawType) falliblePrefixes"

definition unhandled_error_finding :: "Block \<Rightarrow> Finding" where
  "unhandled_error_finding = block_finding ''unhandled-error'' SeverityWarning ''Unhandled error in fallible action''
     ''This action commonly fails but has no error handler in its surrounding scope.''
     ''Wrap this action in a Try/Catch block or add error handler logic to recover from failures.''"

definition unhandled_error_check :: "(string list \<Rightarrow> string list) \<Rightarrow> RuleContext \<Rightarrow> Block \<Rightarrow> Finding list" where
  "unhandled_error_check iter ctx blk =
     (if bType (binfo blk) \<noteq> BlockTypeAction then []
      else if \<not> isFallible (bRawType (binfo blk)) then []
      else if HasErrorHandlerAncestor iter ctx blk then []
      else [unhandled_error_finding blk])"

definition UnhandledErrorRule :: "(string list \<Rightarrow> string list) \<Rightarrow> Rule" where
  "UnhandledErrorRule iter = block_rule ''unhandled-error'' SeverityWarning ''Reliability'' (unhandled_error_check iter)"

definition fileOperationPrefixes :: "string list" where
  "fileOperationPrefixes = [''File.Read'', ''File.Write'', ''File.Delete'', ''File.Move'', ''File.Copy'', ''File.Rename'',
     ''File.Create'', ''File.OpenTextFile'', ''File.CloseTextFile'', ''Folder.Create'', ''Folder.Delete'', ''Folder.Move'',
     ''Folder.Copy'', ''Folder.GetSubfolders'', ''Folder.GetFiles'']"

definition isFileOperation :: "string \<Rightarrow> bool" where
  "isFileOperation rawType \<longleftrightarrow> list_ex (HasPrefix rawType) fileOperationPrefixes"

definition file_op_finding :: "Block \<Rightarrow> Finding" where
  "file_op_finding blk = (block_finding ''file-op-no-error-handler'' SeverityWarning ''File operation without error handler''
     ''This file/folder operation can fail due to missing files, permission issues, or file locks but has no error handler.''
     (''Wrap this action in an '' @ quoted ''On Block Error'' @ '' handler to manage missing files, permission errors, and file lock issues gracefully.'')
     blk)\<lparr>fMetadata := [(''rawType'', MetaString (bRawType (binfo blk)))]\<rparr>"

definition file_op_check :: "(string list \<Rightarrow> string list) \<Rightarrow> RuleContext \<Rightarrow> Block \<Rightarrow> Finding list" where
  "file_op_check iter ctx blk =
     (if bType (binfo blk) \<noteq> BlockTypeAction then []
      else if \<not> isFileOperation (bRawType (binfo blk)) then []
      else if HasErrorHandlerAncestor iter ctx blk then []
      else [file_op_finding blk])"

definition FileOpNoErrorHandlerRule :: "(string list \<Rightarrow> string list) \<Rightarrow> Rule" where
  "FileOpNoErrorHandlerRule iter = block_rule ''file-op-no-error-handler'' SeverityWarning ''Reliability'' (file_op_check iter)"

definition transientPrefixes :: "string list" where
  "transientPrefixes = [''WebAutomation.'', ''HTTPClient.'', ''FTP.'', ''Database.'', ''Email.'', ''Outlook.'', ''SharePoint.'',
     ''OneDrive.'', ''ActiveDirectory.'']"

definition isTransientOperation :: "string \<Rightarrow> bool" where
  "isTransientOperation rawType \<longleftrightarrow> list_ex (HasPrefix rawType) transientPrefixes"

definition missing_retry_finding :: "Block \<Rightarrow> Finding" where
  "missing_retry_finding blk = (block_finding ''missing-retry'' SeverityInfo ''Transient operation without retry''
     ''This network/external service action is prone to transient failures (timeouts, rate limits, connection resets) but has no retry mechanism or error handler.''
     (''Wrap this action in a loop with a retry counter and delay, or add an '' @ quoted ''On Block Error'' @ '' handler that implements retry logic.'')
     blk)\<lparr>fAutoFixHint := ''Wrap the action: SET %RetryCount% = 0 > LOOP while %RetryCount% < 3 > [action] > ON ERROR: Wait 2s, SET %RetryCount% = %RetryCount% + 1 > END LOOP.'',
       fMetadata := [(''rawType'', MetaString (bRawType (binfo blk)))]\<rparr>"

definition missing_retry_check :: "(string list \<Rightarrow> string list) \<Rightarrow> RuleContext \<Rightarrow> Block \<Rightarrow> Finding list" where
  "missing_retry_check iter ctx blk =
     (if bType (binfo blk) \<noteq> BlockTypeAction then []
      else if getprop (bProperties (binfo blk)) ''_retryCount'' \<noteq> [] then []
      else if \<not> isTransientOperation (bRawType (binfo blk)) then []
      else if HasErrorHandlerAncestor iter ctx blk then []
      else if isInsideRetryLoop iter ctx blk then []
      else [missing_retry_finding blk])"

definition MissingRetryRule :: "(string list \<Rightarrow> string list) \<Rightarrow> Rule" where
  "MissingRetryRule iter = block_rule ''missing-retry'' SeverityInfo ''Reliability'' (missing_retry_check iter)"

section \<open>Which blocks an ancestor covers\<close>

inductive covered :: "(string \<Rightarrow> Block \<Rightarrow> bool) \<Rightarrow> RuleContext \<Rightarrow> string \<Rightarrow> bool" for direct ctx where
  here: "map_of (ParentMap ctx) k = Some pid \<Longrightarrow> map_of (AllBlocks ctx) pid = Some parent \<Longrightarrow> direct pid parent \<Longrightarrow>
     covered direct ctx k"
| above: "map_of (ParentMap ctx) k = Some pid \<Longrightarrow> map_of (AllBlocks ctx) pid = Some parent \<Longrightarrow> covered direct ctx pid \<Longrightarrow>
     covered direct ctx k"

inductive_simps covered_step: "covered direct ctx k"

text \<open>Entries of the memo outside the keys in progress are right; parents have a greater rank.\<close>

definition memo_right :: "(string \<Rightarrow> Block \<Rightarrow> bool) \<Rightarrow> RuleContext \<Rightarrow> string set \<Rightarrow> memo \<Rightarrow> bool" where
  "memo_right direct ctx S memo \<longleftrightarrow> (\<forall>k v. map_of memo k = Some v \<longrightarrow> k \<notin> S \<longrightarrow> v = covered direct ctx k)"

definition parent_of :: "RuleContext \<Rightarrow> string \<Rightarrow> (string \<times> Block) option" where
  "parent_of ctx k = Option.bind (map_of (ParentMap ctx) k) (\<lambda>pid. map_option (Pair pid) (map_of (AllBlocks ctx) pid))"

lemma parent_of_Some:
  "parent_of ctx k = Some (pid, parent) \<longleftrightarrow> map_of (ParentMap ctx) k = Some pid \<and> map_of (AllBlocks ctx) pid = Some parent"
  by (auto simp: parent_of_def bind_eq_Some_conv)

lemma parent_of_None:
  "parent_of ctx k = None \<longleftrightarrow> (\<forall>pid. map_of (ParentMap ctx) k = Some pid \<longrightarrow> map_of (AllBlocks ctx) pid = None)"
  by (cases "map_of (ParentMap ctx) k") (simp_all add: parent_of_def)

lemma covered_parent:
  "covered direct ctx k \<longleftrightarrow> (case parent_of ctx k of None \<Rightarrow> False | Some (pid, parent) \<Rightarrow> direct pid parent \<or> covered direct ctx pid)"
  by (subst covered_step) (auto simp: parent_of_Some parent_of_None split: option.split)

lemma memo_ancestor_unseen:
  "map_of memo k = None \<Longrightarrow> memo_ancestor direct ctx k memo =
     (case parent_of ctx k of
        None \<Rightarrow> (False, (k, False) # memo)
      | Some (pid, parent) \<Rightarrow>
          if direct pid parent then (True, (k, True) # (k, False) # memo)
          else case memo_ancestor direct ctx pid ((k, False) # memo) of (result, memo) \<Rightarrow> (result, (k, result) # memo))"
  by (subst memo_ancestor.simps, cases "map_of (ParentMap ctx) k")
    (auto simp: parent_of_def Let_def intro: option.exhaust [of "map_of (AllBlocks ctx) (the (map_of (ParentMap ctx) k))"])

lemma memo_ancestor_seen: "map_of memo k = Some v \<Longrightarrow> memo_ancestor direct ctx k memo = (v, memo)"
  by (subst memo_ancestor.simps) simp

lemma memo_right_Cons:
  "memo_right direct ctx S ((k, v) # memo) \<longleftrightarrow> memo_right direct ctx (insert k S) memo \<and> (k \<notin> S \<longrightarrow> v = covered direct ctx k)"
  by (auto simp: memo_right_def)

lemma memo_right_mono: "memo_right direct ctx S memo \<Longrightarrow> memo_right direct ctx (insert k S) memo"
  by (auto simp: memo_right_def)

definition ranked :: "RuleContext \<Rightarrow> (string \<Rightarrow> nat) \<Rightarrow> bool" where
  "ranked ctx rank \<longleftrightarrow> (\<forall>k pid parent. parent_of ctx k = Some (pid, parent) \<longrightarrow> rank k < rank pid)"

lemma memo_ancestor_right:
  assumes "ranked ctx rank" "memo_right direct ctx S memo" "\<forall>s\<in>S. rank s < rank k" "memo_ancestor direct ctx k memo = (v, memo')"
  shows "v = covered direct ctx k \<and> memo_right direct ctx S memo' \<and> insert k (dom (map_of memo)) \<subseteq> dom (map_of memo')"
  using assms
proof (induction direct ctx k memo arbitrary: S v memo' rule: memo_ancestor.induct)
  case (1 direct ctx k memo)
  have kS: "k \<notin> S" using "1.prems"(3) by blast
  show ?case
  proof (cases "map_of memo k")
    case (Some w)
    with 1(3,5) kS show ?thesis by (auto simp: memo_ancestor_seen memo_right_def)
  next
    case None
    note run = "1.prems"(4) [unfolded memo_ancestor_unseen [OF None]]
    show ?thesis
    proof (cases "parent_of ctx k")
      case no: None
      with run memo_right_mono [OF "1.prems"(2)] covered_parent [of direct ctx k] show ?thesis by (auto simp: memo_right_Cons)
    next
      case (Some e)
      obtain pid parent where e: "e = (pid, parent)" by (cases e)
      note p = Some [unfolded e] Some [unfolded e, unfolded parent_of_Some]
      show ?thesis
      proof (cases "direct pid parent")
        case True
        with p run memo_right_mono [OF "1.prems"(2)] covered_parent [of direct ctx k] show ?thesis by (auto simp: memo_right_Cons)
      next
        case False
        obtain r m where m: "memo_ancestor direct ctx pid ((k, False) # memo) = (r, m)" by fastforce
        have "memo_right direct ctx (insert k S) ((k, False) # memo)" using memo_right_mono [OF "1.prems"(2)] by (simp add: memo_right_Cons)
        moreover have "\<forall>s \<in> insert k S. rank s < rank pid"
        proof -
          have "rank k < rank pid" using "1.prems"(1) p(1) by (auto simp: ranked_def)
          with "1.prems"(3) show ?thesis by auto
        qed
        ultimately have IH: "r = covered direct ctx pid \<and> memo_right direct ctx (insert k S) m \<and> insert pid (dom (map_of ((k, False) # memo))) \<subseteq> dom (map_of m)"
          using "1.IH" [OF None refl conjunct1 [OF p(2)] conjunct2 [OF p(2)] False "1.prems"(1) _ _ m] by blast
        have "v = r" "memo' = (k, r) # m" using run p(1) False m by auto
        moreover have "covered direct ctx k = r" using IH covered_parent [of direct ctx k] p(1) False by simp
        moreover have "dom (map_of ((k, r) # m)) = insert k (dom (map_of m))" "dom (map_of memo) \<subseteq> dom (map_of ((k, False) # memo))"
          by auto
        moreover from this IH have "insert k (dom (map_of memo)) \<subseteq> insert k (dom (map_of m))" by blast
        ultimately show ?thesis using IH by (simp add: memo_right_Cons del: map_of.simps)
      qed
    qed
  qed
qed

lemma memo_all_right:
  assumes "ranked ctx rank"
    and "set (iter (map fst (AllBlocks ctx))) = set (map fst (AllBlocks ctx))" "k \<in> fst ` set (AllBlocks ctx)"
  shows "map_of (memo_all direct iter ctx) k = Some (covered direct ctx k)"
proof -
  have "memo_right direct ctx {} (foldl (\<lambda>memo k. snd (memo_ancestor direct ctx k memo)) [] ks) \<and>
      set ks \<subseteq> dom (map_of (foldl (\<lambda>memo k. snd (memo_ancestor direct ctx k memo)) [] ks))" for ks
  proof (induction ks rule: rev_induct)
    case (snoc k ks)
    let ?m = "foldl (\<lambda>memo k. snd (memo_ancestor direct ctx k memo)) [] ks"
    obtain v m' where m': "memo_ancestor direct ctx k ?m = (v, m')" by fastforce
    from memo_ancestor_right [where S = "{}", OF assms(1) _ _ m'] snoc m' show ?case by auto
  qed (simp add: memo_right_def)
  from this [of "iter (map fst (AllBlocks ctx))"] assms(2,3) show ?thesis
    by (auto simp: memo_all_def memo_right_def)
qed

section \<open>Blocks in the index\<close>

lemma block_iff:
  assumes "doc_ids_ok flow"
  shows "map_of (AllBlocks (buildContext flow)) k = Some b \<longleftrightarrow> b \<in> set (filter not_end (walkBlocks flow)) \<and> k = bID (binfo b)"
proof -
  let ?bs = "concat (map group_ptrs (doc_groups flow))"
  have ps: "AllBlocks (buildContext flow) = updates [] (map (\<lambda>b. (bID (binfo b), b)) ?bs)"
  proof -
    have "block_pairs (\<lambda>i b. b) = (\<lambda>g. map (\<lambda>b. (bID (binfo b), b)) (group_ptrs g))" by (rule ext) (rule block_pairs_map)
    then show ?thesis by (simp add: context_fields map_concat comp_def)
  qed
  have "inj_on (bID \<circ> binfo) (set ?bs)" using doc_members_distinct [OF assms] by (simp add: block_ids_def distinct_map)
  then have "\<forall>c c'. (k, c) \<in> set (map (\<lambda>b. (bID (binfo b), b)) ?bs) \<longrightarrow> (k, c') \<in> set (map (\<lambda>b. (bID (binfo b), b)) ?bs) \<longrightarrow> c = c'"
    unfolding set_map inj_on_def comp_def by blast
  from updates_functional [OF this] show ?thesis unfolding ps group_blocks_walk [symmetric] set_map by blast
qed

section \<open>Ancestors in the tree\<close>

text \<open>
  The blocks a test on ancestors reaches, read off the tree: a block whose parent satisfies the test or
  is itself reached. An END marker passes nothing on to its children, since it is not indexed.
\<close>

primrec guarded :: "(Block \<Rightarrow> bool) \<Rightarrow> Block \<Rightarrow> bool \<Rightarrow> string list" where
  "guarded D (Block b cs) g =
     (if g \<and> bType b \<noteq> BlockTypeEnd then [bID b] else []) @
     concat (map (\<lambda>c. guarded D c (bType b \<noteq> BlockTypeEnd \<and> (g \<or> D (Block b cs)))) cs)"

definition doc_guarded :: "(Block \<Rightarrow> bool) \<Rightarrow> FlowDocument \<Rightarrow> string list" where
  "doc_guarded D flow = concat (map (\<lambda>sf. concat (map (\<lambda>b. guarded D b False) (sfBlocks sf))) (Subflows flow))"

lemma tree_group_parent: "g \<in> set (tree_groups b sf d) \<Longrightarrow> \<exists>x \<in> set (preorder b). bID (binfo x) = fst g \<and> Children x = group_blocks g"
proof (induction b arbitrary: d)
  case (Block b cs)
  show ?case
  proof (cases "g = (bID b, sf, d + 1, cs)")
    case True
    then show ?thesis by simp
  next
    case False
    with Block.prems obtain c where "c \<in> set cs" "g \<in> set (tree_groups c sf (d + 1))" by (auto split: if_splits)
    with Block.IH show ?thesis by fastforce
  qed
qed

lemma tree_parent_group:
  "x \<in> set (preorder b) \<Longrightarrow> Children x \<noteq> [] \<Longrightarrow> \<exists>g \<in> set (tree_groups b sf d). fst g = bID (binfo x) \<and> group_blocks g = Children x"
proof (induction b arbitrary: d)
  case (Block b cs)
  show ?case
  proof (cases "x = Block b cs")
    case True
    with Block.prems show ?thesis by auto
  next
    case False
    with Block.prems obtain c where "c \<in> set cs" "x \<in> set (preorder c)" by auto
    with Block.IH [OF this Block.prems(2), of "d + 1"] show ?thesis by auto
  qed
qed

lemma group_parent:
  "g \<in> set (doc_groups flow) \<Longrightarrow> fst g \<noteq> [] \<Longrightarrow> \<exists>x \<in> set (walkBlocks flow). bID (binfo x) = fst g \<and> Children x = group_blocks g"
  unfolding doc_groups_def subflow_groups_def walkBlocks_def doc_blocks_def forest_blocks_def
  by (fastforce dest: tree_group_parent)

lemma parent_group:
  assumes "x \<in> set (walkBlocks flow)" "Children x \<noteq> []"
  shows "\<exists>g \<in> set (doc_groups flow). fst g = bID (binfo x) \<and> group_blocks g = Children x"
proof -
  from assms(1) obtain sf b where "sf \<in> set (Subflows flow)" "b \<in> set (sfBlocks sf)" "x \<in> set (preorder b)"
    unfolding walkBlocks_def doc_blocks_def forest_blocks_def by auto
  with tree_parent_group [OF this(3) assms(2), of "sfID sf" 0] show ?thesis
    unfolding doc_groups_def subflow_groups_def by auto
qed

lemma same_block:
  "doc_ids_ok flow \<Longrightarrow> x \<in> set (walkBlocks flow) \<Longrightarrow> y \<in> set (walkBlocks flow) \<Longrightarrow> bID (binfo x) = bID (binfo y) \<Longrightarrow> x = y"
  by (auto simp: doc_ids_ok_def block_ids_def distinct_map inj_on_def)

lemma doc_ids_nonempty: "doc_ids_ok flow \<Longrightarrow> x \<in> set (walkBlocks flow) \<Longrightarrow> bID (binfo x) \<noteq> []"
  by (force simp: doc_ids_ok_def block_ids_def)

lemma size_child: "c \<in> set (Children b) \<Longrightarrow> size c < size b"
  by (cases b) (auto dest: size_list_estimation' [where f = size, OF _ order_refl])

lemma context_ranked:
  assumes "doc_ids_ok flow"
  shows "ranked (buildContext flow) (\<lambda>k. case map_of (AllBlocks (buildContext flow)) k of None \<Rightarrow> 0 | Some b \<Rightarrow> size b)"
  unfolding ranked_def
proof (intro allI impI)
  fix k pid parent
  let ?ctx = "buildContext flow"
  assume "parent_of ?ctx k = Some (pid, parent)"
  then have p: "map_of (ParentMap ?ctx) k = Some pid" "map_of (AllBlocks ?ctx) pid = Some parent" by (simp_all add: parent_of_Some)
  from p(1) obtain g b where g: "g \<in> set (doc_groups flow)" "fst g = pid" "pid \<noteq> []" "b \<in> set (group_ptrs g)" "k = bID (binfo b)"
    unfolding parent_iff [OF assms] by blast
  obtain x where x: "x \<in> set (walkBlocks flow)" "bID (binfo x) = pid" "Children x = group_blocks g"
    using group_parent [OF g(1)] g(2,3) by auto
  with p(2) have "x = parent" unfolding block_iff [OF assms] using same_block [OF assms] by auto
  moreover have "b \<in> set (Children x)" using g(4) x(3) by (simp add: group_ptrs_blocks)
  moreover have "map_of (AllBlocks ?ctx) k = Some b"
    unfolding block_iff [OF assms] group_blocks_walk [symmetric] using g by auto
  ultimately show "(case map_of (AllBlocks ?ctx) k of None \<Rightarrow> 0 | Some b \<Rightarrow> size b) <
      (case map_of (AllBlocks ?ctx) pid of None \<Rightarrow> 0 | Some b \<Rightarrow> size b)" using p(2) size_child by simp
qed

definition doc_covered :: "(RuleContext \<Rightarrow> string \<Rightarrow> Block \<Rightarrow> bool) \<Rightarrow> FlowDocument \<Rightarrow> Block \<Rightarrow> bool" where
  "doc_covered direct flow x \<longleftrightarrow> covered (direct (buildContext flow)) (buildContext flow) (bID (binfo x))"

text \<open>
  A fact on ancestors: the test it makes on the indexes is, for every parent of the document, a test on
  the parent's own subtree.
\<close>

locale ancestor_fact =
  fixes direct :: "RuleContext \<Rightarrow> string \<Rightarrow> Block \<Rightarrow> bool" and D :: "Block \<Rightarrow> bool"
  assumes direct_tree: "doc_ids_ok flow \<Longrightarrow> b \<in> set (walkBlocks flow) \<Longrightarrow> not_end b \<Longrightarrow>
      direct (buildContext flow) (bID (binfo b)) b \<longleftrightarrow> D b"
begin

lemma cov_child:
  assumes ok: "doc_ids_ok flow" and b: "b \<in> set (walkBlocks flow)"
    and g: "g \<in> set (doc_groups flow)" "fst g = bID (binfo b)" "c \<in> set (group_ptrs g)"
  shows "doc_covered direct flow c \<longleftrightarrow> not_end b \<and> (doc_covered direct flow b \<or> D b)"
proof -
  let ?ctx = "buildContext flow"
  have "map_of (ParentMap ?ctx) (bID (binfo c)) = Some (bID (binfo b))"
    unfolding parent_iff [OF ok] using g doc_ids_nonempty [OF ok b] by auto
  moreover have "map_of (AllBlocks ?ctx) (bID (binfo b)) = (if not_end b then Some b else None)"
  proof (cases "map_of (AllBlocks ?ctx) (bID (binfo b))")
    case None
    then have "\<not> not_end b" using block_iff [OF ok, of "bID (binfo b)" b] b by auto
    with None show ?thesis by simp
  next
    case (Some x)
    then have "not_end x" "x \<in> set (walkBlocks flow)" "bID (binfo b) = bID (binfo x)" unfolding block_iff [OF ok] by auto
    with Some same_block [OF ok b, of x] show ?thesis by simp
  qed
  ultimately have "parent_of ?ctx (bID (binfo c)) = (if not_end b then Some (bID (binfo b), b) else None)"
    by (simp add: parent_of_def)
  with direct_tree [OF ok b] show ?thesis unfolding doc_covered_def by (subst covered_parent) auto
qed

lemma guarded_tree:
  assumes ok: "doc_ids_ok flow"
  shows "set (preorder b) \<subseteq> set (walkBlocks flow) \<Longrightarrow> set (tree_groups b sf d) \<subseteq> set (doc_groups flow) \<Longrightarrow> (not_end b \<Longrightarrow> g = doc_covered direct flow b) \<Longrightarrow>
    set (guarded D b g) = (\<lambda>x. bID (binfo x)) ` {x \<in> set (preorder b). not_end x \<and> doc_covered direct flow x}"
proof (induction b arbitrary: d g)
  case (Block b cs)
  let ?b = "Block b cs" and ?f = "\<lambda>x. bID (binfo x)"
  let ?g = "bType b \<noteq> BlockTypeEnd \<and> (g \<or> D ?b)"
  have child: "?g = doc_covered direct flow c" if "c \<in> set cs" "not_end c" for c
  proof -
    have "(bID b, sf, d + 1, cs) \<in> set (doc_groups flow)" using Block.prems(2) that(1) by (auto split: if_splits)
    with cov_child [OF ok, of ?b "(bID b, sf, d + 1, cs)" c] that Block.prems(1,3) show ?thesis by (auto simp: not_end_def)
  qed
  have IH: "set (guarded D c ?g) = ?f ` {x \<in> set (preorder c). not_end x \<and> doc_covered direct flow x}" if "c \<in> set cs" for c
    using Block.prems(1,2) that child by (intro Block.IH [where d = "d + 1"]) (auto split: if_splits)
  have "set (guarded D ?b g) = (if g \<and> not_end ?b then {bID b} else {}) \<union> (\<Union>c \<in> set cs. ?f ` {x \<in> set (preorder c). not_end x \<and> doc_covered direct flow x})"
    using IH by (auto simp: not_end_def)
  also have "\<dots> = ?f ` {x \<in> set (preorder ?b). not_end x \<and> doc_covered direct flow x}" using Block.prems(3) by (force split: if_splits)
  finally show ?case .
qed

lemma cov_root:
  assumes "doc_ids_ok flow" "sf \<in> set (Subflows flow)" "b \<in> set (sfBlocks sf)" "not_end b"
  shows "\<not> doc_covered direct flow b"
proof -
  let ?g = "([], sfID sf, 0, sfBlocks sf) :: group"
  have g: "?g \<in> set (doc_groups flow)" using assms(2) by (auto simp: doc_groups_def subflow_groups_def)
  have "map_of (ParentMap (buildContext flow)) (bID (binfo b)) = None"
  proof (rule ccontr)
    assume "\<not> ?thesis"
    then obtain h c where "h \<in> set (doc_groups flow)" "fst h \<noteq> []" "c \<in> set (group_ptrs h)" "bID (binfo b) = bID (binfo c)"
      using parent_iff [OF assms(1), of "bID (binfo b)"] by auto
    with group_of_member [OF assms(1) g, of h b c] assms(3,4) show False by auto
  qed
  then show ?thesis unfolding doc_covered_def by (subst covered_parent) (simp add: parent_of_def)
qed

lemma doc_guarded_cov:
  assumes "doc_ids_ok flow"
  shows "set (doc_guarded D flow) = (\<lambda>x. bID (binfo x)) ` {x \<in> set (walkBlocks flow). not_end x \<and> doc_covered direct flow x}"
proof -
  have "set (guarded D b False) = (\<lambda>x. bID (binfo x)) ` {x \<in> set (preorder b). not_end x \<and> doc_covered direct flow x}"
    if "sf \<in> set (Subflows flow)" "b \<in> set (sfBlocks sf)" for sf b
    using that cov_root [OF assms that] by (intro guarded_tree [OF assms, where sf = "sfID sf" and d = 0])
      (auto simp: walkBlocks_def doc_blocks_def forest_blocks_def doc_groups_def subflow_groups_def)
  then have "set (doc_guarded D flow) =
      (\<Union>sf \<in> set (Subflows flow). \<Union>b \<in> set (sfBlocks sf). (\<lambda>x. bID (binfo x)) ` {x \<in> set (preorder b). not_end x \<and> doc_covered direct flow x})"
    by (simp add: doc_guarded_def)
  then show ?thesis by (auto simp: walkBlocks_def doc_blocks_def forest_blocks_def)
qed

theorem memo_exact:
  assumes "doc_ids_ok flow" "set (iter (map fst (AllBlocks (buildContext flow)))) = set (map fst (AllBlocks (buildContext flow)))"
    and "x \<in> set (walkBlocks flow)" "not_end x"
  shows "map_of (memo_all (direct (buildContext flow)) iter (buildContext flow)) (bID (binfo x)) = Some (bID (binfo x) \<in> set (doc_guarded D flow))"
proof -
  have "map_of (AllBlocks (buildContext flow)) (bID (binfo x)) = Some x" using block_iff [OF assms(1)] assms(3,4) by simp
  then have "bID (binfo x) \<in> fst ` set (AllBlocks (buildContext flow))" by (force dest: map_of_SomeD)
  from memo_all_right [where iter = iter, OF context_ranked [OF assms(1)] assms(2) this]
  have "map_of (memo_all (direct (buildContext flow)) iter (buildContext flow)) (bID (binfo x)) = Some (doc_covered direct flow x)"
    by (simp add: doc_covered_def)
  moreover have "bID (binfo x) \<in> set (doc_guarded D flow) \<longleftrightarrow> doc_covered direct flow x"
    unfolding doc_guarded_cov [OF assms(1)] using assms(3,4) same_block [OF assms(1,3)] by auto
  ultimately show ?thesis by simp
qed

end

definition handler_scope :: "Block \<Rightarrow> bool" where
  "handler_scope b \<longleftrightarrow> list_ex (\<lambda>x. bType (binfo x) = BlockTypeErrorHandler) (b # Children b)"

lemma root_group:
  assumes "doc_ids_ok flow" "g \<in> set (doc_groups flow)" "fst g = []"
  shows "\<exists>sf \<in> set (Subflows flow). group_key g = sfID sf"
proof -
  from assms(2) obtain sf where sf: "sf \<in> set (Subflows flow)" "g \<in> set (subflow_groups sf)" by (auto simp: doc_groups_def)
  have "g \<notin> set (tree_groups b (sfID sf) 0)" if "b \<in> set (sfBlocks sf)" for b
  proof
    assume "g \<in> set (tree_groups b (sfID sf) 0)"
    from tree_group_parent [OF this] assms(3) obtain x where x: "x \<in> set (preorder b)" "bID (binfo x) = []" by auto
    then have "x \<in> set (walkBlocks flow)" using sf(1) that by (auto simp: walkBlocks_def doc_blocks_def forest_blocks_def)
    with doc_ids_nonempty [OF assms(1)] x(2) show False by blast
  qed
  with sf(2) have "group_key g = sfID sf" by (auto simp: subflow_groups_def)
  with sf(1) show ?thesis by blast
qed

lemma handler_group:
  assumes ok: "doc_ids_ok flow" and b: "b \<in> set (walkBlocks flow)"
  shows "map_of (GroupHasHandler (buildContext flow)) (bID (binfo b)) = Some True \<longleftrightarrow>
    list_ex (\<lambda>x. bType (binfo x) = BlockTypeErrorHandler) (Children b)"
proof -
  have key: "group_blocks g = Children b" if g: "g \<in> set (doc_groups flow)" "group_key g = bID (binfo b)" for g
  proof (cases "fst g = []")
    case True
    from root_group [OF ok g(1) True] obtain sf where "sf \<in> set (Subflows flow)" "group_key g = sfID sf" by blast
    with g(2) ok b show ?thesis by (force simp: doc_ids_ok_def block_ids_def)
  next
    case False
    then have "fst g = bID (binfo b)" using g(2) by (cases g) simp
    with group_parent [OF g(1) False] same_block [OF ok b] show ?thesis by metis
  qed
  show ?thesis
  proof
    assume "map_of (GroupHasHandler (buildContext flow)) (bID (binfo b)) = Some True"
    with key show "list_ex (\<lambda>x. bType (binfo x) = BlockTypeErrorHandler) (Children b)"
      unfolding handler_iff list_ex_iff group_ptrs_blocks by auto
  next
    assume h: "list_ex (\<lambda>x. bType (binfo x) = BlockTypeErrorHandler) (Children b)"
    then have "Children b \<noteq> []" by auto
    from parent_group [OF b this] obtain g where g: "g \<in> set (doc_groups flow)" "fst g = bID (binfo b)" "group_blocks g = Children b" by blast
    have "group_key g = bID (binfo b)" using g(2) doc_ids_nonempty [OF ok b] by (auto simp: group_key_def split: prod.split)
    with g h show "map_of (GroupHasHandler (buildContext flow)) (bID (binfo b)) = Some True"
      unfolding handler_iff list_ex_iff group_ptrs_blocks by (auto simp: not_end_def intro!: bexI [of _ g])
  qed
qed

interpretation handlers: ancestor_fact handler_direct handler_scope
  by unfold_locales (simp add: handler_direct_def handler_scope_def handler_group)

interpretation retries: ancestor_fact "\<lambda>_ _. parentIsRetryLoop" parentIsRetryLoop
  by unfold_locales simp

text \<open>
  C22: the reliability rules are exact. In a document with distinct identifiers, whatever order the map of
  blocks is iterated in, an action gets a finding exactly when its type is one of the rule's and, read off
  the tree, no ancestor is an error handler or holds one among its children, and, for the retry rule, the
  action has no retry of its own and no ancestor is a loop named after a retry.
\<close>

theorem reliability_rules_exact:
  assumes "doc_ids_ok flow" "set (iter (map fst (AllBlocks (buildContext flow)))) = set (map fst (AllBlocks (buildContext flow)))"
    and "x \<in> set (walkBlocks flow)"
  shows "let ctx = buildContext flow; raw = bRawType (binfo x);
      bare = (bType (binfo x) = BlockTypeAction \<and> bID (binfo x) \<notin> set (doc_guarded handler_scope flow)) in
    ruCheck (UnhandledErrorRule iter) ctx x = Some (if bare \<and> isFallible raw then [unhandled_error_finding x] else []) \<and>
    ruCheck (FileOpNoErrorHandlerRule iter) ctx x = Some (if bare \<and> isFileOperation raw then [file_op_finding x] else []) \<and>
    ruCheck (MissingRetryRule iter) ctx x = Some
      (if bare \<and> isTransientOperation raw \<and> getprop (bProperties (binfo x)) ''_retryCount'' = [] \<and>
          bID (binfo x) \<notin> set (doc_guarded parentIsRetryLoop flow)
       then [missing_retry_finding x] else [])"
proof -
  have "bType (binfo x) = BlockTypeAction \<Longrightarrow> not_end x" by (simp add: not_end_def)
  note h = handlers.memo_exact [of flow iter, OF assms this] and r = retries.memo_exact [of flow iter, OF assms this]
  show ?thesis
    using h r
    by (auto simp: UnhandledErrorRule_def FileOpNoErrorHandlerRule_def MissingRetryRule_def block_rule_def unhandled_error_check_def
        file_op_check_def missing_retry_check_def HasErrorHandlerAncestor_def isInsideRetryLoop_def buildHasErrorHandler_def
        buildInsideRetryLoop_def Let_def)
qed

definition typed_block :: "string \<Rightarrow> BlockType \<Rightarrow> string \<Rightarrow> Block list \<Rightarrow> Block" where
  "typed_block i t raw cs = Block ((binfo (note_block t i i))\<lparr>bRawType := raw\<rparr>) cs"

definition safe_action :: Block where "safe_action = typed_block ''a'' BlockTypeAction ''Database.Connect'' []"

definition bare_action :: Block where "bare_action = typed_block ''d'' BlockTypeAction ''Database.Connect'' []"

definition handled_flow :: FlowDocument where
  "handled_flow = (suppress_sample ''note'')\<lparr>Subflows := [(hd (Subflows (suppress_sample ''note'')))\<lparr>sfBlocks :=
     [typed_block ''b'' BlockTypeBlock ''BLOCK'' [safe_action, typed_block ''h'' BlockTypeErrorHandler ''ON BLOCK ERROR'' []],
      typed_block ''l'' BlockTypeLoop ''LOOP'' [bare_action]]\<rparr>]\<rparr>"

theorem reliability_rules_exact_witness:
  "ruCheck (MissingRetryRule rev) (buildContext handled_flow) bare_action = Some [missing_retry_finding bare_action] \<and>
   ruCheck (MissingRetryRule rev) (buildContext handled_flow) safe_action = Some []"
proof -
  have ok: "doc_ids_ok handled_flow" by code_simp
  have it: "set (rev (map fst (AllBlocks (buildContext handled_flow)))) = set (map fst (AllBlocks (buildContext handled_flow)))" by simp
  have "bare_action \<in> set (walkBlocks handled_flow)" "safe_action \<in> set (walkBlocks handled_flow)" by code_simp+
  note rule = this [THEN reliability_rules_exact [of handled_flow rev, OF ok it]]
  have g: "set (doc_guarded handler_scope handled_flow) = {''a'', ''h''}" "set (doc_guarded parentIsRetryLoop handled_flow) = {}"
    by code_simp+
  have i: "bID (binfo bare_action) = ''d''" "bID (binfo safe_action) = ''a''" "bType (binfo bare_action) = BlockTypeAction"
    "isTransientOperation (bRawType (binfo bare_action))" "getprop (bProperties (binfo bare_action)) ''_retryCount'' = []" by code_simp+
  from rule show ?thesis unfolding Let_def g i using i by simp
qed

end
