(* ===== verification/Variable_Rules.thy ===== *)
theory Variable_Rules
  imports Taint Ancestors Fix_Loop
begin

text \<open>
  Rules of core/analyzer on variables and the resources they hold: rule_resource_leak.go,
  rule_uninitialized_variable.go, rule_unused_variable.go, rule_tainted_sink.go,
  rule_sensitive_exposure.go and rule_command_injection.go. The leak rule looks up an index built once,
  and is shown to agree with the predicate on single blocks the index replaces.
\<close>

section \<open>Resources\<close>

definition wrapped_var :: "string \<Rightarrow> string" where
  "wrapped_var v = ''%'' @ v @ ''%''"

definition blockReferencesVar :: "block_info \<Rightarrow> string \<Rightarrow> bool" where
  "blockReferencesVar b varName \<longleftrightarrow>
     list_ex (\<lambda>v. v = varName) (bVariables b) \<or>
     list_ex (\<lambda>(_, v). v = varName \<or> v = wrapped_var varName) (bProperties b)"

definition value_vars :: "string \<Rightarrow> string list" where
  "value_vars val = val # (if length val \<ge> 2 \<and> hd val = CHR ''%'' \<and> last val = CHR ''%'' then [butlast (tl val)] else [])"

definition addReferencedVars :: "string list \<Rightarrow> block_info \<Rightarrow> string list" where
  "addReferencedVars vars b = vars @ bVariables b @ concat (map (\<lambda>(_, val). value_vars val) (bProperties b))"

type_synonym closed_vars = "(string \<times> string list) list"

definition close_pair :: "block_info \<Rightarrow> closed_vars \<Rightarrow> resourcePair \<Rightarrow> closed_vars" where
  "close_pair b out p =
     (if \<not> hasPrefixFold (bRawType b) (closePrefix p) then out
      else AList.update (closePrefix p) (addReferencedVars (list_at out (closePrefix p)) b) out)"

definition buildClosedResourceVars :: "((string \<times> Block) list \<Rightarrow> (string \<times> Block) list) \<Rightarrow> RuleContext \<Rightarrow> closed_vars" where
  "buildClosedResourceVars iter ctx =
     foldl (\<lambda>out (_, b). foldl (close_pair (binfo b)) out resourcePairs) [] (iter (AllBlocks ctx))"

definition leak_finding :: "resourcePair \<Rightarrow> string \<Rightarrow> Block \<Rightarrow> Finding" where
  "leak_finding matched out blk = (block_finding ''resource-leak'' SeverityWarning ''Resource opened but never closed''
     (''This action opens a '' @ pairLabel matched @ '' (stored in %'' @ out @ ''%) but no matching close action was found in the flow.'')
     (''Add a '' @ quoted (closeActionName matched) @ '' action to release the resource. Place it inside an '' @ quoted ''On Block Error''
        @ '' handler to guarantee cleanup even on failure.'') blk)
     \<lparr>fMetadata := [(''resource'', MetaString (pairLabel matched)), (''variable'', MetaString out)]\<rparr>"

definition leak_check :: "((string \<times> Block) list \<Rightarrow> (string \<times> Block) list) \<Rightarrow> RuleContext \<Rightarrow> Block \<Rightarrow> Finding list" where
  "leak_check iter ctx blk =
     (case matchResourcePair (bRawType (binfo blk)) of
        None \<Rightarrow> []
      | Some matched \<Rightarrow>
          (let out = getprop (bProperties (binfo blk)) ''_output'' in
           if out = [] then []
           else if out \<in> set (list_at (buildClosedResourceVars iter ctx) (closePrefix matched)) then []
           else [leak_finding matched out blk]))"

definition ResourceLeakRule :: "((string \<times> Block) list \<Rightarrow> (string \<times> Block) list) \<Rightarrow> Rule" where
  "ResourceLeakRule iter = block_rule ''resource-leak'' SeverityWarning ''Reliability'' (leak_check iter)"

subsection \<open>The index is the predicate\<close>

lemma value_vars_iff: "v \<in> set (value_vars val) \<longleftrightarrow> val = v \<or> val = wrapped_var v"
proof -
  have "(length val \<ge> 2 \<and> hd val = CHR ''%'' \<and> last val = CHR ''%'' \<and> v = butlast (tl val)) \<longleftrightarrow> val = wrapped_var v"
  proof (cases val)
    case (Cons c cs)
    then show ?thesis by (cases cs rule: rev_cases) (auto simp: wrapped_var_def)
  qed (simp add: wrapped_var_def)
  then show ?thesis by (auto simp: value_vars_def)
qed

lemma referenced_iff: "v \<in> set (addReferencedVars vars b) \<longleftrightarrow> v \<in> set vars \<or> blockReferencesVar b v"
  by (force simp: addReferencedVars_def blockReferencesVar_def list_ex_iff value_vars_iff)

lemma close_pairs_at:
  "v \<in> set (list_at (foldl (close_pair b) out ps) cp) \<longleftrightarrow>
     v \<in> set (list_at out cp) \<or> (cp \<in> closePrefix ` set ps \<and> hasPrefixFold (bRawType b) cp \<and> blockReferencesVar b v)"
proof (induction ps arbitrary: out)
  case (Cons p ps)
  have "v \<in> set (list_at (close_pair b out p) cp) \<longleftrightarrow>
      v \<in> set (list_at out cp) \<or> (cp = closePrefix p \<and> hasPrefixFold (bRawType b) cp \<and> blockReferencesVar b v)"
    by (auto simp: close_pair_def list_at_def AList.update_conv' referenced_iff split: option.splits)
  then show ?case using Cons.IH [of "close_pair b out p"] by auto
qed simp

lemma closed_at:
  assumes "cp \<in> closePrefix ` set resourcePairs"
  shows "v \<in> set (list_at (foldl (\<lambda>out (_, b). foldl (close_pair (binfo b)) out resourcePairs) out es) cp) \<longleftrightarrow>
     v \<in> set (list_at out cp) \<or> (\<exists>b \<in> snd ` set es. hasPrefixFold (bRawType (binfo b)) cp \<and> blockReferencesVar (binfo b) v)"
proof (induction es arbitrary: out)
  case (Cons e es)
  then show ?case using assms by (cases e) (auto simp: close_pairs_at)
qed simp

lemma all_blocks_entries:
  assumes "doc_ids_ok flow"
  shows "snd ` set (AllBlocks (buildContext flow)) = set (filter not_end (walkBlocks flow))"
proof -
  have "distinct (map fst m) \<Longrightarrow> distinct (map fst (updates m ps))" for m ps :: "(string \<times> Block) list"
  proof (induction ps arbitrary: m)
    case (Cons p ps)
    then show ?case by (cases p) (simp add: distinct_update)
  qed simp
  from this [of "[]"] have d: "distinct (map fst (AllBlocks (buildContext flow)))" by (simp add: context_fields)
  have "(k, b) \<in> set (AllBlocks (buildContext flow)) \<longleftrightarrow> b \<in> set (filter not_end (walkBlocks flow)) \<and> k = bID (binfo b)" for k b
    unfolding map_of_eq_Some_iff [OF d, symmetric] by (rule block_iff [OF assms])
  then show ?thesis by (intro set_eqI) (metis (no_types, lifting) image_iff prod.collapse snd_conv)
qed

lemma closed_exact:
  assumes "doc_ids_ok flow" "set (iter (AllBlocks (buildContext flow))) = set (AllBlocks (buildContext flow))"
    and "cp \<in> closePrefix ` set resourcePairs"
  shows "v \<in> set (list_at (buildClosedResourceVars iter (buildContext flow)) cp) \<longleftrightarrow>
    (\<exists>b. b \<in> set (filter not_end (walkBlocks flow)) \<and> hasPrefixFold (bRawType (binfo b)) cp \<and> blockReferencesVar (binfo b) v)"
proof -
  have "list_at [] cp = ([] :: string list)" by (simp add: list_at_def)
  then show ?thesis
    unfolding buildClosedResourceVars_def closed_at [OF assms(3)] assms(2) all_blocks_entries [OF assms(1)] by auto
qed

text \<open>
  C23: the leak rule looks up what a scan would find. In a document with distinct identifiers, whatever order
  the map of blocks is iterated in, an action that opens a resource into a variable gets a finding exactly
  when no block of the document performs the matching close and refers to the variable.
\<close>

theorem resource_leak_exact:
  assumes "doc_ids_ok flow" "set (iter (AllBlocks (buildContext flow))) = set (AllBlocks (buildContext flow))"
  shows "ruCheck (ResourceLeakRule iter) (buildContext flow) x = Some
    (case matchResourcePair (bRawType (binfo x)) of
       None \<Rightarrow> []
     | Some p \<Rightarrow>
         (let v = getprop (bProperties (binfo x)) ''_output'' in
          if v \<noteq> [] \<and> \<not> (\<exists>b. b \<in> set (filter not_end (walkBlocks flow)) \<and> hasPrefixFold (bRawType (binfo b)) (closePrefix p) \<and>
              blockReferencesVar (binfo b) v)
          then [leak_finding p v x] else []))"
proof (cases "matchResourcePair (bRawType (binfo x))")
  case (Some p)
  then have "closePrefix p \<in> closePrefix ` set resourcePairs" by (auto simp: matchResourcePair_def find_Some_iff)
  from closed_exact [of flow iter, OF assms this] show ?thesis
    unfolding ResourceLeakRule_def block_rule_def leak_check_def by (auto simp: Let_def Some)
qed (simp add: ResourceLeakRule_def block_rule_def leak_check_def)

definition leak_flow :: FlowDocument where
  "leak_flow = dead_data_flow\<lparr>Subflows := [(hd (Subflows dead_data_flow))\<lparr>sfBlocks :=
     [taint_block ''a'' ''Database.Connect'' [(''_output'', ''Db'')], taint_block ''b'' ''Database.Connect'' [(''_output'', ''Other'')],
      taint_block ''c'' ''database.closeConnection'' [(''Connection'', ''%Db%'')]]\<rparr>]\<rparr>"

theorem resource_leak_exact_witness:
  "(\<exists>f. ruCheck (ResourceLeakRule rev) (buildContext leak_flow) (taint_block ''b'' ''Database.Connect'' [(''_output'', ''Other'')]) = Some [f]) \<and>
   ruCheck (ResourceLeakRule rev) (buildContext leak_flow) (taint_block ''a'' ''Database.Connect'' [(''_output'', ''Db'')]) = Some []"
proof -
  have ok: "doc_ids_ok leak_flow" by code_simp
  have it: "set (rev (AllBlocks (buildContext leak_flow))) = set (AllBlocks (buildContext leak_flow))" by simp
  note rule = resource_leak_exact [of leak_flow rev, OF ok it]
  let ?a = "taint_block ''a'' ''Database.Connect'' [(''_output'', ''Db'')]" and ?b = "taint_block ''b'' ''Database.Connect'' [(''_output'', ''Other'')]"
  have m: "matchResourcePair (bRawType (binfo ?a)) = Some (resourcePairs ! 1)" "matchResourcePair (bRawType (binfo ?b)) = Some (resourcePairs ! 1)"
    by code_simp+
  have v: "getprop (bProperties (binfo ?a)) ''_output'' = ''Db''" "getprop (bProperties (binfo ?b)) ''_output'' = ''Other''" by code_simp+
  have "list_ex (\<lambda>b. hasPrefixFold (bRawType (binfo b)) (closePrefix (resourcePairs ! 1)) \<and> blockReferencesVar (binfo b) ''Db'') (filter not_end (walkBlocks leak_flow))"
    "\<not> list_ex (\<lambda>b. hasPrefixFold (bRawType (binfo b)) (closePrefix (resourcePairs ! 1)) \<and> blockReferencesVar (binfo b) ''Other'') (filter not_end (walkBlocks leak_flow))"
    by code_simp+
  then show ?thesis unfolding rule m v option.case Let_def list_ex_iff by auto
qed

section \<open>Uninitialized variables\<close>

definition systemVarSet :: "string list" where
  "systemVarSet = [''currentdatetime'', ''yesterday'', ''tomorrow'', ''loopindex'', ''currentitem'', ''buttonpressed'', ''selectedbutton'',
     ''username'', ''currentuser'', ''windowsusername'', ''windowsuserdomainname'', ''computername'', ''machinename'', ''hostname'',
     ''userprofile'', ''desktopdirectory'', ''programfiles'', ''programfilesx86'', ''systemroot'', ''windir'', ''temp'', ''tmp'',
     ''newline'', ''tab'', ''true'', ''false'', ''blank'', ''pageurl'', ''browserdata'', ''lasterror'', ''lasterrortext'',
     ''errormessage'', ''errortext'', ''errordescription'', ''erroroccurred'']"

definition hasUppercaseASCII :: "string \<Rightarrow> bool" where
  "hasUppercaseASCII s \<longleftrightarrow> list_ex is_upper s"

definition isSystemVariable :: "string \<Rightarrow> bool" where
  "isSystemVariable vname \<longleftrightarrow>
     vname \<in> set systemVarSet \<or> (hasUppercaseASCII vname \<and> ToLower vname \<in> set systemVarSet)"

definition isFirstUsage :: "string \<Rightarrow> block_info \<Rightarrow> RuleContext \<Rightarrow> bool" where
  "isFirstUsage vname b ctx \<longleftrightarrow> (case map_of (FirstReaderByVar ctx) vname of None \<Rightarrow> [] | Some k \<Rightarrow> k) = bID b"

definition isAssignedAnywhere :: "string \<Rightarrow> RuleContext \<Rightarrow> bool" where
  "isAssignedAnywhere vname ctx \<longleftrightarrow> list_at (WritersByVar ctx) vname \<noteq> []"

definition uninitialized_finding :: "Block \<Rightarrow> string \<Rightarrow> Finding" where
  "uninitialized_finding blk vname = (block_finding ''uninitialized-variable'' SeverityWarning ''Variable potentially uninitialized''
     (''Variable '' @ quoted vname @ '' is used here but doesn'' @ [CHR 0x27] @ ''t seem to be assigned anywhere in the flow.'')
     ''Ensure the variable is initialized with a SET action or as an output of another action.'' blk)
     \<lparr>fMetadata := [(''variable'', MetaString vname)]\<rparr>"

definition uninitialized_check :: "RuleContext \<Rightarrow> Block \<Rightarrow> Finding list" where
  "uninitialized_check ctx blk =
     map (uninitialized_finding blk)
       (filter (\<lambda>vname. \<not> hasPrefixFold vname ''input_'' \<and> \<not> isSystemVariable vname \<and> \<not> isAssignedAnywhere vname ctx \<and>
           isFirstUsage vname (binfo blk) ctx) (bVariables (binfo blk)))"

definition UninitializedVariableRule :: Rule where
  "UninitializedVariableRule = block_rule ''uninitialized-variable'' SeverityWarning ''Logic'' uninitialized_check"

subsection \<open>One report per variable\<close>

definition line_of :: "RuleContext \<Rightarrow> string \<Rightarrow> nat" where
  "line_of ctx k = bLineNumber (binfo (the (map_of (AllBlocks ctx) k)))"

lemma earliest_run:
  "set ks \<subseteq> dom (map_of (AllBlocks ctx)) \<Longrightarrow>
     (case foldl (earliest_step ctx) None ks of
        None \<Rightarrow> ks = []
      | Some (l, k) \<Rightarrow> k \<in> set ks \<and> line_of ctx k = l \<and> (\<forall>j \<in> set ks. l \<le> line_of ctx j))"
proof (induction ks rule: rev_induct)
  case (snoc j ks)
  then obtain b where b: "map_of (AllBlocks ctx) j = Some b" by auto
  have step: "earliest_step ctx None j = Some (line_of ctx j, j)"
    "earliest_step ctx (Some (l, k)) j = (if line_of ctx j < l then Some (line_of ctx j, j) else Some (l, k))" for l k
    by (simp_all add: earliest_step_def line_of_def b)
  show ?case
  proof (cases "foldl (earliest_step ctx) None ks")
    case None
    with snoc show ?thesis by (simp add: step)
  next
    case (Some lk)
    obtain l k where "lk = (l, k)" by (cases lk)
    with Some snoc show ?thesis by (auto simp: step)
  qed
qed simp

lemma first_reader_index:
  "map_of (FirstReaderByVar (buildContext flow)) v = map_option (first_reader (buildContext flow)) (map_of (ReadersByVar (buildContext flow)) v)"
proof -
  have same: "first_reader (ctx\<lparr>FirstReaderByVar := m\<rparr>) = first_reader ctx" for ctx m
  proof -
    have "earliest_step (ctx\<lparr>FirstReaderByVar := m\<rparr>) = earliest_step ctx" by (intro ext) (simp add: earliest_step_def)
    then show ?thesis by (intro ext) (simp add: first_reader_def)
  qed
  show ?thesis by (simp add: buildContext_def Let_def same map_of_map)
qed

definition reads_var :: "FlowDocument \<Rightarrow> string \<Rightarrow> Block \<Rightarrow> bool" where
  "reads_var flow v b \<longleftrightarrow> b \<in> set (filter not_end (walkBlocks flow)) \<and> v \<in> set (bVariables (binfo b))"

lemma readers_set: "set (list_at (ReadersByVar (buildContext flow)) v) = (\<lambda>b. bID (binfo b)) ` {b. reads_var flow v b}"
  unfolding readers.indexed_set group_blocks_walk reads_var_def by auto

lemma first_usage:
  assumes "doc_ids_ok flow" "reads_var flow v x"
  shows "\<exists>y. reads_var flow v y \<and> (\<forall>z. reads_var flow v z \<longrightarrow> bLineNumber (binfo y) \<le> bLineNumber (binfo z)) \<and>
    (\<forall>z. reads_var flow v z \<longrightarrow> isFirstUsage v (binfo z) (buildContext flow) = (z = y))"
proof -
  let ?ctx = "buildContext flow" and ?ks = "list_at (ReadersByVar (buildContext flow)) v"
  have at: "map_of (AllBlocks ?ctx) (bID (binfo b)) = Some b" if "reads_var flow v b" for b
    using that by (simp add: reads_var_def block_iff [OF assms(1)])
  then have "set ?ks \<subseteq> dom (map_of (AllBlocks ?ctx))" unfolding readers_set by auto
  note run = earliest_run [OF this]
  have "?ks \<noteq> []" using readers_set [of flow v] assms(2) by auto
  with run obtain l k where lk: "foldl (earliest_step ?ctx) None ?ks = Some (l, k)" "k \<in> set ?ks" "line_of ?ctx k = l"
    "\<forall>j \<in> set ?ks. l \<le> line_of ?ctx j" by (auto split: option.splits)
  from lk(2) obtain y where y: "reads_var flow v y" "k = bID (binfo y)" unfolding readers_set by auto
  have "map_of (ReadersByVar ?ctx) v = Some ?ks" using \<open>?ks \<noteq> []\<close> by (auto simp: list_at_def split: option.splits)
  then have "map_of (FirstReaderByVar ?ctx) v = Some k" by (simp add: first_reader_index first_reader_def lk(1))
  then have "isFirstUsage v (binfo z) ?ctx = (z = y)" if "reads_var flow v z" for z
    using same_block [OF assms(1), of y z] y that by (auto simp: isFirstUsage_def reads_var_def)
  moreover have "bLineNumber (binfo y) \<le> bLineNumber (binfo z)" if "reads_var flow v z" for z
    using lk(3,4) y(2) at [OF y(1)] at [OF that] that unfolding readers_set by (auto simp: line_of_def)
  ultimately show ?thesis using y(1) by blast
qed

lemma assigned_iff: "isAssignedAnywhere v (buildContext flow) \<longleftrightarrow> (\<exists>b. writes_in flow b v)"
proof -
  have "isAssignedAnywhere v (buildContext flow) \<longleftrightarrow> set (list_at (WritersByVar (buildContext flow)) v) \<noteq> {}"
    by (simp add: isAssignedAnywhere_def)
  then show ?thesis unfolding writers.indexed_set group_blocks_walk writes_in_def by auto
qed

definition suspect_var :: "FlowDocument \<Rightarrow> string \<Rightarrow> bool" where
  "suspect_var flow v \<longleftrightarrow> \<not> hasPrefixFold v ''input_'' \<and> \<not> isSystemVariable v \<and>
     \<not> list_ex (\<lambda>b. not_end b \<and> v \<in> set (writes_of (binfo b))) (walkBlocks flow)"

definition reported_at :: "FlowDocument \<Rightarrow> string \<Rightarrow> Block \<Rightarrow> bool" where
  "reported_at flow v b \<longleftrightarrow> b \<in> set (filter not_end (walkBlocks flow)) \<and>
     (\<exists>fs. ruCheck UninitializedVariableRule (buildContext flow) b = Some fs \<and> uninitialized_finding b v \<in> set fs)"

lemma reported_iff: "reported_at flow v b \<longleftrightarrow> suspect_var flow v \<and> reads_var flow v b \<and> isFirstUsage v (binfo b) (buildContext flow)"
proof -
  have inj: "uninitialized_finding b v = uninitialized_finding b w \<longleftrightarrow> v = w" for w
    by (auto simp: uninitialized_finding_def dest: arg_cong [where f = fMetadata])
  have "suspect_var flow v \<longleftrightarrow> \<not> hasPrefixFold v ''input_'' \<and> \<not> isSystemVariable v \<and> \<not> isAssignedAnywhere v (buildContext flow)"
    unfolding assigned_iff by (auto simp: suspect_var_def writes_in_def list_ex_iff)
  then show ?thesis
    by (auto simp: reported_at_def reads_var_def UninitializedVariableRule_def block_rule_def uninitialized_check_def inj image_iff)
qed

text \<open>
  C24: an uninitialized variable is reported once. In a document with distinct identifiers a variable is
  reported at some block exactly when it is neither an input nor a system variable, no block assigns it and
  some block refers to it; then exactly one block reports it, and none that refers to it stands on an
  earlier line.
\<close>

theorem uninitialized_reported_once:
  assumes "doc_ids_ok flow"
  shows "if suspect_var flow v \<and> (\<exists>x. reads_var flow v x)
    then \<exists>y. reads_var flow v y \<and> (\<forall>z. reported_at flow v z \<longleftrightarrow> z = y) \<and>
      (\<forall>z. reads_var flow v z \<longrightarrow> bLineNumber (binfo y) \<le> bLineNumber (binfo z))
    else \<forall>z. \<not> reported_at flow v z"
proof (cases "suspect_var flow v \<and> (\<exists>x. reads_var flow v x)")
  case True
  then obtain x where x: "suspect_var flow v" "reads_var flow v x" by blast
  from first_usage [OF assms x(2)] obtain y where y: "reads_var flow v y"
    "\<forall>z. reads_var flow v z \<longrightarrow> bLineNumber (binfo y) \<le> bLineNumber (binfo z)"
    "\<forall>z. reads_var flow v z \<longrightarrow> isFirstUsage v (binfo z) (buildContext flow) = (z = y)" by blast
  then have "\<forall>z. reported_at flow v z \<longleftrightarrow> z = y" using x(1) unfolding reported_iff by blast
  with y True show ?thesis by auto
qed (auto simp: reported_iff)

definition typo_flow :: FlowDocument where
  "typo_flow = dead_data_flow\<lparr>Subflows := [(hd (Subflows dead_data_flow))\<lparr>sfBlocks :=
     [set_block ''a'' ''Total'' BlockTypeVariable ''SET'' [''Totl''], set_block ''r'' [] BlockTypeAction ''Display.ShowMessage'' [''Totl'', ''Total'']]\<rparr>]\<rparr>"

theorem uninitialized_reported_once_witness:
  "(\<exists>y. \<forall>z. reported_at typo_flow ''Totl'' z \<longleftrightarrow> z = y) \<and> (\<forall>z. \<not> reported_at typo_flow ''Total'' z)"
proof -
  have ok: "doc_ids_ok typo_flow" by code_simp
  have s: "suspect_var typo_flow ''Totl''" "\<not> suspect_var typo_flow ''Total''" by code_simp+
  have "reads_var typo_flow ''Totl'' (set_block ''a'' ''Total'' BlockTypeVariable ''SET'' [''Totl''])" by code_simp
  with uninitialized_reported_once [OF ok, of "''Totl''"] uninitialized_reported_once [OF ok, of "''Total''"] s show ?thesis
    by (auto split: if_splits)
qed

section \<open>Unused variables\<close>

definition unused_finding :: "Block \<Rightarrow> string \<Rightarrow> Finding" where
  "unused_finding blk v = (block_finding ''unused-variable'' SeverityInfo ''Variable declared but never used''
     ''This variable is set but never referenced elsewhere in the flow.''
     ''Remove the unused variable or add a reference to it.'' blk)\<lparr>fMetadata := [(''variable'', MetaString v)]\<rparr>"

definition unused_check :: "RuleContext \<Rightarrow> Block \<Rightarrow> Finding list" where
  "unused_check ctx blk =
     (if bType (binfo blk) \<noteq> BlockTypeVariable then []
      else
        (let declaredVar = outputVar (binfo blk) in
         if declaredVar = [] then []
         else if declaredVar \<in> set (buildUsedVariables ctx) then []
         else [unused_finding blk declaredVar]))"

definition UnusedVariableRule :: Rule where
  "UnusedVariableRule = block_rule ''unused-variable'' SeverityInfo ''Style'' unused_check"

text \<open>
  The used variables are the whole contents of percent expressions, so a variable inside a longer
  expression does not count: after \<open>SET Y TO 1\<close> and \<open>SET X TO %Y + 1%\<close> the rule reports \<open>Y\<close>, although the
  index of readers, built from the variables the parser extracts, lists the second block under it.
\<close>

definition expression_flow :: FlowDocument where
  "expression_flow = dead_data_flow\<lparr>Subflows := [(hd (Subflows dead_data_flow))\<lparr>sfBlocks :=
     [Block ((binfo (note_block BlockTypeVariable ''a'' ''a''))\<lparr>bProperties := [(''_var'', ''Y''), (''_value'', ''1'')]\<rparr>) [],
      Block ((binfo (note_block BlockTypeVariable ''b'' ''b''))\<lparr>bProperties := [(''_var'', ''X''), (''_value'', ''%Y + 1%'')],
        bVariables := [''Y'']\<rparr>) []]\<rparr>]\<rparr>"

theorem unused_misses_expressions:
  "map_option length (ruCheck UnusedVariableRule (buildContext expression_flow) (hd (walkBlocks expression_flow))) = Some 1 \<and>
   list_at (ReadersByVar (buildContext expression_flow)) ''Y'' = [''b'']"
  by code_simp

section \<open>Dangerous actions\<close>

definition isTaintedSourceVar :: "string \<Rightarrow> bool" where
  "isTaintedSourceVar varName \<longleftrightarrow> list_ex (HasPrefix varName) inputPrefixes"

definition tainted_sink_finding :: "string \<Rightarrow> Block \<Rightarrow> string \<Rightarrow> Finding" where
  "tainted_sink_finding sinkType blk v = (block_finding ''tainted-sink'' SeverityError ''Tainted data in dangerous sink''
     (''User-controlled variable %'' @ v @ '' flows directly into a '' @ sinkType
        @ '' sink without validation. A malicious value can inject commands, alter queries, or exfiltrate data.'')
     ''Validate/allow-list the input before passing it to this action, or use a parameterized API that separates code from data.'' blk)
     \<lparr>fMetadata := [(''variable'', MetaString v), (''sinkType'', MetaString sinkType)]\<rparr>"

definition tainted_sink_check :: "RuleContext \<Rightarrow> Block \<Rightarrow> Finding list" where
  "tainted_sink_check ctx blk =
     (let sinkType = findSink (bRawType (binfo blk)) in
      if sinkType = [] then []
      else (case find isTaintedSourceVar (bVariables (binfo blk)) of
          None \<Rightarrow> [] | Some v \<Rightarrow> [tainted_sink_finding sinkType blk v]))"

definition TaintedSinkRule :: Rule where
  "TaintedSinkRule = block_rule ''tainted-sink'' SeverityError ''Security'' tainted_sink_check"

text \<open>The rule speaks of commands and queries, which are not among the sinks it looks up.\<close>

theorem tainted_sink_no_sql: "findSink ''Database.ExecuteSQL'' = [] \<and> findSink ''System.RunDOSCommand'' = []"
  by code_simp

definition sep_opt :: rx where
  "sep_opt = Opt (Cls (\<lambda>c. c = CHR ''_'' \<or> c = CHR ''-''))"

definition sensitiveVarPattern :: rx where
  "sensitiveVarPattern = Grp 1 (alts [lit_ci ''password'', lit_ci ''passwd'', lit_ci ''pwd'', seqs [lit_ci ''api'', sep_opt, lit_ci ''key''],
     lit_ci ''token'', lit_ci ''secret'', lit_ci ''credential'', seqs [lit_ci ''auth'', sep_opt, lit_ci ''key''], lit_ci ''bearer'',
     seqs [lit_ci ''access'', sep_opt, lit_ci ''key''], seqs [lit_ci ''private'', sep_opt, lit_ci ''key'']])"

definition exposure_finding :: "string \<Rightarrow> Block \<Rightarrow> string \<Rightarrow> Finding" where
  "exposure_finding sink blk vname = (block_finding ''sensitive-exposure'' SeverityError (''Sensitive variable in '' @ sink @ '' action'')
     (''Variable '' @ quoted vname @ '' appears to hold sensitive data and is passed to a '' @ sink @ '' action, which could expose credentials.'')
     ''Avoid writing sensitive variables to files, logs, or displaying them. Use secure credential storage instead.'' blk)
     \<lparr>fMetadata := [(''variable'', MetaString vname), (''sink'', MetaString sink)]\<rparr>"

definition exposure_check :: "RuleContext \<Rightarrow> Block \<Rightarrow> Finding list" where
  "exposure_check ctx blk =
     (if bType (binfo blk) \<noteq> BlockTypeAction then []
      else
        (let sink = findSink (bRawType (binfo blk)) in
         if sink = [] then []
         else map (exposure_finding sink blk) (first_occurrences (filter (MatchString sensitiveVarPattern) (bVariables (binfo blk))))))"

definition SensitiveDataExposureRule :: Rule where
  "SensitiveDataExposureRule = block_rule ''sensitive-exposure'' SeverityError ''Security'' exposure_check"

definition commandActionPrefixes :: "string list" where
  "commandActionPrefixes = [''system.rundoscommand'', ''system.run'', ''cmd.'', ''scripting.'']"

definition command_finding :: "Block \<Rightarrow> Finding" where
  "command_finding = block_finding ''command-injection-risk'' SeverityError ''Command injection risk''
     ''A system command interpolates variables into the command line. A malicious value can chain additional shell commands.''
     ''Pass caller-supplied values as discrete command parameters (not concatenated into the command string) and validate/allow-list them before invocation.''"

definition command_check :: "RuleContext \<Rightarrow> Block \<Rightarrow> Finding list" where
  "command_check ctx blk =
     (if \<not> list_ex (HasPrefix (ToLower (bRawType (binfo blk)))) commandActionPrefixes then []
      else if list_ex (\<lambda>key. MatchString sqlVarRef (getprop (bProperties (binfo blk)) key)) (sortedPropertyKeys (bProperties (binfo blk)))
      then [command_finding blk] else [])"

definition CommandInjectionRiskRule :: Rule where
  "CommandInjectionRiskRule = block_rule ''command-injection-risk'' SeverityError ''Security'' command_check"

section \<open>Rules and their fixes\<close>

lemma find_all_nonempty: "FindAllStringSubmatchIndex r s \<noteq> [] \<longleftrightarrow> MatchString r s"
  by (simp add: FindAllStringSubmatchIndex_def MatchString_def FindStringSubmatch_def find_all.simps [of r s "start_state s"]
      split: option.split)

lemma first_occurrences_Nil [simp]: "first_occurrences xs = [] \<longleftrightarrow> xs = []"
  by (simp add: first_occurrences_def)

lemma FindAllString_Nil [simp]: "FindAllString r s = [] \<longleftrightarrow> \<not> MatchString r s"
  using find_all_nonempty [of r s] by (auto simp: FindAllString_def)

lemma sql_ref_nonempty: "\<not> MatchString sqlVarRef []"
  by code_simp

text \<open>The rules with the fix the catalog gives them.\<close>

definition fixed_rules :: "(dep_map \<Rightarrow> dep_map) \<Rightarrow> ((string \<times> Block) list \<Rightarrow> (string \<times> Block) list) \<Rightarrow> (Rule \<times> string) list" where
  "fixed_rules it1 it2 = [(SqlInjectionRiskRule it1, ''parameterize-sql''), (CommandInjectionRiskRule, ''sanitize-command-vars''),
     (ResourceLeakRule it2, ''insert-close'')]"

lemma sql_finding_fixable:
  assumes "f \<in> set (sql_check it ctx b)"
  shows "ParameterizeSqlPatch b (meta_string f ''property'') \<noteq> []"
proof -
  from assms obtain key where k: "find (sql_key (binfo b)) (sortedPropertyKeys (bProperties (binfo b))) = Some key"
    "f = sql_finding (buildTaintedVars it ctx) b key (sql_refs (binfo b) key)"
    by (cases "find (sql_key (binfo b)) (sortedPropertyKeys (bProperties (binfo b)))") (auto simp: sql_check_def split: if_splits)
  then have "sql_key (binfo b) key" by (auto simp: find_Some_iff)
  then have m: "MatchString sqlVarRef (getprop (bProperties (binfo b)) key)" "key \<noteq> []"
    using find_all_nonempty [of sqlVarRef "getprop (bProperties (binfo b)) key"] by (auto simp: sql_key_def sql_refs_def)
  then have "getprop (bProperties (binfo b)) key \<noteq> []" using sql_ref_nonempty by metis
  moreover have "meta_string f ''property'' = key" by (simp add: k(2) sql_finding_def Let_def meta_string_def)
  ultimately show ?thesis using m by (simp add: ParameterizeSqlPatch_def Let_def)
qed

text \<open>
  C25: a rule and its fix agree. Every finding of the SQL, command and resource rules carries what its fix
  needs: the patch the dispatcher builds from the finding is never empty.
\<close>

theorem findings_have_fixes:
  assumes "(R, fix) \<in> set (fixed_rules it1 it2)" "ruCheck R ctx b = Some fs" "f \<in> set fs"
  shows "\<exists>p. PatchForFix b fix (fRuleID f) (meta_string f ''variable'') (meta_string f ''property'') = Some p \<and> p \<noteq> []"
proof -
  have reg: "map_of fixRegistry ''parameterize-sql'' = Some \<lparr>fsBuild = (\<lambda>i. ParameterizeSqlPatch (fiBlock i) (fiProperty i)), fsFlags = [FixUsesProperty]\<rparr>"
    "map_of fixRegistry ''sanitize-command-vars'' = Some (blockFix SanitizeCommandVarsPatch [FixBehaviourChanging])"
    "map_of fixRegistry ''insert-close'' = Some (blockFix InsertClosePatch [])"
    by (simp_all add: fixRegistry_def)
  from assms(1) consider "R = SqlInjectionRiskRule it1" "fix = ''parameterize-sql''"
    | "R = CommandInjectionRiskRule" "fix = ''sanitize-command-vars''" | "R = ResourceLeakRule it2" "fix = ''insert-close''"
    by (auto simp: fixed_rules_def)
  then show ?thesis
  proof cases
    case 1
    with assms(2,3) have "f \<in> set (sql_check it1 ctx b)" by (simp add: SqlInjectionRiskRule_def block_rule_def)
    from sql_finding_fixable [OF this] 1 show ?thesis by (simp add: PatchForFix_def reg)
  next
    case 2
    with assms(2,3) have "f \<in> set (command_check ctx b)" by (simp add: CommandInjectionRiskRule_def block_rule_def)
    then have "list_ex (\<lambda>key. MatchString sqlVarRef (getprop (bProperties (binfo b)) key)) (sortedPropertyKeys (bProperties (binfo b)))"
      by (auto simp: command_check_def split: if_splits)
    then have "SanitizeCommandVarsPatch b \<noteq> []" by (auto simp: SanitizeCommandVarsPatch_def Let_def list_ex_iff)
    with 2 show ?thesis by (simp add: PatchForFix_def reg blockFix_def)
  next
    case 3
    with assms(2,3) have "f \<in> set (leak_check it2 ctx b)" by (simp add: ResourceLeakRule_def block_rule_def)
    then have "InsertClosePatch b \<noteq> []"
      by (cases "matchResourcePair (bRawType (binfo b))") (auto simp: leak_check_def InsertClosePatch_def Let_def split: if_splits)
    with 3 show ?thesis by (simp add: PatchForFix_def reg blockFix_def)
  qed
qed

theorem findings_have_fixes_witness:
  "let b = taint_block ''c'' ''System.RunDOSCommand'' [(''DOSCommandOrApplication'', ''dir %Path%'')] in
   \<exists>p. PatchForFix b ''sanitize-command-vars'' ''command-injection-risk'' [] [] = Some p \<and> p \<noteq> []"
proof -
  let ?b = "taint_block ''c'' ''System.RunDOSCommand'' [(''DOSCommandOrApplication'', ''dir %Path%'')]"
  have r: "(CommandInjectionRiskRule, ''sanitize-command-vars'') \<in> set (fixed_rules rev rev)" by (simp add: fixed_rules_def)
  have "command_check (buildContext leak_flow) ?b = [command_finding ?b]" by code_simp
  then have c: "ruCheck CommandInjectionRiskRule (buildContext leak_flow) ?b = Some [command_finding ?b]"
    by (simp add: CommandInjectionRiskRule_def block_rule_def)
  have m: "fRuleID (command_finding ?b) = ''command-injection-risk''" "meta_string (command_finding ?b) ''variable'' = []"
    "meta_string (command_finding ?b) ''property'' = []" by code_simp+
  from findings_have_fixes [OF r c, of "command_finding ?b", unfolded m] show ?thesis by (simp add: Let_def)
qed

end
