(* ===== verification/Goto_Rule.thy ===== *)
theory Goto_Rule
  imports Ancestors
begin

text \<open>
  rule_goto_antipattern.go: jumps that leave or enter a loop, condition, switch or handler. The walk to the
  root, \<open>ancestorSet\<close>, has no guard against cycles; not returning is the value \<open>None\<close>, and it returns for
  every document whose identifiers never repeat.
\<close>

section \<open>The rule\<close>

definition CutPrefix :: "string \<Rightarrow> string \<Rightarrow> string option" where
  "CutPrefix s p = (if HasPrefix s p then Some (drop (length p) s) else None)"

definition label_token :: "BlockToken \<Rightarrow> string option" where
  "label_token t =
     (if btType t \<noteq> ''label'' then None
      else if btTarget t \<noteq> [] then Some (btTarget t) else if btValue t \<noteq> [] then Some (btValue t) else None)"

definition extractGotoTarget :: "block_info \<Rightarrow> string" where
  "extractGotoTarget b =
     (case find (\<lambda>k. getprop (bProperties b) k \<noteq> []) [''_target'', ''labelName'', ''target''] of
        Some k \<Rightarrow> getprop (bProperties b) k
      | None \<Rightarrow>
          (case CutPrefix (bName b) ''Goto '' of
             Some after \<Rightarrow> TrimSpace after
           | None \<Rightarrow>
               (case CutPrefix (bName b) ''Go to '' of
                  Some after \<Rightarrow> TrimSpace after
                | None \<Rightarrow>
                    (case List.map_filter label_token (bTokens b) of t # _ \<Rightarrow> t | [] \<Rightarrow> TrimSpace (bName b)))))"

partial_function (option) ancestor_walk :: "RuleContext \<Rightarrow> string \<Rightarrow> string list \<Rightarrow> string list option" where
  "ancestor_walk ctx cur found =
     (case map_of (ParentMap ctx) cur of
        None \<Rightarrow> Some found
      | Some pid \<Rightarrow> ancestor_walk ctx pid (pid # found))"

declare ancestor_walk.simps [code]

definition ancestorSet :: "string \<Rightarrow> RuleContext \<Rightarrow> string list option" where
  "ancestorSet blockID ctx = ancestor_walk ctx blockID []"

definition isScopeContainer :: "Block \<Rightarrow> bool" where
  "isScopeContainer b \<longleftrightarrow> bType (binfo b) \<in> {BlockTypeLoop, BlockTypeCondition, BlockTypeSwitch, BlockTypeErrorHandler}"

definition container_in :: "RuleContext \<Rightarrow> string list \<Rightarrow> string list \<Rightarrow> bool" where
  "container_in ctx as bs \<longleftrightarrow>
     list_ex (\<lambda>a. a \<notin> set bs \<and> (case map_of (AllBlocks ctx) a of None \<Rightarrow> False | Some p \<Rightarrow> isScopeContainer p)) as"

definition string_at :: "(string \<times> string) list \<Rightarrow> string \<Rightarrow> string" where
  "string_at m k = (case map_of m k of None \<Rightarrow> [] | Some v \<Rightarrow> v)"

definition isScopeBreakingGoto :: "block_info \<Rightarrow> string \<Rightarrow> RuleContext \<Rightarrow> bool option" where
  "isScopeBreakingGoto gotoBlock targetLabel ctx =
     (case map_of (byName (buildLabelIndex ctx)) (ToLower targetLabel) of
        None \<Rightarrow> Some False
      | Some labelBlock \<Rightarrow>
          (let g = bID gotoBlock; l = bID (binfo labelBlock) in
           if nat_at (BlockDepth ctx) l \<noteq> nat_at (BlockDepth ctx) g then Some True
           else if string_at (ParentMap ctx) g \<noteq> string_at (ParentMap ctx) l then
             Option.bind (ancestorSet g ctx) (\<lambda>gotoAncestors.
               map_option (\<lambda>labelAncestors.
                   container_in ctx gotoAncestors labelAncestors \<or> container_in ctx labelAncestors gotoAncestors)
                 (ancestorSet l ctx))
           else Some False))"

definition goto_finding :: "string \<Rightarrow> Block \<Rightarrow> Finding" where
  "goto_finding targetLabel blk = (block_finding ''goto-antipattern'' SeverityWarning ''GOTO breaks scope boundary''
     ''This GOTO jumps to a label outside its current scope (across loop/condition/switch boundaries), which creates fragile and hard-to-maintain control flow.''
     ''Restructure the flow to avoid cross-scope GOTO. Use Exit Loop, flags, or extract logic into subflows instead.'' blk)
     \<lparr>fMetadata := [(''targetLabel'', MetaString targetLabel)]\<rparr>"

definition goto_check :: "RuleContext \<Rightarrow> Block \<Rightarrow> Finding list option" where
  "goto_check ctx blk =
     (if bRawType (binfo blk) \<noteq> ''GOTO'' then Some []
      else
        (let targetLabel = extractGotoTarget (binfo blk) in
         if targetLabel = [] then Some []
         else map_option (\<lambda>breaks. if breaks then [goto_finding targetLabel blk] else [])
                (isScopeBreakingGoto (binfo blk) targetLabel ctx)))"

section \<open>The walk to the root\<close>

definition parent_edges :: "RuleContext \<Rightarrow> (string \<times> string) set" where
  "parent_edges ctx = {(k, p). map_of (ParentMap ctx) k = Some p}"

text \<open>A block that is not an END marker, and the block it is a child of.\<close>

definition child_edges :: "FlowDocument \<Rightarrow> (string \<times> string) set" where
  "child_edges flow = {(bID (binfo c), bID (binfo x)) |c x. x \<in> set (walkBlocks flow) \<and> c \<in> set (Children x) \<and> not_end c}"

lemma parent_edges_tree:
  assumes "doc_ids_ok flow"
  shows "parent_edges (buildContext flow) = child_edges flow"
proof (intro set_eqI iffI)
  fix e assume "e \<in> parent_edges (buildContext flow)"
  then obtain g c where g: "g \<in> set (doc_groups flow)" "fst g \<noteq> []" "c \<in> set (group_ptrs g)" "e = (bID (binfo c), fst g)"
    by (auto simp: parent_edges_def parent_iff [OF assms])
  from group_parent [OF g(1,2)] obtain x where "x \<in> set (walkBlocks flow)" "bID (binfo x) = fst g" "Children x = group_blocks g" by blast
  with g(3,4) show "e \<in> child_edges flow" unfolding child_edges_def group_ptrs_blocks set_filter mem_Collect_eq by metis
next
  fix e assume "e \<in> child_edges flow"
  then obtain c x where x: "x \<in> set (walkBlocks flow)" "c \<in> set (Children x)" "not_end c" "e = (bID (binfo c), bID (binfo x))"
    by (auto simp: child_edges_def)
  then have "Children x \<noteq> []" by auto
  from parent_group [OF x(1) this] obtain g where "g \<in> set (doc_groups flow)" "fst g = bID (binfo x)" "group_blocks g = Children x" by blast
  with x doc_ids_nonempty [OF assms x(1)] show "e \<in> parent_edges (buildContext flow)"
    by (auto simp: parent_edges_def parent_iff [OF assms] group_ptrs_blocks intro!: bexI [of _ g])
qed

lemma preorder_child: "x \<in> set (preorder b) \<Longrightarrow> c \<in> set (Children x) \<Longrightarrow> c \<in> set (preorder b)"
proof (induction b)
  case (Block b cs)
  show ?case
  proof (cases "x = Block b cs")
    case True
    with Block.prems(2) have "c \<in> set cs" by simp
    moreover have "c \<in> set (preorder c)" by (cases c) simp
    ultimately show ?thesis by auto
  next
    case False
    with Block show ?thesis by auto
  qed
qed

lemma walk_child: "x \<in> set (walkBlocks flow) \<Longrightarrow> c \<in> set (Children x) \<Longrightarrow> c \<in> set (walkBlocks flow)"
  by (auto simp: walkBlocks_def doc_blocks_def forest_blocks_def dest: preorder_child)

text \<open>The size of a child is less than that of its parent, so the edges are well founded upwards.\<close>

lemma parent_edges_wf:
  assumes "doc_ids_ok flow"
  shows "wf ((parent_edges (buildContext flow))\<inverse>)"
proof (rule wf_subset)
  let ?size = "\<lambda>k. Max (size ` {b \<in> set (walkBlocks flow). bID (binfo b) = k})"
  have size: "?size (bID (binfo x)) = size x" if "x \<in> set (walkBlocks flow)" for x
  proof -
    have "{b \<in> set (walkBlocks flow). bID (binfo b) = bID (binfo x)} = {x}" using that same_block [OF assms] by auto
    then show ?thesis by simp
  qed
  let ?bound = "Max (size ` set (walkBlocks flow))"
  show "(parent_edges (buildContext flow))\<inverse> \<subseteq> measure (\<lambda>k. ?bound - ?size k)"
  proof
    fix e assume "e \<in> (parent_edges (buildContext flow))\<inverse>"
    then obtain c x where x: "x \<in> set (walkBlocks flow)" "c \<in> set (Children x)" "not_end c" "e = (bID (binfo x), bID (binfo c))"
      unfolding parent_edges_tree [OF assms] by (auto simp: child_edges_def)
    then have "c \<in> set (walkBlocks flow)" by (simp add: walk_child)
    moreover have "size c < ?bound"
    proof -
      have "size x \<le> ?bound" using x(1) by simp
      with size_child [OF x(2)] show ?thesis by (rule less_le_trans)
    qed
    ultimately show "e \<in> measure (\<lambda>k. ?bound - ?size k)" using x size size_child [OF x(2)] by (simp add: diff_less_mono2)
  qed
qed simp

lemma ancestor_walk_returns:
  assumes "doc_ids_ok flow"
  shows "\<exists>as. ancestor_walk (buildContext flow) k found = Some as \<and> set as = set found \<union> (child_edges flow)\<^sup>+ `` {k}"
proof (induction k arbitrary: found rule: wf_induct_rule [OF parent_edges_wf [OF assms]])
  case (1 k)
  let ?ctx = "buildContext flow"
  have edge: "child_edges flow `` {k} = set_option (map_of (ParentMap ?ctx) k)"
    unfolding parent_edges_tree [OF assms, symmetric] by (auto simp: parent_edges_def)
  have step: "(child_edges flow)\<^sup>+ `` {k} = (child_edges flow)\<^sup>* `` set_option (map_of (ParentMap ?ctx) k)"
    unfolding trancl_unfold_left relcomp_Image edge ..
  show ?case
  proof (cases "map_of (ParentMap ?ctx) k")
    case None
    then have "ancestor_walk ?ctx k found = Some found" by (subst ancestor_walk.simps) simp
    with None step show ?thesis by simp
  next
    case (Some p)
    then have "(p, k) \<in> (parent_edges ?ctx)\<inverse>" by (simp add: parent_edges_def)
    from 1 [OF this, of "p # found"] obtain as where
      as: "ancestor_walk ?ctx p (p # found) = Some as" "set as = set (p # found) \<union> (child_edges flow)\<^sup>+ `` {p}" by blast
    have "ancestor_walk ?ctx k found = Some as" by (subst ancestor_walk.simps) (simp add: Some as(1))
    moreover have "(child_edges flow)\<^sup>* `` {p} = insert p ((child_edges flow)\<^sup>+ `` {p})" by (auto simp: rtrancl_eq_or_trancl)
    ultimately show ?thesis using as(2) step Some by auto
  qed
qed

section \<open>Which jumps are reported\<close>

text \<open>An ancestor of \<open>k\<close> that is a container.\<close>

definition scopes :: "FlowDocument \<Rightarrow> string \<Rightarrow> string set" where
  "scopes flow k = {p. (k, p) \<in> (child_edges flow)\<^sup>+ \<and>
     (\<exists>x. x \<in> set (walkBlocks flow) \<and> not_end x \<and> bID (binfo x) = p \<and> isScopeContainer x)}"

lemma container_in_scopes:
  assumes "doc_ids_ok flow" "set as = (child_edges flow)\<^sup>+ `` {k}" "set bs = (child_edges flow)\<^sup>+ `` {l}"
  shows "container_in (buildContext flow) as bs \<longleftrightarrow> scopes flow k - scopes flow l \<noteq> {}"
proof -
  have "(case map_of (AllBlocks (buildContext flow)) a of None \<Rightarrow> False | Some p \<Rightarrow> isScopeContainer p) \<longleftrightarrow>
      (\<exists>x. x \<in> set (walkBlocks flow) \<and> not_end x \<and> bID (binfo x) = a \<and> isScopeContainer x)" for a
  proof (cases "map_of (AllBlocks (buildContext flow)) a")
    case None
    then show ?thesis using block_iff [OF assms(1), of a] by auto
  next
    case (Some p)
    then have "p \<in> set (walkBlocks flow)" "not_end p" "bID (binfo p) = a" using block_iff [OF assms(1), of a p] by auto
    with Some show ?thesis using same_block [OF assms(1)] by auto
  qed
  then show ?thesis using assms(2,3) by (auto simp: container_in_def list_ex_iff scopes_def)
qed

lemma scopes_same_parent:
  assumes ok: "doc_ids_ok flow"
    and eq: "string_at (ParentMap (buildContext flow)) k = string_at (ParentMap (buildContext flow)) l"
  shows "scopes flow k = scopes flow l"
proof -
  have "map_of (ParentMap (buildContext flow)) k \<noteq> Some []" for k using parent_iff [OF ok, of k "[]"] by simp
  with eq have "map_of (ParentMap (buildContext flow)) k = map_of (ParentMap (buildContext flow)) l"
    by (auto simp: string_at_def split: option.splits)
  then have "child_edges flow `` {k} = child_edges flow `` {l}"
    unfolding parent_edges_tree [OF ok, symmetric] by (auto simp: parent_edges_def)
  then have "(child_edges flow)\<^sup>+ `` {k} = (child_edges flow)\<^sup>+ `` {l}" unfolding trancl_unfold_left relcomp_Image by simp
  then show ?thesis by (auto simp: scopes_def)
qed

text \<open>
  C26: the GOTO rule returns, and is exact. In a document with distinct identifiers the walk to the root
  always ends, and a GOTO is reported exactly when its label exists and the two differ in depth or in the
  loops, conditions, switches and handlers around them; the comparison of the parents before the walk only
  saves work.
\<close>

theorem goto_scope_exact:
  assumes "doc_ids_ok flow"
  shows "goto_check (buildContext flow) b =
    (let target = extractGotoTarget (binfo b); g = bID (binfo b); depth = nat_at (BlockDepth (buildContext flow)) in
     Some (if bRawType (binfo b) = ''GOTO'' \<and> target \<noteq> [] \<and>
         (case find (\<lambda>x. bRawType (binfo x) = ''LABEL'' \<and> ToLower (bName (binfo x)) = ToLower target) (walkBlocks flow) of
            None \<Rightarrow> False
          | Some l \<Rightarrow> depth (bID (binfo l)) \<noteq> depth g \<or> scopes flow (bID (binfo l)) \<noteq> scopes flow g)
       then [goto_finding target b] else []))"
proof -
  let ?ctx = "buildContext flow"
  have set: "\<exists>as. ancestorSet k ?ctx = Some as \<and> set as = (child_edges flow)\<^sup>+ `` {k}" for k
    using ancestor_walk_returns [OF assms, of k "[]"] by (simp add: ancestorSet_def)
  have walk: "Option.bind (ancestorSet g ?ctx) (\<lambda>as. map_option (\<lambda>bs. container_in ?ctx as bs \<or> container_in ?ctx bs as) (ancestorSet l ?ctx)) =
      Some (scopes flow l \<noteq> scopes flow g)" for g l
  proof -
    obtain as bs where "ancestorSet g ?ctx = Some as" "set as = (child_edges flow)\<^sup>+ `` {g}"
      "ancestorSet l ?ctx = Some bs" "set bs = (child_edges flow)\<^sup>+ `` {l}" using set [of g] set [of l] by blast
    then show ?thesis using container_in_scopes [OF assms] by auto
  qed
  have label_by_name: "map_of (byName (buildLabelIndex ?ctx)) key =
      find (\<lambda>x. bRawType (binfo x) = ''LABEL'' \<and> ToLower (bName (binfo x)) = key) (walkBlocks flow)" for key
    by (simp add: buildLabelIndex_def label_index)
  have "isScopeBreakingGoto (binfo b) target ?ctx = Some
      (case find (\<lambda>x. bRawType (binfo x) = ''LABEL'' \<and> ToLower (bName (binfo x)) = ToLower target) (walkBlocks flow) of
         None \<Rightarrow> False
       | Some l \<Rightarrow> nat_at (BlockDepth ?ctx) (bID (binfo l)) \<noteq> nat_at (BlockDepth ?ctx) (bID (binfo b)) \<or>
           scopes flow (bID (binfo l)) \<noteq> scopes flow (bID (binfo b)))" for target
  proof (cases "find (\<lambda>x. bRawType (binfo x) = ''LABEL'' \<and> ToLower (bName (binfo x)) = ToLower target) (walkBlocks flow)")
    case None
    then show ?thesis unfolding isScopeBreakingGoto_def label_by_name by simp
  next
    case (Some l)
    then show ?thesis unfolding isScopeBreakingGoto_def label_by_name Some option.case Let_def walk
      using scopes_same_parent [OF assms, of "bID (binfo b)" "bID (binfo l)"] by simp
  qed
  then show ?thesis by (simp add: goto_check_def Let_def)
qed

definition jump :: "string \<Rightarrow> Block" where
  "jump i = Block ((binfo (note_block BlockTypeAction i ''Out''))\<lparr>bRawType := ''GOTO'', bName := ''Goto Out''\<rparr>) []"

definition jump_label :: "string \<Rightarrow> Block" where
  "jump_label i = Block ((binfo (note_block BlockTypeAction i ''Out''))\<lparr>bRawType := ''LABEL'', bName := ''out''\<rparr>) []"

definition jump_flow :: FlowDocument where
  "jump_flow = handled_flow\<lparr>Subflows := [(hd (Subflows handled_flow))\<lparr>sfBlocks :=
     [typed_block ''l'' BlockTypeLoop ''LOOP'' [jump ''g''], typed_block ''b'' BlockTypeBlock ''BLOCK'' [jump ''h''],
      typed_block ''c'' BlockTypeBlock ''BLOCK'' [jump_label ''x'']]\<rparr>]\<rparr>"

theorem goto_scope_exact_witness:
  "scopes jump_flow ''x'' \<noteq> scopes jump_flow ''g'' \<and> scopes jump_flow ''x'' = scopes jump_flow ''h''"
proof -
  have ok: "doc_ids_ok jump_flow" by code_simp
  have walk: "walkBlocks jump_flow = [typed_block ''l'' BlockTypeLoop ''LOOP'' [jump ''g''], jump ''g'', typed_block ''b'' BlockTypeBlock ''BLOCK'' [jump ''h''],
      jump ''h'', typed_block ''c'' BlockTypeBlock ''BLOCK'' [jump_label ''x''], jump_label ''x'']" by code_simp
  have f: "find (\<lambda>y. bRawType (binfo y) = ''LABEL'' \<and> ToLower (bName (binfo y)) = ToLower ''Out'') (walkBlocks jump_flow) = Some (jump_label ''x'')"
    by code_simp
  have i: "extractGotoTarget (binfo (jump ''g'')) = ''Out''" "extractGotoTarget (binfo (jump ''h'')) = ''Out''"
    "bRawType (binfo (jump ''g'')) = ''GOTO''" "bRawType (binfo (jump ''h'')) = ''GOTO''"
    "bID (binfo (jump ''g'')) = ''g''" "bID (binfo (jump ''h'')) = ''h''" "bID (binfo (jump_label ''x'')) = ''x''" by code_simp+
  have d: "nat_at (BlockDepth (buildContext jump_flow)) ''g'' = 1" "nat_at (BlockDepth (buildContext jump_flow)) ''h'' = 1"
    "nat_at (BlockDepth (buildContext jump_flow)) ''x'' = 1" by code_simp+
  have c: "goto_check (buildContext jump_flow) (jump ''g'') = Some [goto_finding ''Out'' (jump ''g'')]"
    "goto_check (buildContext jump_flow) (jump ''h'') = Some []" by code_simp+
  from goto_scope_exact [OF ok, of "jump ''g''"] goto_scope_exact [OF ok, of "jump ''h''"] show ?thesis
    unfolding c Let_def i f option.case d by (auto split: if_splits)
qed

text \<open>
  Without distinct identifiers the walk may not end: for a block whose child carries its identifier, it
  never returns.
\<close>

definition self_parent_flow :: FlowDocument where
  "self_parent_flow = handled_flow\<lparr>Subflows := [(hd (Subflows handled_flow))\<lparr>sfBlocks :=
     [typed_block ''l'' BlockTypeLoop ''LOOP'' [jump ''l'']]\<rparr>]\<rparr>"

theorem ancestor_walk_may_loop: "ancestorSet ''l'' (buildContext self_parent_flow) = None"
proof -
  have p: "map_of (ParentMap (buildContext self_parent_flow)) ''l'' = Some ''l''" by code_simp
  have "ancestor_walk ctx k found = Some as \<Longrightarrow> map_of (ParentMap ctx) k \<noteq> Some k" for ctx k found as
    by (erule ancestor_walk.raw_induct [rotated]) (fastforce split: option.splits)
  with p show ?thesis unfolding ancestorSet_def by (metis not_None_eq)
qed

end
