(* ===== verification/Block_Rules.thy ===== *)
theory Block_Rules
  imports Variable_Rules Goto_Rule
begin

text \<open>
  Further rules of core/analyzer: those with thresholds read from the settings (rule_option.go,
  rule_deep_nesting.go, rule_wide_loop.go, rule_duplicate_action.go), those that look at neighbouring
  blocks (rule_missing_delay.go, rule_redundant_action.go) and those on the text of a single block or
  subflow. The settings are an argument of the rules that read them.
\<close>

section \<open>Thresholds\<close>

record OptionSpec =
  osKey :: string
  osDefault :: int
  osMin :: int

definition opt_int :: "optValue \<Rightarrow> int option" where
  "opt_int v = (case v of OptInt n \<Rightarrow> Some n | OptFloat n \<Rightarrow> Some n | OptNumber r \<Rightarrow> r | OptOther \<Rightarrow> None)"

definition ruleOption :: "AppSettings \<Rightarrow> string \<Rightarrow> OptionSpec \<Rightarrow> int" where
  "ruleOption settings ruleID spec =
     (case Option.bind settings (\<lambda>rules. Option.bind (map_of rules ruleID) (\<lambda>rc. Option.bind (map_of (rcOptions rc) (osKey spec)) opt_int)) of
        None \<Rightarrow> osDefault spec
      | Some n \<Rightarrow> if n < osMin spec then osDefault spec else n)"

definition deepNestingMaxDepth :: OptionSpec where
  "deepNestingMaxDepth = \<lparr>osKey = ''maxDepth'', osDefault = 6, osMin = 1\<rparr>"

definition deep_nesting_finding :: "Block \<Rightarrow> Finding" where
  "deep_nesting_finding blk = (block_finding ''deep-nesting'' SeverityInfo ''Deeply nested logic''
     ''This block is nested beyond the recommended depth, which reduces readability.''
     ''Consider extracting nested logic into a subflow to improve readability and maintainability.'' blk)
     \<lparr>fMetadata := [(''depth'', MetaOther), (''maxDepth'', MetaOther)]\<rparr>"

definition DeepNestingRule :: "AppSettings \<Rightarrow> Rule" where
  "DeepNestingRule settings = block_rule ''deep-nesting'' SeverityInfo ''Style'' (\<lambda>ctx blk.
     if int (nat_at (BlockDepth ctx) (bID (binfo blk))) \<le> ruleOption settings ''deep-nesting'' deepNestingMaxDepth then []
     else [deep_nesting_finding blk])"

definition wideLoopMaxBlocks :: OptionSpec where
  "wideLoopMaxBlocks = \<lparr>osKey = ''maxBlocks'', osDefault = 20, osMin = 1\<rparr>"

definition wide_loop_finding :: "Block \<Rightarrow> Finding" where
  "wide_loop_finding blk = (block_finding ''wide-loop'' SeverityInfo ''Loop body is too large''
     ''This loop contains blocks that should be extracted into subflows for better readability and maintainability.''
     ''Extract part of the loop body into a separate subflow. Aim for loops with fewer action blocks inside.'' blk)
     \<lparr>fMetadata := [(''blockCount'', MetaOther), (''maxBlocks'', MetaOther)]\<rparr>"

definition wide_loop_check :: "AppSettings \<Rightarrow> RuleContext \<Rightarrow> Block \<Rightarrow> Finding list" where
  "wide_loop_check settings ctx blk =
     (if bType (binfo blk) \<noteq> BlockTypeLoop then []
      else if int (nat_at (DescendantCount ctx) (bID (binfo blk))) \<le> ruleOption settings ''wide-loop'' wideLoopMaxBlocks then []
      else [wide_loop_finding blk])"

definition WideLoopRule :: "AppSettings \<Rightarrow> Rule" where
  "WideLoopRule settings = block_rule ''wide-loop'' SeverityInfo ''Style'' (wide_loop_check settings)"

subsection \<open>Descendant counts\<close>

definition countable_block :: "Block \<Rightarrow> bool" where
  "countable_block b \<longleftrightarrow> bType (binfo b) \<noteq> BlockTypeEnd \<and> bType (binfo b) \<noteq> BlockTypeComment"

definition body_count :: "Block list \<Rightarrow> nat" where
  "body_count bs = length (filter countable_block (forest_blocks bs))"

text \<open>What the recursion credits, in the order it does.\<close>

primrec tree_credits :: "Block \<Rightarrow> (string \<times> nat) list" where
  "tree_credits (Block b cs) = (if cs = [] then [] else concat (map tree_credits cs) @ [(bID b, body_count cs)])"

definition credits :: "Block list \<Rightarrow> (string \<times> nat) list" where
  "credits bs = concat (map tree_credits bs)"

definition credit_of :: "Block \<Rightarrow> string \<times> nat" where
  "credit_of x = (bID (binfo x), body_count (Children x))"

definition parents_in :: "Block list \<Rightarrow> Block list" where
  "parents_in bs = filter (\<lambda>x. Children x \<noteq> []) (forest_blocks bs)"

lemma credits_step:
  assumes "\<And>c. c \<in> set cs \<Longrightarrow> mset (tree_credits c) = mset (map credit_of (filter (\<lambda>x. Children x \<noteq> []) (preorder c)))"
  shows "mset (concat (map tree_credits cs)) = mset (map credit_of (filter (\<lambda>x. Children x \<noteq> []) (concat (map preorder cs))))"
  using assms by (induction cs) simp_all

lemma tree_credits_mset: "mset (tree_credits b) = mset (map credit_of (filter (\<lambda>x. Children x \<noteq> []) (preorder b)))"
proof (induction b)
  case (Block b cs)
  have "credit_of (Block b cs) = (bID b, body_count cs)" by (simp add: credit_of_def)
  with credits_step [OF Block] show ?case by simp
qed

lemma credits_mset: "mset (credits bs) = mset (map credit_of (parents_in bs))"
  by (induction bs) (simp_all add: credits_def parents_in_def tree_credits_mset)

lemma credits_simps [simp]:
  "credits [] = []" "credits (Block b cs # bs) = (if cs = [] then [] else credits cs @ [(bID b, body_count cs)]) @ credits bs"
  by (simp_all add: credits_def)

lemma credits_keys:
  assumes "distinct (block_ids (forest_blocks bs))"
  shows "distinct (map fst (credits bs))" "fst ` set (credits bs) \<subseteq> set (block_ids (forest_blocks bs))"
    and "x \<in> set (forest_blocks bs) \<Longrightarrow> nat_at (credits bs) (bID (binfo x)) = body_count (Children x)"
proof -
  have m: "mset (map fst (credits bs)) = mset (block_ids (parents_in bs))"
    using arg_cong [OF credits_mset, of "image_mset fst" bs] 
    by (simp add: block_ids_def credit_of_def comp_def image_mset.compositionality)
  have "mset (block_ids (parents_in bs)) \<subseteq># mset (block_ids (forest_blocks bs))"
    by (simp add: block_ids_def parents_in_def image_mset_subseteq_mono)
  with m have sub: "mset (map fst (credits bs)) \<subseteq># mset (block_ids (forest_blocks bs))" by simp
  from distinct_submset [OF this assms] show d: "distinct (map fst (credits bs))" .
  show "fst ` set (credits bs) \<subseteq> set (block_ids (forest_blocks bs))" using set_mset_mono [OF sub] by simp
  assume x: "x \<in> set (forest_blocks bs)"
  have set: "set (credits bs) = credit_of ` set (parents_in bs)" using credits_mset [of bs] by (metis set_map set_mset_mset)
  show "nat_at (credits bs) (bID (binfo x)) = body_count (Children x)"
  proof (cases "Children x = []")
    case True
    have "bID (binfo x) \<notin> fst ` set (credits bs)"
    proof
      assume "bID (binfo x) \<in> fst ` set (credits bs)"
      then obtain y where "y \<in> set (forest_blocks bs)" "Children y \<noteq> []" "bID (binfo y) = bID (binfo x)"
        by (auto simp: set credit_of_def parents_in_def)
      with assms x True show False by (auto simp: block_ids_def distinct_map inj_on_def)
    qed
    then have "map_of (credits bs) (bID (binfo x)) = None" by (simp add: map_of_eq_None_iff)
    with True show ?thesis by (simp add: nat_at_def body_count_def)
  next
    case False
    with x have "credit_of x \<in> set (credits bs)" by (simp add: set parents_in_def)
    with d show ?thesis by (simp add: nat_at_def credit_of_def map_of_is_SomeI)
  qed
qed

lemma index_group_counts: "DescendantCount (index_group ctx bs p sf d) = DescendantCount ctx"
proof -
  have "DescendantCount (foldl (index_block p k d) ctx xs) = DescendantCount ctx" for p k xs
    by (induction xs arbitrary: ctx) (auto simp: index_block_def Let_def)
  then show ?thesis by (simp add: index_group_def Let_def split: option.split)
qed

lemma body_count_sum: "body_count bs = sum_list (map (\<lambda>b. (if countable_block b then 1 else 0) + body_count (Children b)) bs)"
  by (induction bs) (simp_all add: body_count_def preorder_eq)

lemma nat_at_updates:
  "distinct (map fst ps) \<Longrightarrow> k \<notin> fst ` set m \<Longrightarrow> nat_at (updates m ps) k = nat_at ps k"
  using map_of_eq_None_iff [of m k] by (simp add: nat_at_def map_of_updates split: option.split)

lemma updates_keys: "fst ` set (updates m ps) = fst ` set m \<union> fst ` set ps"
proof (induction ps arbitrary: m)
  case (Cons p ps)
  then show ?case by (cases p) (auto simp: dom_update)
qed simp

lemma credit_group:
  assumes "distinct (block_ids (forest_blocks bs))" "set (block_ids (forest_blocks bs)) \<inter> fst ` set m = {}"
    and "DescendantCount ctx = updates m (credits bs)"
  shows "DescendantCount (credit_descendants ctx bs p) = updates m (credits bs @ (if p = [] then [] else [(p, body_count bs)]))"
proof -
  have at: "nat_at (DescendantCount ctx) (bID (binfo b)) = body_count (Children b)" if "b \<in> set bs" for b
  proof -
    have "b \<in> set (preorder b)" by (cases b) simp
    with that have b: "b \<in> set (forest_blocks bs)" by (auto simp: forest_blocks_def)
    then have "bID (binfo b) \<in> set (block_ids (forest_blocks bs))" by (simp add: block_ids_def)
    then have "bID (binfo b) \<notin> fst ` set m" using assms(2) by blast
    from nat_at_updates [OF credits_keys(1) [OF assms(1)] this] credits_keys(3) [OF assms(1) b] assms(3) show ?thesis by metis
  qed
  have "map (\<lambda>b. (if bType (binfo b) \<noteq> BlockTypeEnd \<and> bType (binfo b) \<noteq> BlockTypeComment then 1 else 0) +
      nat_at (DescendantCount ctx) (bID (binfo b))) bs = map (\<lambda>b. (if countable_block b then 1 else 0) + body_count (Children b)) bs"
    by (rule map_cong [OF refl]) (simp add: countable_block_def at)
  from arg_cong [OF this, of sum_list] show ?thesis
    unfolding credit_descendants_def Let_def by (simp add: body_count_sum [of bs, symmetric] assms(3))
qed

definition fresh_ids :: "Block list \<Rightarrow> RuleContext \<Rightarrow> bool" where
  "fresh_ids bs ctx \<longleftrightarrow> distinct (block_ids (forest_blocks bs)) \<and> [] \<notin> set (block_ids (forest_blocks bs)) \<and>
     set (block_ids (forest_blocks bs)) \<inter> fst ` set (DescendantCount ctx) = {}"

lemma collect_counts:
  "fresh_ids bs ctx \<Longrightarrow> DescendantCount (collectBlocks ctx bs p sf d) =
       updates (DescendantCount ctx) (credits bs @ (if p = [] then [] else [(p, body_count bs)]))"
  "fresh_ids bs ctx \<Longrightarrow> DescendantCount (collect_children ctx bs sf d) = updates (DescendantCount ctx) (credits bs)"
proof (induction ctx bs p sf d and ctx bs sf d rule: collectBlocks_collect_children.induct)
  case (1 ctx blocks parentID subflowID depth)
  have "DescendantCount (collect_children (index_group ctx blocks parentID subflowID depth) blocks subflowID depth) =
      updates (DescendantCount ctx) (credits blocks)"
    using 1 by (simp add: index_group_counts fresh_ids_def)
  from credit_group [OF _ _ this] "1.prems" show ?case unfolding collectBlocks.simps by (simp add: fresh_ids_def)
next
  case (2 ctx subflowID depth)
  then show ?case by simp
next
  case (3 ctx b cs bs subflowID depth)
  let ?ctx = "if cs \<noteq> [] then collectBlocks ctx cs (bID b) subflowID (depth + 1) else ctx"
  have ids: "block_ids (forest_blocks (Block b cs # bs)) = bID b # block_ids (forest_blocks cs) @ block_ids (forest_blocks bs)"
    by (simp add: block_ids_def forest_blocks_def)
  have cs: "fresh_ids cs ctx" "bID b \<noteq> []" using "3.prems" unfolding fresh_ids_def ids by auto
  have c: "DescendantCount ?ctx = updates (DescendantCount ctx) (if cs = [] then [] else credits cs @ [(bID b, body_count cs)])"
    using "3.IH"(1) [OF _ cs(1)] cs(2) by simp
  have "fst ` set (DescendantCount ?ctx) \<subseteq> fst ` set (DescendantCount ctx) \<union> insert (bID b) (set (block_ids (forest_blocks cs)))"
    unfolding c updates_keys using credits_keys(2) [of cs] cs(1) by (auto simp: fresh_ids_def)
  moreover have "set (block_ids (forest_blocks bs)) \<inter> (fst ` set (DescendantCount ctx) \<union> insert (bID b) (set (block_ids (forest_blocks cs)))) = {}"
    using "3.prems" unfolding fresh_ids_def ids by auto
  ultimately have "set (block_ids (forest_blocks bs)) \<inter> fst ` set (DescendantCount ?ctx) = {}" by blast
  then have "fresh_ids bs ?ctx" using "3.prems" unfolding fresh_ids_def ids by simp
  from "3.IH"(2) [OF this] c show ?case by simp
qed

lemma subflows_counts:
  "fresh_ids (concat (map sfBlocks sfs)) ctx \<Longrightarrow>
     DescendantCount (foldl context_subflow ctx sfs) = updates (DescendantCount ctx) (credits (concat (map sfBlocks sfs)))"
proof (induction sfs arbitrary: ctx)
  case (Cons sf sfs)
  have ids: "block_ids (forest_blocks (concat (map sfBlocks (sf # sfs)))) =
      block_ids (forest_blocks (sfBlocks sf)) @ block_ids (forest_blocks (concat (map sfBlocks sfs)))" by (simp add: block_ids_def)
  have sf: "fresh_ids (sfBlocks sf) ctx" using Cons.prems unfolding fresh_ids_def ids by auto
  have c: "DescendantCount (context_subflow ctx sf) = updates (DescendantCount ctx) (credits (sfBlocks sf))"
    using collect_counts(1) [OF sf, of "[]"] by (simp add: context_subflow_def Let_def)
  have "fst ` set (DescendantCount (context_subflow ctx sf)) \<subseteq> fst ` set (DescendantCount ctx) \<union> set (block_ids (forest_blocks (sfBlocks sf)))"
    unfolding c updates_keys using credits_keys(2) [of "sfBlocks sf"] sf by (auto simp: fresh_ids_def)
  then have "fresh_ids (concat (map sfBlocks sfs)) (context_subflow ctx sf)" using Cons.prems unfolding fresh_ids_def ids by auto
  from Cons.IH [OF this] c show ?case by (simp add: credits_def)
qed (simp add: credits_def)

lemma doc_forest: "walkBlocks flow = forest_blocks (concat (map sfBlocks (Subflows flow)))"
proof -
  have "doc_blocks sfs = forest_blocks (concat (map sfBlocks sfs))" for sfs
    by (induction sfs) (simp_all add: doc_blocks_def)
  then show ?thesis by (simp add: walkBlocks_def)
qed

lemma descendant_count:
  assumes "doc_ids_ok flow" "x \<in> set (walkBlocks flow)"
  shows "nat_at (DescendantCount (buildContext flow)) (bID (binfo x)) = body_count (Children x)"
proof -
  let ?bs = "concat (map sfBlocks (Subflows flow))"
  have d: "distinct (block_ids (forest_blocks ?bs))" "[] \<notin> set (block_ids (forest_blocks ?bs))"
    using assms(1) by (simp_all add: doc_ids_ok_def doc_forest)
  then have "fresh_ids ?bs (empty_context flow)" by (simp add: fresh_ids_def empty_context_def)
  from subflows_counts [OF this] have "DescendantCount (buildContext flow) = updates [] (credits ?bs)"
    by (simp add: buildContext_def Let_def empty_context_def)
  with nat_at_updates [OF credits_keys(1) [OF d(1)], of "bID (binfo x)" "[]"] credits_keys(3) [OF d(1)] assms(2) show ?thesis
    by (simp add: doc_forest)
qed

text \<open>
  C27: the loop-size rule counts its loop. In a document with distinct identifiers, the rule reports exactly
  the loops whose body, nested blocks included, has more blocks than the configured limit, END markers and
  comments not counted; a limit below one, or no number, leaves the default of twenty.
\<close>

theorem wide_loop_exact:
  assumes "doc_ids_ok flow" "x \<in> set (walkBlocks flow)"
  shows "ruCheck (WideLoopRule settings) (buildContext flow) x =
    Some (let limit = (case Option.bind settings (\<lambda>rules. Option.bind (map_of rules ''wide-loop'') (\<lambda>rc. Option.bind (map_of (rcOptions rc) ''maxBlocks'') opt_int)) of
                 Some n \<Rightarrow> if n \<ge> 1 then n else 20 | None \<Rightarrow> 20) in
      if bType (binfo x) = BlockTypeLoop \<and> int (body_count (Children x)) > limit then [wide_loop_finding x] else [])"
  using descendant_count [OF assms]
  by (auto simp: WideLoopRule_def block_rule_def wide_loop_check_def ruleOption_def wideLoopMaxBlocks_def Let_def split: option.split)

definition wide_flow :: FlowDocument where
  "wide_flow = handled_flow\<lparr>Subflows := [(hd (Subflows handled_flow))\<lparr>sfBlocks :=
     [typed_block ''l'' BlockTypeLoop ''LOOP'' [typed_block ''i'' BlockTypeCondition ''IF'' [bare_action, typed_block ''n'' BlockTypeComment [] []],
        typed_block ''e'' BlockTypeEnd ''END'' []]]\<rparr>]\<rparr>"

theorem wide_loop_exact_witness:
  "ruCheck (WideLoopRule (Some [(''wide-loop'', \<lparr>rcEnabled = True, rcSeverity = [], rcOptions = [(''maxBlocks'', OptFloat 1)]\<rparr>)]))
     (buildContext wide_flow) (hd (walkBlocks wide_flow)) = Some [wide_loop_finding (hd (walkBlocks wide_flow))]"
proof -
  have ok: "doc_ids_ok wide_flow" by code_simp
  have x: "hd (walkBlocks wide_flow) \<in> set (walkBlocks wide_flow)" by code_simp
  have "bType (binfo (hd (walkBlocks wide_flow))) = BlockTypeLoop" "body_count (Children (hd (walkBlocks wide_flow))) = 2" by code_simp+
  with wide_loop_exact [OF ok x] show ?thesis by (simp add: Let_def opt_int_def)
qed

section \<open>Neighbouring blocks\<close>

definition duplicateActionMinRepeats :: OptionSpec where
  "duplicateActionMinRepeats = \<lparr>osKey = ''minRepeats'', osDefault = 3, osMin = 2\<rparr>"

text \<open>The digest (md5, in hexadecimal) is the argument \<open>digest\<close>.\<close>

definition blockSignature :: "(string \<Rightarrow> string) \<Rightarrow> block_info \<Rightarrow> string" where
  "blockSignature digest b = digest (bRawType b @ ''|'' @
     concat (map (\<lambda>k. k @ ''='' @ getprop (bProperties b) k @ '';'') (sortedPropertyKeys (bProperties b))))"

definition duplicate_action_finding :: "Block \<Rightarrow> Finding" where
  "duplicate_action_finding blk = (block_finding ''duplicate-action'' SeverityInfo ''Repeated action pattern''
     ''This action is repeated multiple times in sequence.'' ''Consider extracting these repeated actions into a subflow.'' blk)
     \<lparr>fMetadata := [(''repeatCount'', MetaOther)]\<rparr>"

fun count_matching :: "(Block \<Rightarrow> string) \<Rightarrow> string \<Rightarrow> nat \<Rightarrow> Block list \<Rightarrow> nat" where
  "count_matching sig s matching [] = matching"
| "count_matching sig s matching (b # bs) = (if sig b = s then count_matching sig s (matching + 1) bs else matching)"

definition duplicate_action_check :: "(string \<Rightarrow> string) \<Rightarrow> AppSettings \<Rightarrow> RuleContext \<Rightarrow> Block \<Rightarrow> Finding list" where
  "duplicate_action_check digest settings ctx blk =
     (let minRepeats = ruleOption settings ''duplicate-action'' duplicateActionMinRepeats;
          sig = (\<lambda>b. blockSignature digest (binfo b)) in
      case siblingPosition ctx (binfo blk) of
        None \<Rightarrow> []
      | Some (siblings, myIdx) \<Rightarrow>
          if int (length siblings) < minRepeats then []
          else if myIdx > 0 \<and> sig (siblings ! (myIdx - 1)) = sig blk then []
          else if int (count_matching sig (sig blk) 1 (drop (myIdx + 1) siblings)) < minRepeats then []
          else [duplicate_action_finding blk])"

definition DuplicateActionRule :: "(string \<Rightarrow> string) \<Rightarrow> AppSettings \<Rightarrow> Rule" where
  "DuplicateActionRule digest settings = block_rule ''duplicate-action'' SeverityInfo ''Style'' (duplicate_action_check digest settings)"

definition isWebOrUIAction :: "string \<Rightarrow> bool" where
  "isWebOrUIAction rawType \<longleftrightarrow> HasPrefix (ToLower rawType) ''webautomation.'' \<or> HasPrefix (ToLower rawType) ''uiautomation.''"

definition isWaitAction :: "string \<Rightarrow> bool" where
  "isWaitAction rawType \<longleftrightarrow> Contains (ToLower rawType) ''wait'' \<or> Contains (ToLower rawType) ''delay''"

definition missing_delay_finding :: "Block \<Rightarrow> Finding" where
  "missing_delay_finding = block_finding ''missing-delay'' SeverityInfo ''Web action without wait''
     ''Two consecutive web/UI automation actions with no wait between them, which can cause timing failures.''
     (''Add a '' @ quoted ''Wait for element'' @ '' or '' @ quoted ''Delay'' @ '' action between UI automation steps to improve reliability.'')"

definition missing_delay_check :: "RuleContext \<Rightarrow> Block \<Rightarrow> Finding list" where
  "missing_delay_check ctx blk =
     (if \<not> isWebOrUIAction (bRawType (binfo blk)) then []
      else if isWaitAction (bRawType (binfo blk)) then []
      else
        (case siblingPosition ctx (binfo blk) of
           None \<Rightarrow> []
         | Some (siblings, myIdx) \<Rightarrow>
             if myIdx = 0 then []
             else
               (let prev = bRawType (binfo (siblings ! (myIdx - 1))) in
                if \<not> isWebOrUIAction prev then [] else if isWaitAction prev then [] else [missing_delay_finding blk])))"

definition MissingDelayRule :: Rule where
  "MissingDelayRule = block_rule ''missing-delay'' SeverityInfo ''Reliability'' missing_delay_check"

definition self_assignment_finding :: "string \<Rightarrow> Block \<Rightarrow> Finding" where
  "self_assignment_finding outVar blk = (block_finding ''redundant-action'' SeverityInfo ''Variable set to itself''
     (''Variable '' @ quoted outVar @ '' is assigned its own value (%'' @ outVar @ ''%), which has no effect.'')
     ''Remove this action or change the value being assigned.'' blk)
     \<lparr>fMetadata := [(''variable'', MetaString outVar), (''pattern'', MetaString ''self-assignment'')]\<rparr>"

definition checkSelfAssignment :: "Block \<Rightarrow> Finding list" where
  "checkSelfAssignment blk =
     (let b = binfo blk; outVar = outputVar b; val = getprop (bProperties b) ''_value'' in
      if bType b \<noteq> BlockTypeVariable then []
      else if outVar = [] then []
      else if val = [] then []
      else if val = ''%'' @ outVar @ ''%'' then [self_assignment_finding outVar blk] else [])"

definition isConversionAction :: "string \<Rightarrow> bool" where
  "isConversionAction rawType \<longleftrightarrow> rawType \<in> {''Variables.ConvertTextToNumber'', ''Variables.ConvertNumberToText'',
     ''Variables.GetTextLength'', ''Variables.TrimText'', ''Variables.ToUpper'', ''Variables.ToLower''}"

definition conversion_finding :: "Block \<Rightarrow> Finding" where
  "conversion_finding blk = (block_finding ''redundant-action'' SeverityInfo ''Redundant consecutive conversion''
     ''This conversion is the same type as the immediately preceding one and operates on its output, suggesting a no-op chain.''
     ''Remove the redundant conversion or verify the data type is correct.'' blk)
     \<lparr>fMetadata := [(''pattern'', MetaString ''consecutive-conversion''), (''rawType'', MetaString (bRawType (binfo blk)))]\<rparr>"

definition checkConsecutiveConversion :: "RuleContext \<Rightarrow> Block \<Rightarrow> Finding list" where
  "checkConsecutiveConversion ctx blk =
     (let b = binfo blk in
      if \<not> HasPrefix (bRawType b) ''Variables.'' then []
      else if \<not> isConversionAction (bRawType b) then []
      else
        (case siblingPosition ctx b of
           None \<Rightarrow> []
         | Some (siblings, myIdx) \<Rightarrow>
             if myIdx = 0 then []
             else
               (let prev = binfo (siblings ! (myIdx - 1)) in
                if bRawType prev \<noteq> bRawType b then []
                else
                  (let outVar = outputVar b; prevOutput = outputVar prev; v = getprop (bProperties prev) ''_value'';
                       prevValue = (if v = [] then getprop (bProperties prev) ''_input'' else v) in
                   if prevOutput \<noteq> [] \<and> outVar \<noteq> [] \<and> prevValue = ''%'' @ outVar @ ''%'' then [conversion_finding blk] else []))))"

definition RedundantActionRule :: Rule where
  "RedundantActionRule = block_rule ''redundant-action'' SeverityInfo ''Performance''
     (\<lambda>ctx blk. checkSelfAssignment blk @ checkConsecutiveConversion ctx blk)"

subsection \<open>Positions\<close>

lemma sibling_position:
  assumes "doc_ids_ok flow" "p \<in> set (positions flow)"
  shows "siblingPosition (buildContext flow) (binfo (at_pos p)) = Some (group_ptrs (fst p), snd p)"
proof -
  obtain g i where p: "p = (g, i)" by (cases p)
  with assms(2) have g: "g \<in> set (doc_groups flow)" "i < length (group_ptrs g)" by (simp_all add: in_positions)
  note at = context_at [OF assms(1) g]
  show ?thesis using g(2) at by (simp add: siblingPosition_def GetSiblings_def p at_pos_def Let_def list_at_def)
qed

lemma count_matching_run: "count_matching sig s n bs = n + length (takeWhile (\<lambda>b. sig b = s) bs)"
  by (induction bs arbitrary: n) simp_all

text \<open>
  the neighbour rules look at the siblings in the tree. In a document with distinct identifiers, at every
  position of every group: the wait rule reports a web or UI action exactly when the block before it in the
  group is one too and neither waits; the repetition rule reports exactly the first block of a run of equal
  signatures that is at least as long as the configured minimum.
\<close>

theorem neighbour_rules_exact:
  assumes "doc_ids_ok flow" "p \<in> set (positions flow)"
  shows "let ctx = buildContext flow; bs = group_ptrs (fst p); i = snd p; b = at_pos p;
      paced = (\<lambda>b. isWebOrUIAction (bRawType (binfo b)) \<and> \<not> isWaitAction (bRawType (binfo b)));
      sig = (\<lambda>b. blockSignature digest (binfo b)); least = ruleOption settings ''duplicate-action'' duplicateActionMinRepeats in
    ruCheck MissingDelayRule ctx b = Some (if i > 0 \<and> paced (bs ! (i - 1)) \<and> paced b then [missing_delay_finding b] else []) \<and>
    ruCheck (DuplicateActionRule digest settings) ctx b = Some
      (if (i > 0 \<longrightarrow> sig (bs ! (i - 1)) \<noteq> sig b) \<and> int (length (takeWhile (\<lambda>c. sig c = sig b) (drop i bs))) \<ge> least
       then [duplicate_action_finding b] else [])"
proof -
  let ?bs = "group_ptrs (fst p)" and ?i = "snd p" and ?b = "at_pos p"
  let ?sig = "\<lambda>b. blockSignature digest (binfo b)"
  note at = sibling_position [OF assms]
  have i: "?i < length ?bs" "?bs ! ?i = ?b"
    using assms(2) in_positions [of "fst p" "snd p" flow] by (simp_all add: at_pos_def)
  have run: "count_matching ?sig (?sig ?b) 1 (drop (?i + 1) ?bs) = length (takeWhile (\<lambda>c. ?sig c = ?sig ?b) (drop ?i ?bs))"
  proof -
    have d: "drop ?i ?bs = ?b # drop (?i + 1) ?bs" using Cons_nth_drop_Suc [OF i(1)] i(2) by simp
    show ?thesis unfolding count_matching_run d by simp
  qed
  have bound: "length (takeWhile (\<lambda>c. ?sig c = ?sig ?b) (drop ?i ?bs)) \<le> length ?bs"
    using length_takeWhile_le [of "\<lambda>c. ?sig c = ?sig ?b" "drop ?i ?bs"] by simp
  have "ruCheck MissingDelayRule (buildContext flow) ?b = Some (missing_delay_check (buildContext flow) ?b)"
    by (simp add: MissingDelayRule_def block_rule_def)
  moreover have "ruCheck (DuplicateActionRule digest settings) (buildContext flow) ?b =
      Some (duplicate_action_check digest settings (buildContext flow) ?b)" by (simp add: DuplicateActionRule_def block_rule_def)
  moreover have "missing_delay_check (buildContext flow) ?b =
      (if ?i > 0 \<and> (isWebOrUIAction (bRawType (binfo (?bs ! (?i - 1)))) \<and> \<not> isWaitAction (bRawType (binfo (?bs ! (?i - 1))))) \<and>
          (isWebOrUIAction (bRawType (binfo ?b)) \<and> \<not> isWaitAction (bRawType (binfo ?b))) then [missing_delay_finding ?b] else [])"
    unfolding missing_delay_check_def at option.case prod.case Let_def by simp
  moreover have "duplicate_action_check digest settings (buildContext flow) ?b =
      (if (?i > 0 \<longrightarrow> ?sig (?bs ! (?i - 1)) \<noteq> ?sig ?b) \<and>
          int (length (takeWhile (\<lambda>c. ?sig c = ?sig ?b) (drop ?i ?bs))) \<ge> ruleOption settings ''duplicate-action'' duplicateActionMinRepeats
       then [duplicate_action_finding ?b] else [])"
    using bound unfolding duplicate_action_check_def at option.case prod.case Let_def run by simp
  ultimately show ?thesis unfolding Let_def by (simp only: simp_thms)
qed

definition click :: "string \<Rightarrow> Block" where
  "click i = typed_block i BlockTypeAction ''WebAutomation.Click'' []"

definition click_flow :: FlowDocument where
  "click_flow = handled_flow\<lparr>Subflows := [(hd (Subflows handled_flow))\<lparr>sfBlocks := [click ''a'', click ''b'', click ''c'']\<rparr>]\<rparr>"

theorem neighbour_rules_exact_witness:
  "ruCheck (DuplicateActionRule (\<lambda>s. s) None) (buildContext click_flow) (click ''a'') = Some [duplicate_action_finding (click ''a'')] \<and>
   ruCheck MissingDelayRule (buildContext click_flow) (click ''a'') = Some [] \<and>
   ruCheck MissingDelayRule (buildContext click_flow) (click ''b'') = Some [missing_delay_finding (click ''b'')]"
proof -
  have ok: "doc_ids_ok click_flow" by code_simp
  have p: "positions click_flow ! 0 \<in> set (positions click_flow)" "positions click_flow ! 1 \<in> set (positions click_flow)" by code_simp+
  have b: "at_pos (positions click_flow ! 0) = click ''a''" "at_pos (positions click_flow ! 1) = click ''b''"
    "snd (positions click_flow ! 0) = 0" "snd (positions click_flow ! 1) = 1"
    "group_ptrs (fst (positions click_flow ! 0)) = [click ''a'', click ''b'', click ''c'']"
    "group_ptrs (fst (positions click_flow ! 1)) = [click ''a'', click ''b'', click ''c'']" by code_simp+
  have w: "isWebOrUIAction (bRawType (binfo (click ''a'')))" "\<not> isWaitAction (bRawType (binfo (click ''a'')))"
    "isWebOrUIAction (bRawType (binfo (click ''b'')))" "\<not> isWaitAction (bRawType (binfo (click ''b'')))"
    "blockSignature (\<lambda>s. s) (binfo (click ''b'')) = blockSignature (\<lambda>s. s) (binfo (click ''a''))"
    "blockSignature (\<lambda>s. s) (binfo (click ''c'')) = blockSignature (\<lambda>s. s) (binfo (click ''a''))"
    "ruleOption None ''duplicate-action'' duplicateActionMinRepeats = 3" by code_simp+
  note a = neighbour_rules_exact [OF ok p(1), where digest = "\<lambda>s. s" and settings = None, unfolded b Let_def]
  note c = neighbour_rules_exact [OF ok p(2), where digest = "\<lambda>s. s" and settings = None, unfolded b Let_def]
  from a c w show ?thesis by simp
qed

section \<open>Single blocks\<close>

definition slow_pattern_check :: "RuleContext \<Rightarrow> Block \<Rightarrow> Finding list" where
  "slow_pattern_check ctx blk =
     (if bType (binfo blk) \<noteq> BlockTypeLoop then []
      else
        (let hasUI = list_ex (\<lambda>b. HasPrefix (bRawType (binfo b)) ''WebAutomation.'' \<or> HasPrefix (bRawType (binfo b)) ''UIAutomation.'') (walkLoopBody blk);
             hasWait = list_ex (\<lambda>b. isWaitAction (bRawType (binfo b))) (walkLoopBody blk) in
         if \<not> hasUI \<or> hasWait then []
         else [block_finding ''slow-pattern'' SeverityWarning ''UI automation in tight loop''
           ''This loop contains UI/web automation actions without any delay, which can overwhelm the target application.''
           (''Add a '' @ quoted ''Wait'' @ '' or '' @ quoted ''Delay'' @ '' action inside the loop to reduce load on the target application.'') blk]))"

definition SlowPatternRule :: Rule where
  "SlowPatternRule = block_rule ''slow-pattern'' SeverityWarning ''Performance'' slow_pattern_check"

definition mentions :: "string \<Rightarrow> string list \<Rightarrow> bool" where
  "mentions s words \<longleftrightarrow> list_ex (Contains (ToLower s)) words"

definition does_something :: "block_info \<Rightarrow> bool" where
  "does_something b \<longleftrightarrow>
     bType b \<noteq> BlockTypeEnd \<and> bType b \<noteq> BlockTypeComment \<and>
     (bType b = BlockTypeVariable \<and> list_ex (\<lambda>(k, _). mentions k [''output'', ''var'']) (bProperties b) \<or>
      list_ex (\<lambda>v. mentions v [''error'', ''exception'', ''lasterror'']) (bVariables b) \<or>
      list_ex (\<lambda>(_, v). mentions v [''error'', ''exception'', ''log'']) (bProperties b) \<or>
      mentions (bRawType b) [''log'', ''write'', ''send'', ''message'', ''exit'', ''terminate'', ''display'', ''show''])"

definition handlerDoesSomething :: "Block \<Rightarrow> bool" where
  "handlerDoesSomething handler \<longleftrightarrow>
     list_ex (\<lambda>b. bID (binfo b) \<noteq> bID (binfo handler) \<and> does_something (binfo b)) (preorder handler)"

definition error_swallow_check :: "RuleContext \<Rightarrow> Block \<Rightarrow> Finding list" where
  "error_swallow_check ctx blk =
     (if bType (binfo blk) \<noteq> BlockTypeErrorHandler then []
      else if Children blk = [] then []
      else if handlerDoesSomething blk then []
      else [(block_finding ''error-swallow'' SeverityWarning ''Error handler swallows errors silently''
        (''This error handler catches errors but doesn'' @ [CHR 0x27] @ ''t appear to log them, set error variables, or take any meaningful action.'')
        ''Add logging, set an error variable, re-raise the error, or notify the user. Silent error swallowing hides problems.'' blk)
        \<lparr>fAutoFixHint := ''Inside the On Error block, add: Variables.Set Variable > Name: ErrorMessage, Value: %LastError%  '' @ em_dash
           @ '' then add a Message Box or Write to File action to surface the error.''\<rparr>])"

definition ErrorSwallowRule :: Rule where
  "ErrorSwallowRule = block_rule ''error-swallow'' SeverityWarning ''Reliability'' error_swallow_check"

definition timeoutRequiredPrefixes :: "string list" where
  "timeoutRequiredPrefixes = [''WebAutomation.'', ''UIAutomation.'', ''HTTPClient.'', ''FTP.'', ''Database.'', ''Outlook.SendEmail'',
     ''Email.SendEmail'', ''SharePoint.'', ''OneDrive.'']"

definition requiresTimeout :: "string \<Rightarrow> bool" where
  "requiresTimeout rawType \<longleftrightarrow> list_ex (\<lambda>p. HasPrefix (ToLower rawType) (ToLower p)) timeoutRequiredPrefixes"

definition hasTimeoutConfigured :: "block_info \<Rightarrow> bool" where
  "hasTimeoutConfigured b \<longleftrightarrow>
     list_ex (\<lambda>(k, v). \<not> HasPrefix k ''_'' \<and> mentions k [''timeout'', ''wait''] \<and> v \<noteq> [] \<and> v \<noteq> ''0'') (bProperties b)"

definition missing_timeout_check :: "RuleContext \<Rightarrow> Block \<Rightarrow> Finding list" where
  "missing_timeout_check ctx blk =
     (if bType (binfo blk) \<noteq> BlockTypeAction then []
      else if \<not> requiresTimeout (bRawType (binfo blk)) then []
      else if hasTimeoutConfigured (binfo blk) then []
      else [(block_finding ''missing-timeout'' SeverityWarning ''Network operation without timeout''
        ''This network/UI automation action has no explicit timeout configured. If the target is unresponsive, the flow will hang indefinitely.''
        (''Set an explicit timeout value in the action'' @ [CHR 0x27] @ ''s properties. For web automation, use '' @ quoted ''Wait for element''
           @ '' with a timeout instead of relying on default behavior.'') blk)
        \<lparr>fMetadata := [(''rawType'', MetaString (bRawType (binfo blk)))]\<rparr>])"

definition MissingTimeoutRule :: Rule where
  "MissingTimeoutRule = block_rule ''missing-timeout'' SeverityWarning ''Reliability'' missing_timeout_check"

definition DisabledBlockRule :: Rule where
  "DisabledBlockRule = block_rule ''disabled-block'' SeverityInfo ''Style'' (\<lambda>ctx blk.
     if \<not> (HasPrefix (bRawType (binfo blk)) ''DISABLED_'' \<or>
           (bType (binfo blk) \<noteq> BlockTypeComment \<and> Contains (bName (binfo blk)) ''(disabled)'')) then []
     else [block_finding ''disabled-block'' SeverityInfo ''Disabled block'' (''Block '' @ quoted (bName (binfo blk)) @ '' is disabled.'')
       ''Remove disabled blocks to keep the flow clean, or re-enable them if they are needed.'' blk])"

definition isWaitZero :: "string \<Rightarrow> bool" where
  "isWaitZero raw \<longleftrightarrow>
     length raw \<ge> 6 \<and>
     (let rest = dropWhile (\<lambda>c. \<not> is_digit c) raw in
      rest \<noteq> [] \<and> list_all (\<lambda>c. c \<in> {CHR ''0'', CHR ''.'', CHR '')'', CHR ''(''}) (takeWhile (\<lambda>c. c \<noteq> sp \<and> c \<noteq> tab) rest))"

definition WaitZeroRule :: Rule where
  "WaitZeroRule = block_rule ''wait-zero'' SeverityInfo ''Style'' (\<lambda>ctx blk.
     let raw = (if bName (binfo blk) = [] then bRawType (binfo blk) else bName (binfo blk)) in
     if bType (binfo blk) \<noteq> BlockTypeWait \<and> bRawType (binfo blk) \<noteq> ''WAIT'' then []
     else if \<not> isWaitZero raw then []
     else [block_finding ''wait-zero'' SeverityInfo ''Wait zero'' ''This WAIT action has a duration of 0, making it a no-op.''
       ''Remove the WAIT 0 action or increase the duration.'' blk])"

definition networkActionPrefixes :: "string list" where
  "networkActionPrefixes = [''httpclient.'', ''webautomation.'', ''http.'', ''ftp.'', ''webservice.'']"

definition urlPropertyKeys :: "string list" where
  "urlPropertyKeys = [''url'', ''endpoint'', ''uri'', ''address'', ''host'', ''baseurl'', ''serverurl'']"

definition insecure_key :: "block_info \<Rightarrow> string \<Rightarrow> bool" where
  "insecure_key b key \<longleftrightarrow>
     ToLower key \<in> set urlPropertyKeys \<and> HasPrefix (ToLower (TrimSpace (getprop (bProperties b) key))) ''http://''"

definition insecure_http_check :: "RuleContext \<Rightarrow> Block \<Rightarrow> Finding list" where
  "insecure_http_check ctx blk =
     (let b = binfo blk in
      if \<not> list_ex (HasPrefix (ToLower (bRawType b))) networkActionPrefixes then []
      else (case find (insecure_key b) (sortedPropertyKeys (bProperties b)) of
          None \<Rightarrow> []
        | Some key \<Rightarrow> [(block_finding ''insecure-http-url'' SeverityWarning ''Insecure HTTP URL''
            ''Action targets a cleartext http:// URL. Any data sent (credentials, tokens, PII) travels unencrypted and is interceptable on the wire.''
            ''Use the https:// scheme for the target endpoint so transport is TLS-encrypted.'' blk)
            \<lparr>fMetadata := [(''property'', MetaString key), (''url'', MetaString (getprop (bProperties b) key))]\<rparr>]))"

definition InsecureHttpUrlRule :: Rule where
  "InsecureHttpUrlRule = block_rule ''insecure-http-url'' SeverityWarning ''Security'' insecure_http_check"

text \<open>
  The rule folds the case of the scheme, its fix does not: for an upper-case scheme the finding stays and
  the patch leaves the line as it is, without a skipped operation.
\<close>

definition shouted_url :: Block where
  "shouted_url = taint_block ''u'' ''HttpClient.Get'' [(''Url'', ''HTTP://host'')]"

theorem upper_case_url_not_fixed:
  "length (insecure_http_check (buildContext leak_flow) shouted_url) = 1 \<and>
   map (\<lambda>op. applyReplace [''HttpClient.Get Url: HTTP://host''] op) (UpgradeToHttpsPatch shouted_url) = [([''HttpClient.Get Url: HTTP://host''], 0)]"
  by code_simp

definition fileActionPrefixes :: "string list" where
  "fileActionPrefixes = [''file.'', ''filesystem.'', ''folder.'', ''archive.'']"

definition pathPropertySuffixes :: "string list" where
  "pathPropertySuffixes = [''file'', ''files'', ''folder'', ''folders'', ''path'', ''paths'', ''destination'', ''source'', ''directory'']"

definition isPathProperty :: "string \<Rightarrow> bool" where
  "isPathProperty key \<longleftrightarrow> list_ex (HasSuffix (ToLower key)) pathPropertySuffixes"

definition path_traversal_check :: "RuleContext \<Rightarrow> Block \<Rightarrow> Finding list" where
  "path_traversal_check ctx blk =
     (let b = binfo blk in
      if \<not> list_ex (HasPrefix (ToLower (bRawType b))) fileActionPrefixes then []
      else (case find (\<lambda>key. isPathProperty key \<and> MatchString sqlVarRef (getprop (bProperties b) key)) (sortedPropertyKeys (bProperties b)) of
          None \<Rightarrow> []
        | Some key \<Rightarrow> [(block_finding ''path-traversal-risk'' SeverityWarning ''Path traversal risk''
            ''File action uses a variable path. A caller-controlled value containing ../ sequences can escape the intended directory and read or overwrite arbitrary files.''
            ''Validate/canonicalize the variable path (resolve and confirm it stays within the allowed root) before opening, writing, or deleting.'' blk)
            \<lparr>fMetadata := [(''property'', MetaString key)]\<rparr>]))"

definition PathTraversalRiskRule :: Rule where
  "PathTraversalRiskRule = block_rule ''path-traversal-risk'' SeverityWarning ''Security'' path_traversal_check"

section \<open>Subflows\<close>

definition isEntryPoint :: "Subflow \<Rightarrow> RuleContext \<Rightarrow> bool" where
  "isEntryPoint sf ctx \<longleftrightarrow>
     (case Subflows (ctxFlow ctx) of [] \<Rightarrow> False | first # _ \<Rightarrow> sfID first = sfID sf) \<or> sfName sf = ''Main'' \<or> sfName sf = ''main''"

definition uncalled_finding :: "Subflow \<Rightarrow> Block \<Rightarrow> Finding" where
  "uncalled_finding sf anchor = no_finding\<lparr>fRuleID := ''uncalled-subflow'', fSeverity := SeverityWarning, fTitle := ''Uncalled subflow'',
     fDescription := ''Subflow '' @ quoted (sfName sf) @ '' is never called by any other subflow and is not the entry point. It is dead code at the flow level.'',
     fBlockID := bID (binfo anchor), fSubflowID := sfID sf,
     fSuggestion := ''Remove this subflow if it is no longer needed, or add a call to it from the entry point.'',
     fMetadata := [(''subflow'', MetaString (sfName sf))]\<rparr>"

definition UncalledSubflowRule :: Rule where
  "UncalledSubflowRule = flow_rule ''uncalled-subflow'' SeverityWarning ''Logic'' (\<lambda>ctx.
     per_subflow (subflowAnchor ctx) (\<lambda>sf. \<not> (nat_at (SubflowFanIn ctx) (sfID sf) > 0 \<or> isEntryPoint sf ctx))
       uncalled_finding (Subflows (ctxFlow ctx)))"

definition sfNeedsErrorHandler :: "Block list \<Rightarrow> bool" where
  "sfNeedsErrorHandler blocks \<longleftrightarrow>
     length (filter (\<lambda>b. bType (binfo b) \<notin> {BlockTypeComment, BlockTypeVariable, BlockTypeEnd}) (forest_blocks blocks)) > 3"

fun sfHasErrorHandler :: "Block list \<Rightarrow> bool" where
  "sfHasErrorHandler [] = False"
| "sfHasErrorHandler (Block b cs # bs) = (bType b = BlockTypeErrorHandler \<or> sfHasErrorHandler cs \<or> sfHasErrorHandler bs)"

text \<open>The verb \<open>%q\<close> of package fmt is the argument \<open>q\<close>.\<close>

definition no_handler_finding :: "(string \<Rightarrow> string) \<Rightarrow> Subflow \<Rightarrow> Block \<Rightarrow> Finding" where
  "no_handler_finding q sf anchor = no_finding\<lparr>fRuleID := ''subflow-no-error-handler'', fSeverity := SeverityInfo,
     fTitle := ''Subflow without error handler'',
     fDescription := ''Subflow '' @ q (sfName sf) @ '' has action blocks but no error handler. Unhandled errors will silently terminate the subflow.'',
     fBlockID := bID (binfo anchor), fSubflowID := sfID sf,
     fSuggestion := ''Add a Try/Catch or On Block Error handler to protect against unexpected failures.''\<rparr>"

definition SubflowNoErrorHandlerRule :: "(string \<Rightarrow> string) \<Rightarrow> Rule" where
  "SubflowNoErrorHandlerRule q = flow_rule ''subflow-no-error-handler'' SeverityInfo ''Reliability'' (\<lambda>ctx.
     per_subflow (actionableAnchor ctx) (\<lambda>sf. \<not> (\<not> sfNeedsErrorHandler (sfBlocks sf) \<or> sfHasErrorHandler (sfBlocks sf)))
       (no_handler_finding q) (Subflows (ctxFlow ctx)))"

lemma has_handler_walk: "sfHasErrorHandler bs \<longleftrightarrow> list_ex (\<lambda>b. bType (binfo b) = BlockTypeErrorHandler) (forest_blocks bs)"
  by (induction bs rule: sfHasErrorHandler.induct) (auto simp: forest_blocks_def)

end
