(* ===== verification/Spec2Isabelle.thy ===== *)
theory Spec2Isabelle
  imports Parser_Order Parse_Files Flow_Diff Serializer Policy_Gate Engine_Correct Rules
    Suppress_Fix Fix_Loop Data_Flow Taint Anchors Block_Rules
begin

text \<open>
  Verification of the analysis core of PAD Analyzer (\<open>src/core\<close>, Go): the parser of Power Automate
  Desktop flows, the rule engine over parsed documents, and the views derived from its reports.

  \<^bold>\<open>The program.\<close> A flow is a text of lines. \<open>parser.Tokenize\<close> classifies every line, \<open>Parser.Parse\<close>
  feeds the tokens to handlers that grow a tree of blocks per subflow, and \<open>buildDocument\<close> adds
  counters and lookup maps; \<open>ParseFiles\<close> does so for the members of a folder. The analyzer indexes a
  document (\<open>buildContext\<close>), runs the enabled rules over it in parallel shards (\<open>collectFindings\<close>), drops
  what inline directives suppress, folds duplicates, numbers the rest and computes statistics and
  metrics (\<open>analyzeContext\<close>). A finding may name a fix, which builds a patch of the source text; the fix
  loop parses, analyses and patches until nothing fixable is left (\<open>applyFixesLoop\<close>). Policies and gates decide on a report; \<open>DiffFlows\<close> compares two documents;
  the serializer writes a document back as text.

  \<^bold>\<open>Theories and sources.\<close>
  \<^item> \<open>Prelude\<close>: shared collections of rewrite rules, list and option lemmas, and the interfaces of the
    development: \<open>step_invariant\<close> (a machine whose every step keeps an invariant), \<open>growing_log\<close> (a
    machine that only appends to a log), \<open>filtering_stage\<close> (a stage that keeps a sub-sequence).
  \<^item> \<open>Go_Strings\<close>, \<open>Go_Regexp\<close>: what the sources use of packages strings, unicode and regexp, on strings
    of bytes; a regular expression is a pattern of a datatype with an executable leftmost-first matcher.
  \<^item> \<open>Grammar\<close> (parser/grammar.go), \<open>Models\<close> (models/block.go, document.go), \<open>Tokenizer\<close>
    (parser/tokenizer.go, token_types.go), \<open>Classifier\<close> (classifier.go), \<open>Extractors\<close> (extractors.go),
    \<open>Block_Tokens\<close> (\<open>newBlock\<close> and display tokens of parser.go).
  \<^item> \<open>Parser_State\<close>: the handlers of parser.go over an explicit heap, since the Go code appends to
    children through pointers held on the indent stack. \<open>Parser_Forest\<close>: the heap is a forest, by an
    inductive step relation every handler refines. \<open>Parser\<close>: parse_simple.go and the value tree.
    \<open>Parser_Correct\<close>, \<open>Parser_Order\<close>: termination, completeness, placement, order and depth of the
    document, its maps, and the reporting of malformed input (unclosed spans are measured against
    \<open>open_span\<close>, a scan of the lines that builds no token).
  \<^item> \<open>Parse_Files\<close> (\<open>ParseFiles\<close>), \<open>Flow_Diff\<close> (parser/diff.go; the interface \<open>block_differ\<close> is
    interpreted on the exact and the coarse routine), \<open>Serializer\<close> (serialize.go).
  \<^item> \<open>Findings\<close> (models/analysis.go, dedup.go, gate.go, stamping of engine.go), \<open>Suppress\<close>
    (suppress.go), \<open>Policy_Gate\<close> (policy.go).
  \<^item> \<open>Analysis_Context\<close> (facts.go, block_patterns.go) and \<open>Context_Correct\<close>: the indexes agree with the
    tree. \<open>Engine\<close> (engine.go, rule.go, parse_error_findings.go) and \<open>Engine_Correct\<close>: the sharded walk
    is the sequential one.
  \<^item> \<open>Call_Graph\<close> (graph.go), \<open>Call_Cycles\<close> (\<open>detectCircularDeps\<close>, Tarjan's algorithm), \<open>Metrics\<close>
    (metrics.go and the subflow graph of facts.go), \<open>Rules\<close> (the structural rules, rule_*.go).
  \<^item> \<open>Patches\<close> (models/patch.go, autofix.go, fix_dispatch.go) and \<open>Patch_Correct\<close>: the five line edits
    satisfy the interface \<open>line_edit\<close> (an edit keeps what stands above and below its target), the four
    that keep every line also \<open>growing_edit\<close>; so every registered fix stays inside its block.
    \<open>Suppress_Fix\<close>: the directive the suppress fix writes is the directive suppress.go reads.
    \<open>Fix_Loop\<close> (apply_fixes.go): the loop ends, obeys its options and returns the parse of its text.
  \<^item> \<open>Data_Flow\<close> (dataflow.go): the two edge passes share the interfaces \<open>edge_step\<close> and \<open>edge_lister\<close>
    (entries are paid from a budget and the truncation mark is raised exactly when some are missing),
    so a result that is not truncated is the plain lookup; the dead-data rule is exact. \<open>Variable_Index\<close>:
    the interface \<open>variable_index\<close> of the two maps from variables to blocks. \<open>Taint\<close>
    (rule_sql_injection.go): the worklist marks exactly what the inductive relation \<open>tainted_var\<close> holds of.
  \<^item> \<open>Ancestors\<close> (the memoised ancestor facts of facts.go; the interface \<open>ancestor_fact\<close> is interpreted on error
    handlers and retry loops), \<open>Goto_Rule\<close>, \<open>Variable_Rules\<close> and \<open>Block_Rules\<close> (the other rules, rule_*.go):
    a rule that looks up a precomputed index reports what a scan of the tree would.
  \<^item> \<open>Report_Drift\<close> (batch.go, ruleset.go): differences of reports, drift against a baseline, rule sets and
    their digest. \<open>Anchors\<close> (models/block_anchor.go): references to blocks that outlive a re-parse.
  \<^item> This theory: properties that span parser, engine and rules.

  \<^bold>\<open>Modelling.\<close> A Go map is an association list or, where only membership matters, a set or a function;
  where the iteration order of a map can be observed it is an argument (\<open>ParseFiles\<close>, the call graph of
  \<open>detectCircularDeps\<close>). Strings are byte strings. Generated identifiers are a stream \<open>uuid\<close>, with
  injectivity a hypothesis where it matters. Digests (sha256) and the sorts of the standard library are
  arguments. A rule that panics is a check that returns \<open>None\<close>; cancellation is an oracle that may fire
  before any block of any shard. The float64 values of the metrics are rationals: they are sums of
  small integers and halves and quotients of such sums, and no property depends on rounding.

  \<^bold>\<open>Fuel.\<close> \<open>toValueTree\<close> follows pointers with the size of the heap as fuel; \<open>parse_total\<close> shows it
  suffices because the forest is acyclic. \<open>ancestor_walk\<close> has no guard in the code and may loop: not returning
  is \<open>None\<close>, and \<open>goto_scope_exact\<close> shows that it returns. The fix loop runs at most its own \<open>Limit\<close> iterations. \<open>connect\<close> recurses over the call graph with the number of
  subflows as fuel; \<open>circular_deps_exact\<close> shows that it always returns. Every other loop is structural
  or has a termination proof.

  \<^bold>\<open>Not modelled.\<close> The rules on hard-coded values and custom rules compiled from user input; caches
  and incremental re-analysis; folder reading, logging, clocks and progress bars; the
  service, command line, storage and user interfaces around the core.
\<close>

section \<open>Reports\<close>

text \<open>A finding without the fields that stamping fills in.\<close>

definition unstamped :: "Finding \<Rightarrow> Finding" where
  "unstamped f = f\<lparr>fID := [], fFingerprint := [], fConfidence := [], fAutoFix := [], fStage := []\<rparr>"

lemma unstamped_stamp: "unstamped (stamp_finding hash16 t flow n f) = unstamped f"
  by (simp add: stamp_finding_def unstamped_def Let_def split: option.split)

lemma dedupKey_unstamped: "dedupKey (unstamped f) = dedupKey f"
  by (simp add: unstamped_def dedupKey_def findingDiscriminator_def findingSubjects_def subject_of_def)

lemma unstamped_keys:
  assumes "map unstamped fs = map unstamped gs"
  shows "map dedupKey fs = map dedupKey gs"
proof -
  have "map dedupKey hs = map dedupKey (map unstamped hs)" for hs by (simp add: dedupKey_unstamped)
  from this [of fs] this [of gs] show ?thesis by (simp only: assms)
qed

text \<open>
  C11: a report is exactly what the rules found. Of the findings of the walk and of the parse-error
  fallback, the suppressed ones are removed and counted; of the rest the report keeps, in order,
  exactly those with no earlier finding of the same (block, title, subject) key, unchanged but for
  the fields stamped on a report (identifier, fingerprint, confidence, fix type, stage); the kept
  ones are numbered F-001, F-002, ...; and the statistics count the findings of the report by
  severity.
\<close>

theorem report_is_what_rules_found:
  "let ctx = buildContext flow; report = RunAnalysis env flow rules settings; fs = arFindings report;
       raw = raw_findings env ctx rules settings; live = live_findings env ctx rules settings;
       firsts = map ((!) live) (filter (\<lambda>i. dedupKey (live ! i) \<notin> dedupKey ` set (take i live)) [0..<length live])
   in
     map unstamped fs = map unstamped firsts \<and>
     distinct (map dedupKey fs) \<and> set (map dedupKey fs) = set (map dedupKey live) \<and>
     map fID fs = map finding_id [1..<Suc (length fs)] \<and>
     stSuppressed (arStats report) + length live = length raw \<and>
     stErrors (arStats report) = length (filter (\<lambda>f. fSeverity f = SeverityError) fs) \<and>
     stWarnings (arStats report) = length (filter (\<lambda>f. fSeverity f = SeverityWarning) fs) \<and>
     stInfo (arStats report) = length (filter (\<lambda>f. fSeverity f = SeverityInfo) fs)"
proof -
  let ?ctx = "buildContext flow"
  let ?live = "live_findings env ?ctx rules settings"
  let ?keep = "dedupKeep ?live"
  let ?fs = "keptFindings (stampFindings (envHash env) (envMeta env) ?live ?keep flow) ?keep"
  have len: "length ?live = length ?keep" by (simp add: dedupKeep_def)
  have view: "map unstamped ?fs = map unstamped (keptFindings ?live ?keep)"
    unfolding stampFindings_def using len by (intro stamp_loop_keeps) (simp_all add: unstamped_stamp)
  then have keys: "map dedupKey ?fs = map dedupKey (keptFindings ?live ?keep)"
    by (rule unstamped_keys)
  have ids: "map fID ?fs = map finding_id [1..<Suc (length (filter id ?keep))]"
    using stamp_loop_ids [OF len, of "envHash env" "envMeta env" flow 0] by (simp add: stampFindings_def del: upt_Suc)
  then have n: "length (filter id ?keep) = length ?fs"
    by (metis length_map length_upt diff_Suc_1 One_nat_def)
  have le: "length ?live \<le> length (raw_findings env ?ctx rules settings)" by (simp add: live_findings_def)
  have firsts: "keptFindings ?live ?keep = map ((!) ?live)
      (filter (\<lambda>i. dedupKey (?live ! i) \<notin> dedupKey ` set (take i ?live)) [0..<length ?live])"
    unfolding dedupKeep_def kept_loop_indexes by simp
  show ?thesis
    using view [unfolded firsts] keys ids [unfolded n] le keptFindings_loop_keys [of ?live "[]"]
    unfolding RunAnalysis_def runAnalysisWalk_def analyze_report Let_def fst_conv ctxFlow_buildContext
    by (simp add: dedupKeep_def computeStats_counts del: upt_Suc)
qed

text \<open>
  C12: a document with parse errors never passes silently. With the parse-error rule enabled the
  findings handed to suppression hold one under that rule, whatever rules run, whatever they report
  and even when the walk is cancelled or the document has no block to anchor to.
\<close>

theorem parse_errors_surface:
  "ParseErrors flow \<noteq> [] \<Longrightarrow> RuleEnabled (envMeta env) ParseErrorRule settings \<Longrightarrow>
     list_ex (\<lambda>f. fRuleID f = ''parse-error'') (raw_findings env (buildContext flow) rules settings)"
  using fallback_surfaces by (simp add: raw_findings_def Let_def list_ex_iff)

definition quiet_env :: engine_env where
  "quiet_env = \<lparr>envMeta = [], envHash = (\<lambda>s. s), envProcs = 1, envCancel = never_cancelled\<rparr>"

definition line_error :: "nat \<Rightarrow> string \<Rightarrow> string \<Rightarrow> ParseError" where
  "line_error n msg sev = \<lparr>peLine = n, peColumn = 1, peMessage = msg, peSeverity = sev, peSnippet = []\<rparr>"

theorem parse_errors_surface_witness:
  "list_ex (\<lambda>f. fRuleID f = ''parse-error'') (raw_findings quiet_env
     (buildContext ((suppress_sample ''note'')\<lparr>ParseErrors := [line_error 1 ''malformed line'' ''warning'']\<rparr>)) [] None)"
  by (rule parse_errors_surface) (simp_all add: RuleEnabled_def quiet_env_def ParseErrorRule_def)

text \<open>
  parse errors on the same line of two members of a folder share one key, since every one is
  anchored at the first block and titled by its line only: the report keeps the first. A warning
  in the first file hides an error in the second.
\<close>

theorem parse_errors_share_a_line:
  "let flow = (suppress_sample ''note'')\<lparr>ParseErrors := [line_error 1 ''malformed line'' ''warning'',
         line_error 1 ''unterminated block comment'' ''error'']\<rparr>;
       report = RunAnalysis quiet_env flow [ParseErrorRule] None in
     length (arFindings report) = 1 \<and> stErrors (arStats report) = 0 \<and> stWarnings (arStats report) = 1"
  by code_simp

section \<open>Parsed documents\<close>

text \<open>
  C10: what the parser emits is what the analysis relies on. With identifiers that never repeat and are
  never empty, the document of any source text has distinct block and subflow identifiers, none of
  them empty, and every block names the subflow it stands in: the assumptions under which the rule
  context locates every block and the structural rules are exact.
\<close>

theorem parsed_document_fits_analysis:
  assumes "inj uuid" "\<And>k. uuid k \<noteq> []"
  shows "let doc = the (fst (Parse uuid p)) in
    doc_ids_ok doc \<and> list_all (\<lambda>sf. list_all (\<lambda>b. bSubflowID (binfo b) = sfID sf) (sfBlocks sf)) (Subflows doc)"
proof -
  let ?s = "final_state uuid (pText p) (pFileName p)" and ?doc = "the_document uuid p"
  from final_state_inv assms(1) have ids: "ids_ok uuid ?s" by (simp add: tree_inv_def)
  have "mset (block_ids (walkBlocks ?doc)) = mset (map (bID \<circ> cInfo) (heap ?s))"
    using arg_cong [OF document_blocks [of uuid p], of "image_mset bID"]
    by (simp add: block_ids_def walkBlocks_def flip: map_map mset_map)
  moreover have "map sfID (Subflows ?doc) = map bsID (built ?s)"
    by (simp add: document_fields final_subflows_def subflow_of_def Let_def comp_def)
  ultimately have m: "mset (map sfID (Subflows ?doc) @ block_ids (walkBlocks ?doc)) = mset (all_ids ?s)"
    by (simp add: all_ids_def add.commute)
  have "distinct (map sfID (Subflows ?doc) @ block_ids (walkBlocks ?doc))"
    using mset_eq_imp_distinct_iff [OF m] ids by (simp add: ids_ok_def)
  moreover have "[] \<notin> set (block_ids (walkBlocks ?doc))"
  proof
    assume "[] \<in> set (block_ids (walkBlocks ?doc))"
    then have "[] \<in> set (all_ids ?s)" using mset_eq_setD [OF m] by auto
    then obtain k where "uuid k = []" using ids unfolding ids_ok_def by (metis imageE subsetD)
    with assms(2) show False by simp
  qed
  moreover have "placed sid pid b \<Longrightarrow> bSubflowID (binfo b) = sid" for sid pid b by (cases b) simp
  ultimately show ?thesis
    using document_placed [of uuid p] by (simp add: Parse_document doc_ids_ok_def list_all_iff) blast
qed

definition letters :: "nat \<Rightarrow> string" where
  "letters k = replicate (Suc k) (CHR ''a'')"

theorem parsed_document_fits_analysis_witness:
  "doc_ids_ok (the (fst (Parse letters \<lparr>pText = ''WAIT 1'', pFileName = ''Main.txt'', pFileSize = 6, pOnProgress = False\<rparr>)))"
proof -
  have 1: "inj letters" unfolding letters_def by (rule injI) (metis length_replicate nat.inject)
  have 2: "letters k \<noteq> []" for k by (simp add: letters_def)
  show ?thesis using parsed_document_fits_analysis [OF 1 2] by (simp add: Let_def)
qed

end
